(* ===== verification/Prelude.thy ===== *)
theory Prelude
  imports Main "HOL-Library.Sublist" "HOL-Library.Word"
begin

text \<open>
  What every component of the development shares: the collections the component proofs
  draw on, insertion-ordered dictionaries (Python's \<^verbatim>\<open>dict\<close>), the string operations
  the code uses (\<^verbatim>\<open>str.split\<close>, \<^verbatim>\<open>str.join\<close>, decimal printing and its inverse) and two
  small interfaces stated as locales: a codec (an encoder with a decoder that undoes it)
  and a transition system with an inductive invariant.

  A Python \<^verbatim>\<open>str\<close> is a \<open>string\<close>: a list of characters with code points below 256.
\<close>

named_theorems dict_simps \<open>lookups, keys and sizes of insertion-ordered dictionaries\<close>
named_theorems str_simps \<open>splitting, joining and printing strings\<close>

type_synonym byte = "8 word"
type_synonym bytes = "byte list"

section \<open>Insertion-ordered dictionaries\<close>

type_synonym ('k, 'v) dict = "('k \<times> 'v) list"

text \<open>\<^verbatim>\<open>d[k] = v\<close>: an existing key keeps its place, a new one goes last.\<close>

fun dict_put :: "'k \<Rightarrow> 'v \<Rightarrow> ('k, 'v) dict \<Rightarrow> ('k, 'v) dict" where
  "dict_put k v [] = [(k, v)]"
| "dict_put k v ((k', v') # d) = (if k' = k then (k, v) # d else (k', v') # dict_put k v d)"

text \<open>\<^verbatim>\<open>d.update(e)\<close> and \<^verbatim>\<open>dict(pairs)\<close>.\<close>

definition dict_update :: "('k, 'v) dict \<Rightarrow> ('k, 'v) dict \<Rightarrow> ('k, 'v) dict" where
  "dict_update d e = foldl (\<lambda>acc (k, v). dict_put k v acc) d e"

definition dict_of :: "('k \<times> 'v) list \<Rightarrow> ('k, 'v) dict" where
  "dict_of ps = dict_update [] ps"

definition dict_get :: "('k, 'v) dict \<Rightarrow> 'k \<Rightarrow> 'v \<Rightarrow> 'v" where
  "dict_get d k dflt = (case map_of d k of None \<Rightarrow> dflt | Some v \<Rightarrow> v)"

definition dict_ok :: "('k, 'v) dict \<Rightarrow> bool" where
  "dict_ok d \<longleftrightarrow> distinct (map fst d)"

lemma map_of_dict_put [simp, dict_simps]: "map_of (dict_put k v d) = (map_of d)(k \<mapsto> v)"
  by (induction d) (auto simp: fun_eq_iff)

lemma keys_dict_put [simp, dict_simps]: "fst ` set (dict_put k v d) = insert k (fst ` set d)"
  by (induction k v d rule: dict_put.induct) (simp_all add: insert_commute)

lemma dict_put_fresh [dict_simps]: "k \<notin> fst ` set d \<Longrightarrow> dict_put k v d = d @ [(k, v)]"
  by (induction d) auto

lemma dict_ok_put [simp, dict_simps]: "dict_ok d \<Longrightarrow> dict_ok (dict_put k v d)"
proof (induction d)
  case (Cons a d)
  then show ?case
    using keys_dict_put [of k v d] by (cases a) (auto simp: dict_ok_def)
qed (simp add: dict_ok_def)

lemma dict_update_Nil [simp]: "dict_update d [] = d"
  by (simp add: dict_update_def)

lemma dict_update_Cons [simp]: "dict_update d ((k, v) # e) = dict_update (dict_put k v d) e"
  by (simp add: dict_update_def)

lemma dict_ok_update [simp, dict_simps]: "dict_ok d \<Longrightarrow> dict_ok (dict_update d e)"
  by (induction e arbitrary: d) auto

lemma keys_dict_update [simp, dict_simps]:
  "fst ` set (dict_update d e) = fst ` set d \<union> fst ` set e"
proof (induction e arbitrary: d)
  case (Cons kv e)
  then show ?case by (cases kv) simp
qed simp

lemma map_of_dict_update [dict_simps]:
  "dict_ok e \<Longrightarrow> map_of (dict_update d e) = map_of d ++ map_of e"
proof (induction e arbitrary: d)
  case (Cons kv e)
  obtain k v where kv: "kv = (k, v)" by (cases kv)
  with Cons.prems have "dict_ok e" and "map_of e k = None"
    by (auto simp: dict_ok_def map_of_eq_None_iff)
  with Cons.IH show ?case
    by (auto simp: kv map_add_def fun_eq_iff split: option.splits)
qed simp

lemma dict_update_append:
  "distinct (map fst e) \<Longrightarrow> fst ` set d \<inter> fst ` set e = {} \<Longrightarrow> dict_update d e = d @ e"
proof (induction e arbitrary: d)
  case (Cons kv e)
  then show ?case by (cases kv) (auto simp: dict_put_fresh)
qed simp

lemma dict_of_id [simp, dict_simps]: "dict_ok d \<Longrightarrow> dict_of d = d"
  by (simp add: dict_of_def dict_ok_def dict_update_append)

lemma dict_ok_dict_of [simp, dict_simps]: "dict_ok (dict_of d)"
  by (simp add: dict_of_def dict_ok_def [of "[]"])

section \<open>Sizes of file maps\<close>

text \<open>\<^verbatim>\<open>sum(len(v) for v in files.values())\<close>.\<close>

definition total_size :: "(string, 'b list) dict \<Rightarrow> nat" where
  "total_size d = sum_list (map (\<lambda>(_, v). length v) d)"

lemma total_size_simps [simp, dict_simps]:
  "total_size [] = 0"
  "total_size ((k, v) # d) = length v + total_size d"
  "total_size (d @ e) = total_size d + total_size e"
  by (simp_all add: total_size_def)

lemma total_size_put [dict_simps]: "total_size (dict_put k v d) \<le> total_size d + length v"
  by (induction d) auto

section \<open>Strings\<close>

text \<open>\<^verbatim>\<open>s.split(c)\<close> for a one-character separator: always at least one part.\<close>

fun split_on :: "'a \<Rightarrow> 'a list \<Rightarrow> 'a list list" where
  "split_on c [] = [[]]"
| "split_on c (x # xs) =
     (if x = c then [] # split_on c xs
      else (case split_on c xs of [] \<Rightarrow> [[x]] | p # ps \<Rightarrow> (x # p) # ps))"

text \<open>\<^verbatim>\<open>c.join(parts)\<close>.\<close>

fun join_with :: "'a \<Rightarrow> 'a list list \<Rightarrow> 'a list" where
  "join_with c [] = []"
| "join_with c [p] = p"
| "join_with c (p # q # ps) = p @ c # join_with c (q # ps)"

lemma split_on_not_Nil [simp]: "split_on c xs \<noteq> []"
  by (induction xs) (auto split: list.splits)

lemma join_with_split_on [simp, str_simps]: "join_with c (split_on c xs) = xs"
proof (induction xs)
  case (Cons x xs)
  obtain p ps where "split_on c xs = p # ps" by (cases "split_on c xs") auto
  with Cons show ?case by (cases ps) auto
qed simp

lemma split_on_parts: "p \<in> set (split_on c xs) \<Longrightarrow> c \<notin> set p"
  by (induction xs arbitrary: p) (auto split: list.splits if_splits)

lemma split_on_id [str_simps]: "c \<notin> set p \<Longrightarrow> split_on c p = [p]"
  by (induction p) auto

lemma split_on_append [str_simps]:
  "c \<notin> set p \<Longrightarrow> split_on c (p @ c # xs) = p # split_on c xs"
  by (induction p) auto

lemma split_on_join_with [str_simps]:
  "ps \<noteq> [] \<Longrightarrow> \<forall>p \<in> set ps. c \<notin> set p \<Longrightarrow> split_on c (join_with c ps) = ps"
  by (induction c ps rule: join_with.induct) (auto simp: split_on_id split_on_append)

subsection \<open>Decimal numbers\<close>

definition digit_char :: "nat \<Rightarrow> char" where
  "digit_char d = char_of (48 + d)"

definition digit_val :: "char \<Rightarrow> nat" where
  "digit_val c = of_char c - 48"

definition is_digit :: "char \<Rightarrow> bool" where
  "is_digit c \<longleftrightarrow> 48 \<le> (of_char c :: nat) \<and> (of_char c :: nat) \<le> 57"

text \<open>\<^verbatim>\<open>str(n)\<close> for a natural number.\<close>

fun dec :: "nat \<Rightarrow> string" where
  "dec n = (if n < 10 then [digit_char n] else dec (n div 10) @ [digit_char (n mod 10)])"

declare dec.simps [simp del]

definition undec :: "string \<Rightarrow> nat" where
  "undec s = foldl (\<lambda>acc c. 10 * acc + digit_val c) 0 s"

lemma digit_char_val [simp]: "d < 10 \<Longrightarrow> digit_val (digit_char d) = d"
  by (simp add: digit_char_def digit_val_def)

lemma is_digit_digit_char [simp]: "d < 10 \<Longrightarrow> is_digit (digit_char d)"
  by (simp add: digit_char_def is_digit_def)

lemma digit_char_simps [simp]:
  "digit_char 0 = CHR ''0''" "digit_char 1 = CHR ''1''" "digit_char (Suc 0) = CHR ''1''"
  "digit_char 2 = CHR ''2''" "digit_char 3 = CHR ''3''" "digit_char 4 = CHR ''4''"
  "digit_char 5 = CHR ''5''" "digit_char 6 = CHR ''6''" "digit_char 7 = CHR ''7''"
  "digit_char 8 = CHR ''8''" "digit_char 9 = CHR ''9''"
  by code_simp+

lemma undec_snoc [simp]: "undec (s @ [c]) = 10 * undec s + digit_val c"
  by (simp add: undec_def)

lemma undec_dec [simp, str_simps]: "undec (dec n) = n"
proof (induction n rule: dec.induct)
  case (1 n)
  then show ?case
    by (subst dec.simps) (auto simp: undec_def)
qed

lemma dec_digits [str_simps]: "c \<in> set (dec n) \<Longrightarrow> is_digit c"
proof (induction n rule: dec.induct)
  case (1 n)
  then show ?case by (subst (asm) (2) dec.simps) (auto split: if_splits)
qed

lemma dec_not_Nil [simp]: "dec n \<noteq> []"
  by (subst dec.simps) simp

lemma dec_inject [simp]: "dec m = dec n \<longleftrightarrow> m = n"
  by (metis undec_dec)

lemma undec_zeros [simp]: "undec (replicate k (CHR ''0'') @ s) = undec s"
proof -
  have "foldl (\<lambda>acc c. 10 * acc + digit_val c) 0 (replicate k (CHR ''0'')) = (0::nat)"
    by (induction k) (simp_all add: digit_val_def)
  then show ?thesis by (simp add: undec_def)
qed

lemma length_dec: "n < 10 ^ Suc k \<Longrightarrow> length (dec n) \<le> Suc k"
proof (induction k arbitrary: n)
  case 0
  then show ?case by (subst dec.simps) simp
next
  case (Suc k)
  show ?case
  proof (cases "n < 10")
    case True
    then show ?thesis by (subst dec.simps) simp
  next
    case False
    from Suc.prems have "n div 10 < 10 ^ Suc k" by (simp add: less_mult_imp_div_less)
    with Suc.IH have "length (dec (n div 10)) \<le> Suc k" by blast
    with False show ?thesis by (subst dec.simps) simp
  qed
qed

section \<open>Two interfaces\<close>

text \<open>A codec: what is encoded inside the domain decodes to itself.\<close>

locale codec =
  fixes enc :: "'a \<Rightarrow> 'b"
    and decd :: "'b \<Rightarrow> 'a option"
    and good :: "'a \<Rightarrow> bool"
  assumes round_trip: "good x \<Longrightarrow> decd (enc x) = Some x"
begin

lemma enc_inject: "good x \<Longrightarrow> good y \<Longrightarrow> enc x = enc y \<longleftrightarrow> x = y"
  by (metis option.inject round_trip)

text \<open>A codec lifts to lists: all parts or nothing.\<close>

lemma round_trip_list:
  "\<forall>x \<in> set xs. good x \<Longrightarrow> those (map (\<lambda>x. decd (enc x)) xs) = Some xs"
  by (induction xs) (auto simp: round_trip)

end

text \<open>Two codecs, one feeding the other, make a codec.\<close>

locale codec_chain = inner: codec enc1 decd1 good1 + outer: codec enc2 decd2 good2
  for enc1 :: "'a \<Rightarrow> 'b" and decd1 good1 and enc2 :: "'b \<Rightarrow> 'c" and decd2 good2 +
  assumes good_enc: "good1 x \<Longrightarrow> good2 (enc1 x)"
begin

lemma chain_round_trip: "good1 x \<Longrightarrow> Option.bind (decd2 (enc2 (enc1 x))) decd1 = Some x"
  by (simp add: outer.round_trip inner.round_trip good_enc)

end

sublocale codec_chain \<subseteq> chain: codec "\<lambda>x. enc2 (enc1 x)" "\<lambda>y. Option.bind (decd2 y) decd1" good1
  by unfold_locales (rule chain_round_trip)

text \<open>
  A transition system with an invariant its steps keep; the invariant then holds after every
  sequence of steps.
\<close>

locale invariant_system =
  fixes stp :: "'s \<Rightarrow> 's \<Rightarrow> bool"
    and inv :: "'s \<Rightarrow> bool"
  assumes inv_step: "inv s \<Longrightarrow> stp s t \<Longrightarrow> inv t"
begin

lemma inv_steps: "stp\<^sup>*\<^sup>* s t \<Longrightarrow> inv s \<Longrightarrow> inv t"
  by (induction rule: rtranclp_induct) (auto intro: inv_step)

end

end
