(* ===== verification/PyFloat.thy ===== *)
theory PyFloat
  imports Complex_Main "HOL-Library.Log_Nat" Prelude
begin

text \<open>
  Python's \<^verbatim>\<open>float\<close> on the non-negative values the configuration parses: IEEE 754
  binary64 with round-half-even, an overflow to infinity and gradual underflow. A finite
  float is the rational it stands for. The rounding is monotone, and exact on integers of at most
  53 bits, which is what the quantity checks rest on.
\<close>

section \<open>Rounding\<close>

datatype pyfloat = Fin rat | FInf

definition round_even :: "rat \<Rightarrow> int" where
  "round_even q =
     (let n = \<lfloor>q\<rfloor>; f = q - of_int n
      in if f < 1/2 then n else if 1/2 < f then n + 1 else if even n then n else n + 1)"

text \<open>The exponent \<open>k\<close> with \<open>2 ^ k \<le> q < 2 ^ (k + 1)\<close>, from the bit lengths of the fraction.\<close>

definition ilog2 :: "rat \<Rightarrow> int" where
  "ilog2 q =
     (let (a, b) = quotient_of q;
          l = int (floorlog 2 (nat a)) - int (floorlog 2 (nat b))
      in if 2 powi l \<le> q then l else l - 1)"

text \<open>The exponent of the last place of the significand.\<close>

definition ulp_exp :: "rat \<Rightarrow> int" where
  "ulp_exp q = max (ilog2 q - 52) (- 1074)"

definition scaled :: "rat \<Rightarrow> rat" where
  "scaled q = of_int (round_even (q / 2 powi ulp_exp q)) * 2 powi ulp_exp q"

definition to_float :: "rat \<Rightarrow> pyfloat" where
  "to_float q = (if q = 0 then Fin 0 else if 2 powi 1024 \<le> scaled q then FInf else Fin (scaled q))"

fun float_mult :: "pyfloat \<Rightarrow> pyfloat \<Rightarrow> pyfloat" where
  "float_mult (Fin x) (Fin y) = to_float (x * y)"
| "float_mult _ _ = FInf"

section \<open>Order\<close>

instantiation pyfloat :: linorder
begin

fun less_eq_pyfloat :: "pyfloat \<Rightarrow> pyfloat \<Rightarrow> bool" where
  "less_eq_pyfloat (Fin x) (Fin y) = (x \<le> y)"
| "less_eq_pyfloat _ FInf = True"
| "less_eq_pyfloat FInf (Fin _) = False"

definition less_pyfloat :: "pyfloat \<Rightarrow> pyfloat \<Rightarrow> bool" where
  "less_pyfloat x y \<longleftrightarrow> \<not> y \<le> (x :: pyfloat)"

instance
proof
  fix x y z :: pyfloat
  show "x < y \<longleftrightarrow> x \<le> y \<and> \<not> y \<le> x"
    by (cases x; cases y) (auto simp: less_pyfloat_def)
  show "x \<le> x" by (cases x) auto
  show "x \<le> y \<Longrightarrow> y \<le> z \<Longrightarrow> x \<le> z"
    by (cases x; cases y; cases z) auto
  show "x \<le> y \<Longrightarrow> y \<le> x \<Longrightarrow> x = y"
    by (cases x; cases y) auto
  show "x \<le> y \<or> y \<le> x" by (cases x; cases y) auto
qed

end

lemma less_pyfloat_simps [simp]:
  "Fin x < Fin y \<longleftrightarrow> x < y" "Fin x < FInf" "\<not> FInf < Fin x" "\<not> FInf < FInf"
  by (auto simp: less_pyfloat_def)

section \<open>Rounding is monotone\<close>

lemma round_even_int [simp]: "round_even (of_int n) = n"
  by (simp add: round_even_def)

lemma round_even_floor: "\<lfloor>q\<rfloor> \<le> round_even q" "round_even q \<le> \<lfloor>q\<rfloor> + 1"
  by (auto simp: round_even_def Let_def)

lemma round_even_mono: "p \<le> q \<Longrightarrow> round_even p \<le> round_even q"
proof -
  assume le: "p \<le> q"
  then have fl: "\<lfloor>p\<rfloor> \<le> \<lfloor>q\<rfloor>" by (rule floor_mono)
  show ?thesis
  proof (cases "\<lfloor>p\<rfloor> = \<lfloor>q\<rfloor>")
    case True
    with le show ?thesis by (auto simp: round_even_def Let_def)
  next
    case False
    with fl have "\<lfloor>p\<rfloor> + 1 \<le> \<lfloor>q\<rfloor>" by simp
    with round_even_floor(2) [of p] round_even_floor(1) [of q] show ?thesis by linarith
  qed
qed

lemma round_even_ge_int: "of_int n \<le> q \<Longrightarrow> n \<le> round_even q"
  using round_even_mono [of "of_int n" q] by simp

lemma round_even_le_int: "q \<le> of_int n \<Longrightarrow> round_even q \<le> n"
  using round_even_mono [of q "of_int n"] by simp

lemma floorlog2_nat:
  assumes "0 < n"
  shows "1 \<le> floorlog 2 n" "2 ^ (floorlog 2 n - 1) \<le> n" "n < 2 ^ floorlog 2 n"
proof -
  show "2 ^ (floorlog 2 n - 1) \<le> n" "n < 2 ^ floorlog 2 n"
    using floorlog_bounds [OF assms, of 2] by auto
  then show "1 \<le> floorlog 2 n"
    using assms by (cases "floorlog 2 n") auto
qed

lemma powi_bounds_of_nat:
  assumes "0 < a" "1 \<le> k" "2 ^ (k - 1) \<le> nat a" "nat a < 2 ^ k"
  shows "(2::rat) powi (int k - 1) \<le> of_int a" "of_int a < (2::rat) powi int k"
proof -
  from assms have "2 ^ (k - 1) \<le> a" "a < 2 ^ k"
    by (simp_all add: le_nat_iff nat_less_iff)
  then have "of_int (2 ^ (k - 1)) \<le> (of_int a :: rat)" "(of_int a :: rat) < of_int (2 ^ k)"
    by (simp_all only: of_int_le_iff of_int_less_iff)
  moreover have "nat (int k - 1) = k - 1" using assms(2) by simp
  ultimately show "(2::rat) powi (int k - 1) \<le> of_int a" "of_int a < (2::rat) powi int k"
    using assms(2) by (simp_all add: power_int_def)
qed

lemma ilog2_bounds:
  assumes "0 < q"
  shows "2 powi ilog2 q \<le> q" and "q < 2 powi (ilog2 q + 1)"
proof -
  obtain a b where ab: "quotient_of q = (a, b)" by (cases "quotient_of q")
  from ab have b: "0 < b" by (rule quotient_of_denom_pos)
  from ab have q: "q = of_int a / of_int b" by (rule quotient_of_div)
  with assms b have a: "0 < a" by (auto simp: zero_less_divide_iff)
  define la lb where "la = floorlog 2 (nat a)" and "lb = floorlog 2 (nat b)"
  have pos: "0 < nat a" "0 < nat b" using a b by auto
  note na = floorlog2_nat [OF pos(1), folded la_def] and nb = floorlog2_nat [OF pos(2), folded lb_def]
  note A = powi_bounds_of_nat [OF a na] and B = powi_bounds_of_nat [OF b nb]
  define l where "l = int la - int lb"
  have "q < 2 powi int la / 2 powi (int lb - 1)"
    unfolding q using A B b by (intro frac_less) (auto simp: a order.strict_implies_order)
  also have "\<dots> = 2 powi (l + 1)"
    unfolding l_def by (subst power_int_diff [symmetric]) (auto simp: algebra_simps)
  finally have hi: "q < 2 powi (l + 1)" .
  have "2 powi (l - 1) = (2::rat) powi (int la - 1) / 2 powi int lb"
    unfolding l_def by (subst power_int_diff [symmetric]) (auto simp: algebra_simps)
  also have "\<dots> \<le> q"
    unfolding q using A B a b by (intro frac_le) auto
  finally have lo: "2 powi (l - 1) \<le> q" .
  have il: "ilog2 q = (if 2 powi l \<le> q then l else l - 1)"
    by (simp add: ilog2_def ab la_def lb_def l_def)
  show "2 powi ilog2 q \<le> q" and "q < 2 powi (ilog2 q + 1)"
    using hi lo by (auto simp: il)
qed

lemma powi_less_cancel: "(2::rat) powi i < 2 powi j \<Longrightarrow> i < j"
  by (metis linorder_not_le one_le_numeral power_int_increasing)

lemma ilog2_mono: "0 < p \<Longrightarrow> p \<le> q \<Longrightarrow> ilog2 p \<le> ilog2 q"
proof -
  assume "0 < p" "p \<le> q"
  then have "2 powi ilog2 p < (2::rat) powi (ilog2 q + 1)"
    using ilog2_bounds [of p] ilog2_bounds [of q] by linarith
  then show ?thesis using powi_less_cancel by force
qed

lemma ulp_exp_mono: "0 < p \<Longrightarrow> p \<le> q \<Longrightarrow> ulp_exp p \<le> ulp_exp q"
  using ilog2_mono [of p q] by (auto simp: ulp_exp_def)

lemma scaled_mono:
  assumes "0 < p" "p \<le> q"
  shows "scaled p \<le> scaled q"
proof (cases "ulp_exp p = ulp_exp q")
  case True
  have "round_even (p / 2 powi ulp_exp q) \<le> round_even (q / 2 powi ulp_exp q)"
    using assms by (intro round_even_mono divide_right_mono) auto
  with True show ?thesis by (simp add: scaled_def mult_right_mono)
next
  case False
  with ulp_exp_mono [OF assms] have lt: "ulp_exp p < ulp_exp q" by simp
  then have eq: "ulp_exp q = ilog2 q - 52" by (auto simp: ulp_exp_def)
  have "p < 2 powi (ilog2 p + 1)" using assms ilog2_bounds by blast
  also have "\<dots> \<le> 2 powi (ulp_exp p + 53)" by (intro power_int_increasing) (auto simp: ulp_exp_def)
  finally have "p / 2 powi ulp_exp p \<le> of_int (2 ^ 53)"
    by (simp add: power_int_add field_simps)
  then have "round_even (p / 2 powi ulp_exp p) \<le> 2 ^ 53" by (rule round_even_le_int)
  then have "of_int (round_even (p / 2 powi ulp_exp p)) \<le> (of_int (2 ^ 53) :: rat)"
    by (simp only: of_int_le_iff)
  then have "scaled p \<le> of_int (2 ^ 53) * 2 powi ulp_exp p"
    unfolding scaled_def by (intro mult_right_mono) auto
  also have "\<dots> = 2 powi (ulp_exp p + 53)" by (simp add: power_int_add)
  also have "\<dots> \<le> 2 powi (ulp_exp q + 52)" using lt by (intro power_int_increasing) auto
  also have "\<dots> = of_int (2 ^ 52) * 2 powi ulp_exp q" by (simp add: power_int_add)
  also have "\<dots> \<le> scaled q"
  proof -
    have "2 powi (ulp_exp q + 52) \<le> q" using eq ilog2_bounds(1) [of q] assms by simp
    then have "of_int (2 ^ 52) \<le> q / 2 powi ulp_exp q"
      by (simp add: power_int_add field_simps)
    then have "2 ^ 52 \<le> round_even (q / 2 powi ulp_exp q)" by (rule round_even_ge_int)
    then have "of_int (2 ^ 52) \<le> (of_int (round_even (q / 2 powi ulp_exp q)) :: rat)"
      by (simp only: of_int_le_iff)
    then show ?thesis unfolding scaled_def by (intro mult_right_mono) auto
  qed
  finally show ?thesis .
qed

lemma scaled_nonneg: "0 \<le> q \<Longrightarrow> 0 \<le> scaled q"
  unfolding scaled_def by (intro mult_nonneg_nonneg) (auto intro!: round_even_ge_int)

lemma to_float_mono: "0 \<le> p \<Longrightarrow> p \<le> q \<Longrightarrow> to_float p \<le> to_float q"
  using scaled_mono [of p q] scaled_nonneg [of q] by (auto simp: to_float_def)

section \<open>Evaluating a rounding\<close>

lemma ilog2_eqI:
  assumes "2 powi k \<le> q" "q < 2 powi (k + 1)"
  shows "ilog2 q = k"
proof -
  have "0 < q" using assms(1) by (rule less_le_trans [rotated]) simp
  with assms ilog2_bounds [of q] have "2 powi k < (2::rat) powi (ilog2 q + 1)"
    and "2 powi ilog2 q < (2::rat) powi (k + 1)" by linarith+
  then show ?thesis
    using powi_less_cancel [of k "ilog2 q + 1"] powi_less_cancel [of "ilog2 q" "k + 1"] by linarith
qed

lemma round_even_nearest: "\<bar>x - of_int m\<bar> < 1/2 \<Longrightarrow> round_even x = m"
proof -
  assume "\<bar>x - of_int m\<bar> < 1/2"
  then have lo: "of_int m - 1/2 < x" and hi: "x < of_int m + 1/2" by linarith+
  show ?thesis
  proof (cases "of_int m \<le> x")
    case True
    with hi have "\<lfloor>x\<rfloor> = m" by (intro floor_unique) auto
    with hi show ?thesis by (simp add: round_even_def Let_def)
  next
    case False
    with lo have "\<lfloor>x\<rfloor> = m - 1" by (intro floor_unique) auto
    with lo show ?thesis by (simp add: round_even_def Let_def)
  qed
qed

text \<open>
  A normal number in the binade of exponent \<open>e\<close> rounds to the integer nearest to its
  significand.
\<close>

lemma to_float_eqI:
  assumes "2 powi (e + 52) \<le> q" "q < 2 powi (e + 53)" "-1074 \<le> e"
    and "\<bar>q / 2 powi e - of_int m\<bar> < 1/2" "of_int m * 2 powi e < (2::rat) powi 1024"
  shows "to_float q = Fin (of_int m * 2 powi e)"
proof -
  have "0 < q" using assms(1) by (rule less_le_trans [rotated]) simp
  have "ilog2 q = e + 52" using assms(1,2) by (intro ilog2_eqI) (auto simp: add.assoc)
  with assms(3) have "ulp_exp q = e" by (simp add: ulp_exp_def)
  with round_even_nearest [OF assms(4)] have "scaled q = of_int m * 2 powi e"
    by (simp add: scaled_def)
  with assms(5) \<open>0 < q\<close> show ?thesis by (simp add: to_float_def)
qed

text \<open>
  An integer of at most 53 bits times a power of two is its own float (up to an exponent far
  below the overflow threshold).
\<close>

lemma to_float_exact:
  assumes "n < 2 ^ 53" "k \<le> 900"
  shows "to_float (of_nat (n * 2 ^ k)) = Fin (of_nat (n * 2 ^ k))"
proof (cases "n = 0")
  case False
  define q where "q = (of_nat (n * 2 ^ k) :: rat)"
  define e where "e = ulp_exp q"
  have pos: "0 < q" using False by (simp add: q_def)
  have "n * 2 ^ k < 2 ^ (53 + k)" using assms(1) by (simp add: power_add)
  then have "q < of_nat (2 ^ (53 + k))" unfolding q_def by (simp only: of_nat_less_iff)
  then have small: "q < 2 powi (53 + int k)" by (simp add: power_int_def nat_add_distrib)
  have "2 powi ilog2 q < (2::rat) powi (53 + int k)" using ilog2_bounds(1) [OF pos] small by linarith
  then have "ilog2 q < 53 + int k" by (rule powi_less_cancel)
  then have ek: "e \<le> int k" by (simp add: e_def ulp_exp_def)
  then have split: "(2::rat) ^ k = 2 ^ nat (int k - e) * 2 powi e"
    by (simp flip: power_int_of_nat power_int_add)
  then have "q / 2 powi e = of_int (int n * 2 ^ nat (int k - e))"
    by (simp add: q_def)
  then have "round_even (q / 2 powi e) = int n * 2 ^ nat (int k - e)"
    by (simp only: round_even_int)
  with split have "scaled q = q"
    unfolding scaled_def e_def [symmetric] by (simp add: q_def)
  moreover have "(2::rat) powi (53 + int k) \<le> 2 powi 1024"
    using assms(2) by (intro power_int_increasing) auto
  ultimately have "to_float q = Fin q" using pos small by (simp add: to_float_def)
  then show ?thesis by (simp only: q_def)
qed (simp add: to_float_def)

lemma to_float_of_nat: "n < 2 ^ 53 \<Longrightarrow> to_float (of_nat n) = Fin (of_nat n)"
  using to_float_exact [of n 0] by simp

lemma float_mult_exact:
  "n < 2 ^ 53 \<Longrightarrow> k \<le> 900 \<Longrightarrow> float_mult (Fin (of_nat n)) (Fin (2 ^ k)) = Fin (of_nat (n * 2 ^ k))"
  using to_float_exact [of n k] by simp

end
