(* ===== verification/Results.thy ===== *)
theory Results
  imports Complex_Main Prelude
begin

text \<open>
  The values callers see (\<^verbatim>\<open>models.py\<close>) and the exceptions (\<^verbatim>\<open>errors.py\<close>), and the
  state-and-exception reading of Python statements in which the stateful components are
  written: a computation takes the state and returns an exception or a value together with
  the state it leaves behind, so that what was changed before a \<^verbatim>\<open>raise\<close> stays changed.
\<close>

named_theorems py_intros \<open>preservation of a state predicate through statements\<close>

section \<open>Exceptions\<close>

text \<open>
  One constructor per exception class the library raises or catches; the \<open>string\<close> is the
  constant text of the message. \<open>ApiErr\<close> is \<^verbatim>\<open>client.ApiException\<close> with its HTTP status,
  \<open>OtherErr\<close> any other exception of a third party. \<open>WouldBlock\<close> is not an exception: it
  marks a call that waits on the empty free queue with no time limit.
\<close>

datatype exn =
    SandboxErr string
  | SandboxConfigErr string
  | SandboxStartupErr string
  | SandboxPoolClosed string
  | ExecTimeout
  | UploadErr string
  | ValueErr string
  | AttributeErr
  | TypeErr
  | OverflowErr
  | OsErr
  | ApiErr nat
  | OtherErr string
  | WouldBlock

text \<open>\<^verbatim>\<open>isinstance(e, SandboxError)\<close>: the subclasses of \<^verbatim>\<open>errors.py\<close>.\<close>

fun is_sandbox_error :: "exn \<Rightarrow> bool" where
  "is_sandbox_error (SandboxErr _) = True"
| "is_sandbox_error (SandboxConfigErr _) = True"
| "is_sandbox_error (SandboxStartupErr _) = True"
| "is_sandbox_error (SandboxPoolClosed _) = True"
| "is_sandbox_error _ = False"

section \<open>Results\<close>

datatype stream_kind = Stdout | Stderr

record stream_chunk =
  stream :: stream_kind
  chunk_data :: string

text \<open>The truncated names are handed on as the collector's JSON has them; their type is a parameter.\<close>

record 'n run_result =
  stdout :: string
  stderr :: string
  exit_code :: "int option"
  timed_out :: bool
  duration_s :: rat
  sandbox_id :: string
  files :: "(string, byte list) dict"
  files_truncated :: "'n list"

definition ok :: "'n run_result \<Rightarrow> bool" where
  "ok r \<longleftrightarrow> exit_code r = Some 0 \<and> \<not> timed_out r"

record pool_start_report =
  requested :: int
  placed :: int
  reasons :: "string list"

definition complete :: "pool_start_report \<Rightarrow> bool" where
  "complete r \<longleftrightarrow> placed r \<ge> requested r"

definition shortfall :: "pool_start_report \<Rightarrow> int" where
  "shortfall r = max 0 (requested r - placed r)"

lemma shortfall_complete: "shortfall r = 0 \<longleftrightarrow> complete r"
  by (auto simp: shortfall_def complete_def max_def)

section \<open>Statements over a state\<close>

type_synonym ('s, 'a) py = "'s \<Rightarrow> (exn + 'a) \<times> 's"

definition ret :: "'a \<Rightarrow> ('s, 'a) py" where
  "ret x s = (Inr x, s)"

definition throw :: "exn \<Rightarrow> ('s, 'a) py" where
  "throw e s = (Inl e, s)"

definition andThen :: "('s, 'a) py \<Rightarrow> ('a \<Rightarrow> ('s, 'b) py) \<Rightarrow> ('s, 'b) py" where
  "andThen m f s = (case m s of (Inl e, t) \<Rightarrow> (Inl e, t) | (Inr x, t) \<Rightarrow> f x t)"

text \<open>\<^verbatim>\<open>try: m except: h\<close>; the handler gets the exception and may raise it again.\<close>

definition tryExcept :: "('s, 'a) py \<Rightarrow> (exn \<Rightarrow> ('s, 'a) py) \<Rightarrow> ('s, 'a) py" where
  "tryExcept m h s = (case m s of (Inl e, t) \<Rightarrow> h e t | (Inr x, t) \<Rightarrow> (Inr x, t))"

text \<open>\<^verbatim>\<open>try: m finally: f\<close>; an exception of the \<^verbatim>\<open>finally\<close> block replaces the outcome.\<close>

definition tryFinally :: "('s, 'a) py \<Rightarrow> ('s, unit) py \<Rightarrow> ('s, 'a) py" where
  "tryFinally m f s =
     (case m s of (r, t) \<Rightarrow> (case f t of (Inl e, u) \<Rightarrow> (Inl e, u) | (Inr _, u) \<Rightarrow> (r, u)))"

definition reads :: "('s \<Rightarrow> 'a) \<Rightarrow> ('s, 'a) py" where
  "reads g s = (Inr (g s), s)"

definition updates :: "('s \<Rightarrow> 's) \<Rightarrow> ('s, unit) py" where
  "updates g s = (Inr (), g s)"

definition cond :: "bool \<Rightarrow> ('s, 'a) py \<Rightarrow> ('s, 'a) py \<Rightarrow> ('s, 'a) py" where
  "cond b m n = (if b then m else n)"

lemmas py_defs = ret_def throw_def andThen_def tryExcept_def tryFinally_def reads_def
  updates_def cond_def

text \<open>\<open>keeps P m\<close>: the statement keeps \<open>P\<close>, whether it returns or raises.\<close>

definition keeps :: "('s \<Rightarrow> bool) \<Rightarrow> ('s, 'a) py \<Rightarrow> bool" where
  "keeps P m \<longleftrightarrow> (\<forall>s. P s \<longrightarrow> P (snd (m s)))"

lemma keepsD: "keeps P m \<Longrightarrow> P s \<Longrightarrow> m s = (r, t) \<Longrightarrow> P t"
  by (force simp: keeps_def)

lemma keeps_ret [py_intros]: "keeps P (ret x)"
  and keeps_throw [py_intros]: "keeps P (throw e)"
  and keeps_reads [py_intros]: "keeps P (reads g)"
  by (simp_all add: keeps_def py_defs)

lemma keeps_updates [py_intros]: "(\<And>s. P s \<Longrightarrow> P (g s)) \<Longrightarrow> keeps P (updates g)"
  by (simp add: keeps_def py_defs)

lemma keeps_andThen [py_intros]:
  assumes "keeps P m" "\<And>x. keeps P (f x)"
  shows "keeps P (andThen m f)"
  unfolding keeps_def
proof (intro allI impI)
  fix s assume "P s"
  obtain r t where m: "m s = (r, t)" by (cases "m s")
  with assms(1) \<open>P s\<close> have "P t" by (auto dest: keepsD)
  with assms(2) m show "P (snd (andThen m f s))"
    by (cases r) (auto simp: andThen_def keeps_def)
qed

lemma keeps_tryExcept [py_intros]:
  assumes "keeps P m" "\<And>e. keeps P (h e)"
  shows "keeps P (tryExcept m h)"
  unfolding keeps_def
proof (intro allI impI)
  fix s assume "P s"
  obtain r t where m: "m s = (r, t)" by (cases "m s")
  with assms(1) \<open>P s\<close> have "P t" by (auto dest: keepsD)
  with assms(2) m show "P (snd (tryExcept m h s))"
    by (cases r) (auto simp: tryExcept_def keeps_def)
qed

lemma keeps_tryFinally [py_intros]:
  assumes "keeps P m" "keeps P f"
  shows "keeps P (tryFinally m f)"
  unfolding keeps_def
proof (intro allI impI)
  fix s assume "P s"
  obtain r t where m: "m s = (r, t)" by (cases "m s")
  obtain r' u where f: "f t = (r', u)" by (cases "f t")
  from assms(1) \<open>P s\<close> m have "P t" by (auto dest: keepsD)
  with assms(2) f have "P u" by (auto dest: keepsD)
  with m f show "P (snd (tryFinally m f s))"
    by (cases r') (auto simp: tryFinally_def)
qed

lemma keeps_cond [py_intros]: "keeps P m \<Longrightarrow> keeps P n \<Longrightarrow> keeps P (cond b m n)"
  by (simp add: cond_def)

lemma keeps_if [py_intros]: "(b \<Longrightarrow> keeps P m) \<Longrightarrow> (\<not> b \<Longrightarrow> keeps P n) \<Longrightarrow> keeps P (if b then m else n)"
  by simp

lemma keeps_option [py_intros]:
  "keeps P m \<Longrightarrow> (\<And>x. keeps P (f x)) \<Longrightarrow> keeps P (case z of None \<Rightarrow> m | Some x \<Rightarrow> f x)"
  by (cases z) auto

end
