(* ===== verification/Config.thy ===== *)
theory Config
  imports PyFloat Results
begin

text \<open>
  \<^verbatim>\<open>config.py\<close>: the configuration record with its defaults, the parser of Kubernetes
  resource quantities (the regular expression read as a deterministic scanner, the value in
  binary64 arithmetic) and \<^verbatim>\<open>validate\<close>. Durations are exact rationals.
\<close>

section \<open>Resource quantities\<close>

text \<open>The white space of \<^verbatim>\<open>\\s\<close> below code point 256.\<close>

definition is_space :: "char \<Rightarrow> bool" where
  "is_space c \<longleftrightarrow> (let n = of_char c :: nat in 9 \<le> n \<and> n \<le> 13 \<or> 28 \<le> n \<and> n \<le> 32 \<or> n = 133 \<or> n = 160)"

definition is_alpha :: "char \<Rightarrow> bool" where
  "is_alpha c \<longleftrightarrow> (let n = of_char c :: nat in 65 \<le> n \<and> n \<le> 90 \<or> 97 \<le> n \<and> n \<le> 122)"

text \<open>The fraction \<^verbatim>\<open>.ddd\<close> after the integer digits; \<^verbatim>\<open>\\d*\\.?\\d+\<close> needs a last digit.\<close>

definition scan_mantissa :: "string \<Rightarrow> (string \<times> string \<times> string) option" where
  "scan_mantissa s =
     (let ds = takeWhile is_digit s; r = dropWhile is_digit s
      in case r of
           c # r' \<Rightarrow>
             (if c = CHR ''.'' \<and> takeWhile is_digit r' \<noteq> []
              then Some (ds, takeWhile is_digit r', dropWhile is_digit r')
              else if ds \<noteq> [] then Some (ds, [], r) else None)
         | [] \<Rightarrow> if ds \<noteq> [] then Some (ds, [], r) else None)"

text \<open>The optional exponent \<^verbatim>\<open>[eE][-+]?\\d+\<close>; without digits it is left to the suffix.\<close>

definition scan_exponent :: "string \<Rightarrow> int \<times> string" where
  "scan_exponent s =
     (case s of
        e # r \<Rightarrow>
          if e = CHR ''e'' \<or> e = CHR ''E'' then
            (let neg = (r \<noteq> [] \<and> hd r = CHR ''-'');
                 r' = (if r \<noteq> [] \<and> (hd r = CHR ''-'' \<or> hd r = CHR ''+'') then tl r else r);
                 ds = takeWhile is_digit r'
             in if ds = [] then (0, s)
                else ((if neg then - int (undec ds) else int (undec ds)), dropWhile is_digit r'))
          else (0, s)
      | [] \<Rightarrow> (0, s))"

definition pow10 :: "int \<Rightarrow> rat" where
  "pow10 e = (if 0 \<le> e then 10 ^ nat e else 1 / 10 ^ nat (- e))"

text \<open>\<^verbatim>\<open>_QUANTITY_RE.match\<close>: the number it captures, as a rational, and the suffix.\<close>

definition quantity_match :: "string \<Rightarrow> (rat \<times> string) option" where
  "quantity_match v =
     (let s = dropWhile is_space v;
          s = (if s \<noteq> [] \<and> hd s = CHR ''+'' then tl s else s)
      in case scan_mantissa s of
           None \<Rightarrow> None
         | Some (ds, fs, r) \<Rightarrow>
             (let (e, r) = scan_exponent r;
                  r = dropWhile is_space r;
                  sfx = takeWhile is_alpha r;
                  r = dropWhile is_space (dropWhile is_alpha r)
              in if r = [] then Some (of_nat (undec (ds @ fs)) * pow10 (e - int (length fs)), sfx)
                 else None))"

text \<open>\<^verbatim>\<open>_QUANTITY_SUFFIXES\<close>: the multipliers, as the floats the code multiplies by.\<close>

definition quantity_suffixes :: "(string \<times> pyfloat) list" where
  "quantity_suffixes =
     [('''', Fin 1), (''m'', to_float (1 / 1000)),
      (''k'', Fin (10 ^ 3)), (''M'', Fin (10 ^ 6)), (''G'', Fin (10 ^ 9)),
      (''T'', Fin (10 ^ 12)), (''P'', Fin (10 ^ 15)), (''E'', Fin (10 ^ 18)),
      (''Ki'', Fin (2 ^ 10)), (''Mi'', Fin (2 ^ 20)), (''Gi'', Fin (2 ^ 30)),
      (''Ti'', Fin (2 ^ 40)), (''Pi'', Fin (2 ^ 50)), (''Ei'', Fin (2 ^ 60))]"

definition parse_quantity :: "string \<Rightarrow> exn + pyfloat" where
  "parse_quantity value =
     (case quantity_match value of
        None \<Rightarrow> Inl (SandboxConfigErr ''invalid resource quantity'')
      | Some (x, sfx) \<Rightarrow>
          (case map_of quantity_suffixes sfx of
             None \<Rightarrow> Inl (SandboxConfigErr ''invalid resource quantity'')
           | Some m \<Rightarrow> Inr (float_mult (to_float x) m)))"

section \<open>The configuration\<close>

record sandbox_config =
  namespace :: string
  kube_context :: "string option"
  image_ref :: string
  interpreter :: "string list"
  image_pull_policy :: string
  pool_size :: int
  min_pool_size :: "int option"
  max_uses :: int
  max_age_s :: rat
  default_timeout_s :: rat
  startup_timeout_s :: rat
  acquire_timeout_s :: "rat option"
  max_collect_bytes :: int
  max_upload_bytes :: int
  cpu_request :: string
  cpu_limit :: string
  memory_request :: string
  memory_limit :: string
  run_as_user :: int
  run_as_group :: int
  drop_all_capabilities :: bool
  read_only_root_filesystem :: bool
  automount_service_account_token :: bool
  seccomp_runtime_default :: bool
  scratch_dir :: string
  fresh_workdir_per_run :: bool
  runtime_class :: "string option"
  egress_proxy :: "string option"
  egress_proxy_label :: string
  manage_namespace :: bool
  manage_network_policy :: bool
  idle_shutdown_s :: "rat option"
  auto_cleanup :: bool
  reclaim_on_start :: bool
  app_label :: string

definition default_config :: sandbox_config where
  "default_config = \<lparr>
     namespace = ''sandbox'', kube_context = None,
     image_ref = ''python:3.13-slim'', interpreter = [''python'', ''-c''],
     image_pull_policy = ''IfNotPresent'',
     pool_size = 3, min_pool_size = None, max_uses = 25, max_age_s = 600,
     default_timeout_s = 30, startup_timeout_s = 90, acquire_timeout_s = None,
     max_collect_bytes = 32 * 1024 * 1024, max_upload_bytes = 32 * 1024 * 1024,
     cpu_request = ''100m'', cpu_limit = ''500m'',
     memory_request = ''64Mi'', memory_limit = ''256Mi'',
     run_as_user = 1000, run_as_group = 1000, drop_all_capabilities = True,
     read_only_root_filesystem = True, automount_service_account_token = False,
     seccomp_runtime_default = True, scratch_dir = ''/scratch'',
     fresh_workdir_per_run = True, runtime_class = None,
     egress_proxy = None, egress_proxy_label = ''egress-proxy'',
     manage_namespace = True, manage_network_policy = True,
     idle_shutdown_s = Some 1800, auto_cleanup = True, reclaim_on_start = False,
     app_label = ''vomero-sandbox''\<rparr>"

section \<open>Validation\<close>

definition overcommit_warn_ratio :: pyfloat where
  "overcommit_warn_ratio = Fin 8"

text \<open>One round of the loop of \<^verbatim>\<open>_check_resources\<close>: the value says whether it warns.\<close>

definition check_resource :: "string \<Rightarrow> string \<Rightarrow> exn + bool" where
  "check_resource req_s lim_s =
     (case parse_quantity req_s of
        Inl e \<Rightarrow> Inl e
      | Inr rq \<Rightarrow>
          (case parse_quantity lim_s of
             Inl e \<Rightarrow> Inl e
           | Inr lm \<Rightarrow>
               if rq \<le> Fin 0 \<or> lm \<le> Fin 0 then Inl (SandboxConfigErr ''request and limit must be > 0'')
               else if rq > lm then Inl (SandboxConfigErr ''request exceeds limit'')
               else Inr (lm > float_mult rq overcommit_warn_ratio)))"

text \<open>The kinds of resource for which a warning is emitted, in order.\<close>

definition check_resources :: "sandbox_config \<Rightarrow> exn + string list" where
  "check_resources c =
     (case check_resource (cpu_request c) (cpu_limit c) of
        Inl e \<Rightarrow> Inl e
      | Inr w1 \<Rightarrow>
          (case check_resource (memory_request c) (memory_limit c) of
             Inl e \<Rightarrow> Inl e
           | Inr w2 \<Rightarrow> Inr ((if w1 then [''cpu''] else []) @ (if w2 then [''memory''] else []))))"

definition validate :: "sandbox_config \<Rightarrow> exn + string list" where
  "validate c =
     (if pool_size c < 1 then Inl (SandboxConfigErr ''pool_size must be >= 1'')
      else if (case min_pool_size c of None \<Rightarrow> False | Some n \<Rightarrow> \<not> (1 \<le> n \<and> n \<le> pool_size c))
      then Inl (SandboxConfigErr ''min_pool_size must be between 1 and pool_size'')
      else if max_uses c < 1 then Inl (SandboxConfigErr ''max_uses must be >= 1'')
      else if default_timeout_s c \<le> 0 then Inl (SandboxConfigErr ''default_timeout_s must be > 0'')
      else if (case acquire_timeout_s c of None \<Rightarrow> False | Some t \<Rightarrow> t \<le> 0)
      then Inl (SandboxConfigErr ''acquire_timeout_s must be > 0 (or None to block)'')
      else if (case idle_shutdown_s c of None \<Rightarrow> False | Some t \<Rightarrow> t \<le> 0)
      then Inl (SandboxConfigErr ''idle_shutdown_s must be > 0 (or None to disable)'')
      else if interpreter c = [] then Inl (SandboxConfigErr ''interpreter must be a non-empty argv list'')
      else if read_only_root_filesystem c \<and> scratch_dir c = []
      then Inl (SandboxConfigErr ''read_only_root_filesystem requires a scratch_dir for the run to write to'')
      else check_resources c)"

section \<open>Scanning canonical quantities\<close>

lemma dec_all_digits: "list_all is_digit (dec n)"
  by (simp add: list_all_iff dec_digits)

lemma scan_digits:
  assumes "list_all is_digit ds" "r = [] \<or> \<not> is_digit (hd r)"
  shows "takeWhile is_digit (ds @ r) = ds" "dropWhile is_digit (ds @ r) = r"
  using assms by (cases r; auto simp: list_all_iff takeWhile_append dropWhile_append takeWhile_eq_all_conv)+

lemma digits_front:
  assumes "is_digit c"
  shows "\<not> is_space c" "c \<noteq> CHR ''+''" "\<not> is_alpha c"
proof -
  from assms have "48 \<le> (of_char c :: nat)" "(of_char c :: nat) \<le> 57" by (auto simp: is_digit_def)
  then show "\<not> is_space c" "c \<noteq> CHR ''+''" "\<not> is_alpha c"
    by (auto simp: is_space_def is_alpha_def Let_def)
qed

text \<open>The units whose multiplier is a power of two: bytes, and one.\<close>

definition binary_units :: "(string \<times> nat) list" where
  "binary_units = [('''', 0), (''Ki'', 10), (''Mi'', 20), (''Gi'', 30), (''Ti'', 40), (''Pi'', 50), (''Ei'', 60)]"

lemma binary_unit_suffix:
  "(u, k) \<in> set binary_units \<Longrightarrow> map_of quantity_suffixes u = Some (Fin (2 ^ k)) \<and> k \<le> 900"
  by (auto simp: binary_units_def quantity_suffixes_def)

lemma binary_unit_scan:
  assumes "(u, k) \<in> set binary_units"
  shows "u = [] \<or> \<not> is_digit (hd u)" "scan_exponent u = (0, u)" "dropWhile is_space u = u"
    "takeWhile is_alpha u = u" "dropWhile is_alpha u = []" "u = [] \<or> hd u \<noteq> CHR ''.''"
  using assms
  by (auto simp: binary_units_def is_digit_def scan_exponent_def is_space_def is_alpha_def Let_def)

lemma quantity_match_dec:
  assumes "(u, k) \<in> set binary_units"
  shows "quantity_match (dec n @ u) = Some (of_nat n, u)"
proof -
  note scan = scan_digits [OF dec_all_digits binary_unit_scan(1) [OF assms]]
  obtain c ds where d: "dec n = c # ds" by (cases "dec n") auto
  then have c: "is_digit c" using dec_digits [of c n] by simp
  have mant: "scan_mantissa (dec n @ u) = Some (dec n, [], u)"
    using binary_unit_scan(6) [OF assms]
    by (auto simp: scan_mantissa_def scan Let_def split: list.splits)
  have front: "dropWhile is_space (dec n @ u) = dec n @ u" "hd (dec n @ u) \<noteq> CHR ''+''"
    using digits_front [OF c] by (simp_all add: d)
  show ?thesis
    unfolding quantity_match_def Let_def front(1)
    using front(2) mant by (simp add: binary_unit_scan(2-5) [OF assms] pow10_def)
qed

lemma parse_quantity_binary:
  assumes "(u, k) \<in> set binary_units" "n < 2 ^ 53"
  shows "parse_quantity (dec n @ u) = Inr (Fin (of_nat (n * 2 ^ k)))"
  using quantity_match_dec [OF assms(1)] binary_unit_suffix [OF assms(1)]
    to_float_of_nat [OF assms(2)] float_mult_exact [OF assms(2), of k]
  by (simp add: parse_quantity_def)

section \<open>What validation guarantees\<close>

lemma milli_float: "to_float (1 / 1000) = Fin (1152921504606847 / 1152921504606846976)"
  by (subst to_float_eqI [where e = "-62" and m = 4611686018427388]) simp_all

lemmas scan_simps = quantity_match_def scan_mantissa_def scan_exponent_def is_space_def is_alpha_def
  is_digit_def Let_def undec_def digit_val_def pow10_def

lemma parse_milli_shape:
  assumes "quantity_match v = Some (x, ''m'')" "to_float x = Fin x"
    and "to_float (x * (1152921504606847 / 1152921504606846976)) = f"
  shows "parse_quantity v = Inr f"
  using assms by (simp add: parse_quantity_def quantity_suffixes_def milli_float)

lemma parse_100m: "parse_quantity ''100m'' = Inr (Fin (3602879701896397 / 36028797018963968))"
proof -
  have m: "quantity_match ''100m'' = Some (100, ''m'')" by (simp add: scan_simps)
  have f: "to_float (100 * (1152921504606847 / 1152921504606846976)) =
      Fin (3602879701896397 / 36028797018963968)"
    by (subst to_float_eqI [where e = "-56" and m = 7205759403792794]) simp_all
  show ?thesis using to_float_of_nat [of 100] by (intro parse_milli_shape [OF m _ f]) simp
qed

lemma parse_500m: "parse_quantity ''500m'' = Inr (Fin (1 / 2))"
proof -
  have m: "quantity_match ''500m'' = Some (500, ''m'')" by (simp add: scan_simps)
  have f: "to_float (500 * (1152921504606847 / 1152921504606846976)) = Fin (1 / 2)"
    by (subst to_float_eqI [where e = "-53" and m = 4503599627370496]) simp_all
  show ?thesis using to_float_of_nat [of 500] by (intro parse_milli_shape [OF m _ f]) simp
qed

lemma parse_700m: "parse_quantity ''700m'' = Inr (Fin (6305039478318695 / 9007199254740992))"
proof -
  have m: "quantity_match ''700m'' = Some (700, ''m'')" by (simp add: scan_simps)
  have f: "to_float (700 * (1152921504606847 / 1152921504606846976)) =
      Fin (6305039478318695 / 9007199254740992)"
    by (subst to_float_eqI [where e = "-53" and m = 6305039478318695]) simp_all
  show ?thesis using to_float_of_nat [of 700] by (intro parse_milli_shape [OF m _ f]) simp
qed

lemma parse_point7: "parse_quantity ''0.7'' = Inr (Fin (3152519739159347 / 4503599627370496))"
proof -
  have "quantity_match ''0.7'' = Some (7 / 10, [])" by (simp add: scan_simps)
  moreover have "to_float (7 / 10) = Fin (3152519739159347 / 4503599627370496)"
    by (subst to_float_eqI [where e = "-53" and m = 6305039478318694]) simp_all
  moreover have "to_float (3152519739159347 / 4503599627370496) = Fin (3152519739159347 / 4503599627370496)"
    by (subst to_float_eqI [where e = "-53" and m = 6305039478318694]) simp_all
  ultimately show ?thesis by (simp add: parse_quantity_def quantity_suffixes_def)
qed

lemma parse_Mi: "n < 2 ^ 53 \<Longrightarrow> parse_quantity (dec n @ ''Mi'') = Inr (Fin (of_nat (n * 2 ^ 20)))"
  by (rule parse_quantity_binary) (auto simp: binary_units_def)

lemma dec_64: "dec 64 = ''64''" and dec_256: "dec 256 = ''256''"
  by code_simp+

lemma default_resources: "check_resources default_config = Inr []"
  using parse_Mi [of 64] parse_Mi [of 256] to_float_exact [of 64 23]
    to_float_eqI [of "-53" "900719925474099250 / 1125899906842624000" 7205759403792794]
  by (simp add: check_resources_def check_resource_def default_config_def parse_100m parse_500m
      dec_64 dec_256 overcommit_warn_ratio_def to_float_eqI [where e = "-53" and m = 7205759403792794])

text \<open>
  An out-of-the-box configuration is valid and silent: \<^verbatim>\<open>SandboxConfig().validate()\<close>
  neither raises nor warns, in the float arithmetic the code uses.
\<close>

lemma default_config_valid: "validate default_config = Inr []"
  using default_resources by (simp add: validate_def default_config_def)

text \<open>
  On amounts written with a binary unit (or none) the resource check decides exactly, as if
  on integers: zero is refused, a request above its limit is refused, and the overcommit warning
  is given precisely above eight times the request. No rounding is involved.
\<close>

lemma check_resource_exact:
  assumes "(u, k) \<in> set binary_units" "(v, l) \<in> set binary_units" "a < 2 ^ 50" "b < 2 ^ 53"
  shows "check_resource (dec a @ u) (dec b @ v) =
    (if a = 0 \<or> b = 0 then Inl (SandboxConfigErr ''request and limit must be > 0'')
     else if a * 2 ^ k > b * 2 ^ l then Inl (SandboxConfigErr ''request exceeds limit'')
     else Inr (b * 2 ^ l > 8 * (a * 2 ^ k)))"
proof -
  have a: "parse_quantity (dec a @ u) = Inr (Fin (of_nat (a * 2 ^ k)))"
    using assms(1,3) by (intro parse_quantity_binary) auto
  have b: "parse_quantity (dec b @ v) = Inr (Fin (of_nat (b * 2 ^ l)))"
    using assms(2,4) by (intro parse_quantity_binary)
  have "float_mult (Fin (of_nat (a * 2 ^ k))) overcommit_warn_ratio = to_float (of_nat (8 * a * 2 ^ k))"
    by (simp add: overcommit_warn_ratio_def mult.commute mult.left_commute)
  also have "\<dots> = Fin (of_nat (8 * a * 2 ^ k))"
    using assms(3) binary_unit_suffix [OF assms(1)] by (intro to_float_exact) auto
  finally have w: "float_mult (Fin (of_nat (a * 2 ^ k))) overcommit_warn_ratio = Fin (of_nat (8 * a * 2 ^ k))" .
  have zero: "Fin (of_nat m) \<le> Fin 0 \<longleftrightarrow> m = 0" for m by simp
  have less: "Fin (of_nat m) < Fin (of_nat n) \<longleftrightarrow> m < n" for m n
    by (simp only: less_pyfloat_simps of_nat_less_iff)
  show ?thesis
    unfolding check_resource_def a b sum.case w zero less by (simp add: mult.assoc)
qed

text \<open>
  The comparison is made on rounded products, so two spellings of one amount can differ: a
  request of 700m is refused against the equal limit 0.7 (700 times the float 1e-3 rounds up).
\<close>

lemma equal_cpu_spelling_refused:
  "check_resource ''700m'' ''0.7'' = Inl (SandboxConfigErr ''request exceeds limit'')"
  by (simp add: check_resource_def parse_700m parse_point7)

text \<open>
  What a configuration that passes \<^verbatim>\<open>validate\<close> guarantees to the pool: a positive size, a
  floor between one and the size, a positive number of uses, positive time limits, a command to run,
  and requests that parse, are positive and do not exceed their limits.
\<close>

lemma validate_guarantees:
  assumes "validate c = Inr ws"
  shows "1 \<le> pool_size c \<and> (\<forall>n. min_pool_size c = Some n \<longrightarrow> 1 \<le> n \<and> n \<le> pool_size c) \<and>
    1 \<le> max_uses c \<and> 0 < default_timeout_s c \<and>
    (\<forall>t. acquire_timeout_s c = Some t \<longrightarrow> 0 < t) \<and> (\<forall>t. idle_shutdown_s c = Some t \<longrightarrow> 0 < t) \<and>
    interpreter c \<noteq> [] \<and> (read_only_root_filesystem c \<longrightarrow> scratch_dir c \<noteq> []) \<and>
    (\<exists>rq lm. parse_quantity (cpu_request c) = Inr rq \<and> parse_quantity (cpu_limit c) = Inr lm \<and>
       Fin 0 < rq \<and> rq \<le> lm) \<and>
    (\<exists>rq lm. parse_quantity (memory_request c) = Inr rq \<and> parse_quantity (memory_limit c) = Inr lm \<and>
       Fin 0 < rq \<and> rq \<le> lm)"
proof -
  have chk: "\<exists>rq lm. parse_quantity r = Inr rq \<and> parse_quantity l = Inr lm \<and> Fin 0 < rq \<and> rq \<le> lm"
    if "check_resource r l = Inr w" for r l w
    using that by (auto simp: check_resource_def not_le not_less split: sum.splits if_splits)
  from assms have cr: "check_resources c = Inr ws"
    by (auto simp: validate_def split: if_splits)
  then obtain w1 w2 where w: "check_resource (cpu_request c) (cpu_limit c) = Inr w1"
      "check_resource (memory_request c) (memory_limit c) = Inr w2"
    by (auto simp: check_resources_def split: sum.splits)
  show ?thesis
    using assms chk [OF w(1)] chk [OF w(2)]
    by (auto simp: validate_def split: if_splits option.splits)
qed

lemma validate_guarantees_example:
  "1 \<le> pool_size default_config \<and> 1 \<le> max_uses default_config"
  using validate_guarantees [of default_config "[]"] default_resources
  by (simp add: validate_def default_config_def)

lemma check_resource_exact_example:
  "check_resource (dec 64 @ ''Mi'') (dec 1 @ ''Gi'') = Inr True"
  by (subst check_resource_exact [where k = 20 and l = 30]) (simp_all add: binary_units_def)

end
