(* ===== verification/Base64.thy ===== *)
theory Base64
  imports Prelude
begin

text \<open>
  \<^verbatim>\<open>base64.b64encode\<close> and the lenient \<^verbatim>\<open>base64.b64decode\<close> of the standard library, as the
  library uses them to carry file contents through JSON: the decoder is the quad automaton of
  \<^verbatim>\<open>binascii.a2b_base64\<close> (foreign characters are skipped, a full padding ends the input).
\<close>

definition b64_alphabet :: string where
  "b64_alphabet = ''ABCDEFGHIJKLMNOPQRSTUVWXYZabcdefghijklmnopqrstuvwxyz0123456789+/''"

definition b64_char :: "nat \<Rightarrow> char" where
  "b64_char n = b64_alphabet ! n"

definition b64_val :: "char \<Rightarrow> nat option" where
  "b64_val c =
     (let n = of_char c :: nat
      in if 65 \<le> n \<and> n \<le> 90 then Some (n - 65)
         else if 97 \<le> n \<and> n \<le> 122 then Some (n - 71)
         else if 48 \<le> n \<and> n \<le> 57 then Some (n + 4)
         else if n = 43 then Some 62
         else if n = 47 then Some 63
         else None)"

fun b64encode :: "byte list \<Rightarrow> string" where
  "b64encode [] = []"
| "b64encode [a] =
     [b64_char (unat a div 4), b64_char (unat a mod 4 * 16), CHR ''='', CHR ''='']"
| "b64encode [a, b] =
     [b64_char (unat a div 4), b64_char (unat a mod 4 * 16 + unat b div 16),
      b64_char (unat b mod 16 * 4), CHR ''='']"
| "b64encode (a # b # c # r) =
     [b64_char (unat a div 4), b64_char (unat a mod 4 * 16 + unat b div 16),
      b64_char (unat b mod 16 * 4 + unat c div 64), b64_char (unat c mod 64)] @ b64encode r"

text \<open>The automaton: position in the quad, bits left over, padding seen.\<close>

fun a2b :: "nat \<Rightarrow> nat \<Rightarrow> nat \<Rightarrow> string \<Rightarrow> byte list option" where
  "a2b q l p [] = (if q = 0 then Some [] else None)"
| "a2b q l p (c # cs) =
     (if c = CHR ''='' then
        (if 2 \<le> q \<and> 4 \<le> q + Suc p then Some [] else a2b q l (if 2 \<le> q then Suc p else p) cs)
      else
        (case b64_val c of
           None \<Rightarrow> a2b q l p cs
         | Some v \<Rightarrow>
             if q = 0 then a2b 1 v 0 cs
             else if q = 1 then map_option (Cons (word_of_nat (l * 4 + v div 16))) (a2b 2 (v mod 16) 0 cs)
             else if q = 2 then map_option (Cons (word_of_nat (l * 16 + v div 4))) (a2b 3 (v mod 4) 0 cs)
             else map_option (Cons (word_of_nat (l * 64 + v))) (a2b 0 0 0 cs)))"

text \<open>\<open>None\<close> is \<^verbatim>\<open>binascii.Error\<close> or the error for a non-ASCII character, both a \<^verbatim>\<open>ValueError\<close>.\<close>

definition b64decode :: "string \<Rightarrow> byte list option" where
  "b64decode s = (if list_all (\<lambda>c. (of_char c :: nat) < 128) s then a2b 0 0 0 s else None)"

section \<open>Round trip\<close>

lemma b64_val_alphabet: "map b64_val b64_alphabet = map Some [0..<64]"
  by code_simp

lemma b64_char_inverse:
  assumes "n < 64"
  shows "b64_val (b64_char n) = Some n" "b64_char n \<noteq> CHR ''=''" "b64_char n \<in> set b64_alphabet"
proof -
  have len: "length b64_alphabet = 64" by (simp add: b64_alphabet_def)
  with assms show mem: "b64_char n \<in> set b64_alphabet" by (simp add: b64_char_def)
  have "CHR ''='' \<notin> set b64_alphabet" by (simp add: b64_alphabet_def)
  with mem show "b64_char n \<noteq> CHR ''=''" by metis
  have "map b64_val b64_alphabet ! n = Some n" using assms by (simp add: b64_val_alphabet)
  with len assms show "b64_val (b64_char n) = Some n" by (simp add: b64_char_def)
qed

lemma a2b_pad: "2 \<le> q \<Longrightarrow> a2b q l p (CHR ''='' # cs) = (if 4 \<le> q + Suc p then Some [] else a2b q l (Suc p) cs)"
  by simp

lemma a2b_char:
  assumes "v < 64"
  shows "a2b q l p (b64_char v # cs) =
    (if q = 0 then a2b 1 v 0 cs
     else if q = 1 then map_option (Cons (word_of_nat (l * 4 + v div 16))) (a2b 2 (v mod 16) 0 cs)
     else if q = 2 then map_option (Cons (word_of_nat (l * 16 + v div 4))) (a2b 3 (v mod 4) 0 cs)
     else map_option (Cons (word_of_nat (l * 64 + v))) (a2b 0 0 0 cs))"
  using b64_char_inverse [OF assms] by simp

lemmas a2b_run = a2b.simps(1) a2b_pad a2b_char

lemma byte_bound [simp]: "unat (a :: byte) < 256"
  using unsigned_less [of a] by simp

lemma quot_rem: "r < m \<Longrightarrow> (k * m + r) div m = (k::nat)" "r < m \<Longrightarrow> (k * m + r) mod m = (r::nat)"
  by simp_all

lemma byte_quot [simp]:
  fixes a :: byte
  shows "unat a div 4 < 64" "unat a div 16 < 16" "unat a div 64 < 4"
  using byte_bound [of a] by (simp_all add: less_mult_imp_div_less)

lemma byte_mod [simp]:
  fixes a :: byte
  shows "unat a mod 4 < 4" "unat a mod 16 < 16" "unat a mod 64 < 64"
  by simp_all

lemma sextet_bounds:
  fixes a b :: byte
  shows "unat a mod 4 * 16 < 64" "unat a mod 4 * 16 + unat b div 16 < 64"
    "unat b mod 16 * 4 < 64" "unat b mod 16 * 4 + unat a div 64 < 64"
  using byte_mod [of a] byte_mod [of b] byte_quot [of a] byte_quot [of b] by linarith+

lemma byte_reassemble:
  fixes a b c :: byte
  shows "unat a div 4 * 4 + (unat a mod 4 * 16) div 16 = unat a"
    "unat a div 4 * 4 + (unat a mod 4 * 16 + unat b div 16) div 16 = unat a"
    "(unat a mod 4 * 16 + unat b div 16) mod 16 * 16 + (unat b mod 16 * 4) div 4 = unat b"
    "(unat a mod 4 * 16 + unat b div 16) mod 16 * 16 + (unat b mod 16 * 4 + unat c div 64) div 4 = unat b"
    "(unat b mod 16 * 4 + unat c div 64) mod 4 * 64 + unat c mod 64 = unat c"
  by (simp_all only: quot_rem byte_quot div_mult_mod_eq nonzero_mult_div_cancel_right zero_neq_numeral not_False_eq_True)

lemma a2b_b64encode: "a2b 0 l p (b64encode bs) = Some bs"
proof (induction bs arbitrary: l p rule: b64encode.induct)
  case (4 a b c r)
  then show ?case by (simp add: a2b_run sextet_bounds byte_reassemble del: a2b.simps)
qed (simp_all add: a2b_run sextet_bounds byte_reassemble del: a2b.simps(2))

lemma b64encode_chars: "c \<in> set (b64encode bs) \<Longrightarrow> c \<in> set b64_alphabet \<or> c = CHR ''=''"
proof (induction bs rule: b64encode.induct)
  case (4 a b c r)
  then show ?case using b64_char_inverse(3) sextet_bounds by auto
qed (use b64_char_inverse(3) sextet_bounds in auto)

lemma b64encode_ascii: "list_all (\<lambda>c. (of_char c :: nat) < 128) (b64encode bs)"
proof -
  have "\<forall>c \<in> set (CHR ''='' # b64_alphabet). (of_char c :: nat) < 128" by code_simp
  then show ?thesis using b64encode_chars by (fastforce simp: list_all_iff)
qed

interpretation b64: codec b64encode b64decode "\<lambda>_. True"
  by unfold_locales (simp add: b64decode_def b64encode_ascii a2b_b64encode)

end
