(* ===== verification/Json.thy ===== *)
theory Json
  imports Config
begin

text \<open>
  \<^verbatim>\<open>json.dumps\<close> (default separators, ASCII output) and \<^verbatim>\<open>json.loads\<close> of the standard
  library, on the values the code exchanges with its workers. The parser follows the scanner
  of the library (white space, escapes, the number grammar, \<^verbatim>\<open>NaN\<close> and the infinities,
  the last of equal keys wins); it is driven by fuel, and twice as much fuel as there are characters is
  always enough. An escape of a code point above 255 is outside the model's strings
  and is not accepted.
\<close>

datatype json =
    JNull
  | JBool bool
  | JInt int
  | JFloat bool pyfloat  \<comment> \<open>sign and magnitude\<close>
  | JNaN
  | JStr string
  | JArr "json list"
  | JObj "(string \<times> json) list"

section \<open>Printing\<close>

definition hex_char :: "nat \<Rightarrow> char" where
  "hex_char n = (if n < 10 then char_of (48 + n) else char_of (87 + n))"

definition esc_char :: "char \<Rightarrow> string" where
  "esc_char c =
     (let n = of_char c :: nat
      in if c = CHR 0x22 then [CHR 0x5C, CHR 0x22]
         else if c = CHR 0x5C then [CHR 0x5C, CHR 0x5C]
         else if n = 10 then [CHR 0x5C, CHR ''n'']
         else if n = 13 then [CHR 0x5C, CHR ''r'']
         else if n = 9 then [CHR 0x5C, CHR ''t'']
         else if n = 12 then [CHR 0x5C, CHR ''f'']
         else if n = 8 then [CHR 0x5C, CHR ''b'']
         else if 32 \<le> n \<and> n \<le> 126 then [c]
         else [CHR 0x5C, CHR ''u'', CHR ''0'', CHR ''0'', hex_char (n div 16), hex_char (n mod 16)])"

definition json_str :: "string \<Rightarrow> string" where
  "json_str s = CHR 0x22 # concat (map esc_char s) @ [CHR 0x22]"

definition json_int :: "int \<Rightarrow> string" where
  "json_int i = (if i < 0 then CHR ''-'' # dec (nat (- i)) else dec (nat i))"

text \<open>No floats are ever printed by the library; there are no equations for them.\<close>

fun json_dumps :: "json \<Rightarrow> string"
  and dump_elems :: "json list \<Rightarrow> string"
  and dump_pairs :: "(string \<times> json) list \<Rightarrow> string"
where
  "json_dumps JNull = ''null''"
| "json_dumps (JBool b) = (if b then ''true'' else ''false'')"
| "json_dumps (JInt i) = json_int i"
| "json_dumps (JStr s) = json_str s"
| "json_dumps (JArr xs) = ''['' @ dump_elems xs @ '']''"
| "json_dumps (JObj ps) = ''{'' @ dump_pairs ps @ ''}''"
| "dump_elems [] = []"
| "dump_elems [x] = json_dumps x"
| "dump_elems (x # y # xs) = json_dumps x @ '', '' @ dump_elems (y # xs)"
| "dump_pairs [] = []"
| "dump_pairs [(k, v)] = json_str k @ '': '' @ json_dumps v"
| "dump_pairs ((k, v) # p # ps) = json_str k @ '': '' @ json_dumps v @ '', '' @ dump_pairs (p # ps)"

section \<open>Parsing\<close>

definition json_space :: "char \<Rightarrow> bool" where
  "json_space c \<longleftrightarrow> of_char c \<in> {32, 9, 10, 13::nat}"

definition skip_ws :: "string \<Rightarrow> string" where
  "skip_ws s = dropWhile json_space s"

definition hex_val :: "char \<Rightarrow> nat option" where
  "hex_val c =
     (let n = of_char c :: nat
      in if 48 \<le> n \<and> n \<le> 57 then Some (n - 48)
         else if 97 \<le> n \<and> n \<le> 102 then Some (n - 87)
         else if 65 \<le> n \<and> n \<le> 70 then Some (n - 55)
         else None)"

definition hex4 :: "char \<Rightarrow> char \<Rightarrow> char \<Rightarrow> char \<Rightarrow> nat option" where
  "hex4 a b c d =
     (case (hex_val a, hex_val b, hex_val c, hex_val d) of
        (Some w, Some x, Some y, Some z) \<Rightarrow> Some (((w * 16 + x) * 16 + y) * 16 + z)
      | _ \<Rightarrow> None)"

definition unescape :: "char \<Rightarrow> char option" where
  "unescape e =
     map_of [(CHR 0x22, CHR 0x22), (CHR 0x5C, CHR 0x5C), (CHR ''/'', CHR ''/''),
       (CHR ''b'', CHR 0x08), (CHR ''f'', CHR 0x0C), (CHR ''n'', CHR 0x0A),
       (CHR ''r'', CHR 0x0D), (CHR ''t'', CHR 0x09)] e"

text \<open>The rest of a string after its opening quote; control characters are refused.\<close>

fun p_str :: "string \<Rightarrow> (string \<times> string) option" where
  "p_str [] = None"
| "p_str (c # cs) =
     (if c = CHR 0x22 then Some ([], cs)
      else if c = CHR 0x5C then
        (case cs of
           [] \<Rightarrow> None
         | e # r \<Rightarrow>
             if e = CHR ''u'' then
               (case r of
                  h1 # h2 # h3 # h4 # r' \<Rightarrow>
                    (case hex4 h1 h2 h3 h4 of
                       Some n \<Rightarrow> if n < 256 then map_option (apfst (Cons (char_of n))) (p_str r') else None
                     | None \<Rightarrow> None)
                | _ \<Rightarrow> None)
             else (case unescape e of
                     Some x \<Rightarrow> map_option (apfst (Cons x)) (p_str r)
                   | None \<Rightarrow> None))
      else if (of_char c :: nat) < 32 then None
      else map_option (apfst (Cons c)) (p_str cs))"

text \<open>A number: an integer without fraction and exponent, a float otherwise.\<close>

definition num_int :: "string \<Rightarrow> string \<times> string" where
  "num_int s =
     (if s \<noteq> [] \<and> hd s = CHR ''0'' then (''0'', tl s) else (takeWhile is_digit s, dropWhile is_digit s))"

definition num_frac :: "string \<Rightarrow> string \<times> string" where
  "num_frac s =
     (if s \<noteq> [] \<and> hd s = CHR ''.'' \<and> takeWhile is_digit (tl s) \<noteq> []
      then (takeWhile is_digit (tl s), dropWhile is_digit (tl s)) else ([], s))"

definition p_num :: "string \<Rightarrow> (json \<times> string) option" where
  "p_num s =
     (let neg = (s \<noteq> [] \<and> hd s = CHR ''-'');
          (ds, r) = num_int (if neg then tl s else s)
      in if ds = [] then
           (if neg \<and> prefix ''Infinity'' r then Some (JFloat True FInf, drop 8 r) else None)
         else
           (let (fs, r) = num_frac r; (e, r') = scan_exponent r
            in if fs = [] \<and> r' = r
               then Some (JInt (if neg then - int (undec ds) else int (undec ds)), r)
               else Some (JFloat neg (to_float (of_nat (undec (ds @ fs)) * pow10 (e - int (length fs)))), r')))"

fun p_val :: "nat \<Rightarrow> string \<Rightarrow> (json \<times> string) option"
  and p_elems :: "nat \<Rightarrow> string \<Rightarrow> (json list \<times> string) option"
  and p_pairs :: "nat \<Rightarrow> string \<Rightarrow> ((string \<times> json) list \<times> string) option"
where
  "p_val 0 s = None"
| "p_val (Suc n) s =
     (case s of
        [] \<Rightarrow> None
      | c # r \<Rightarrow>
          if c = CHR 0x22 then map_option (apfst JStr) (p_str r)
          else if c = CHR ''{'' then
            (if skip_ws r \<noteq> [] \<and> hd (skip_ws r) = CHR ''}'' then Some (JObj [], tl (skip_ws r))
             else map_option (apfst (\<lambda>ps. JObj (dict_of ps))) (p_pairs n (skip_ws r)))
          else if c = CHR ''['' then
            (if skip_ws r \<noteq> [] \<and> hd (skip_ws r) = CHR '']'' then Some (JArr [], tl (skip_ws r))
             else map_option (apfst JArr) (p_elems n (skip_ws r)))
          else if prefix ''null'' s then Some (JNull, drop 4 s)
          else if prefix ''true'' s then Some (JBool True, drop 4 s)
          else if prefix ''false'' s then Some (JBool False, drop 5 s)
          else if prefix ''NaN'' s then Some (JNaN, drop 3 s)
          else if prefix ''Infinity'' s then Some (JFloat False FInf, drop 8 s)
          else p_num s)"
| "p_elems 0 s = None"
| "p_elems (Suc n) s =
     (case p_val n s of
        None \<Rightarrow> None
      | Some (v, u) \<Rightarrow>
          (case skip_ws u of
             [] \<Rightarrow> None
           | e # u' \<Rightarrow>
               if e = CHR '']'' then Some ([v], u')
               else if e = CHR '','' then map_option (apfst (Cons v)) (p_elems n (skip_ws u'))
               else None))"
| "p_pairs 0 s = None"
| "p_pairs (Suc n) s =
     (case s of
        [] \<Rightarrow> None
      | c # r \<Rightarrow>
          if c \<noteq> CHR 0x22 then None
          else (case p_str r of
             None \<Rightarrow> None
           | Some (k, t) \<Rightarrow>
               (case skip_ws t of
                  [] \<Rightarrow> None
                | d # t' \<Rightarrow>
                    if d \<noteq> CHR '':'' then None
                    else (case p_val n (skip_ws t') of
                       None \<Rightarrow> None
                     | Some (v, u) \<Rightarrow>
                         (case skip_ws u of
                            [] \<Rightarrow> None
                          | e # u' \<Rightarrow>
                              if e = CHR ''}'' then Some ([(k, v)], u')
                              else if e = CHR '','' then map_option (apfst (Cons (k, v))) (p_pairs n (skip_ws u'))
                              else None)))))"

text \<open>\<open>None\<close> is \<^verbatim>\<open>json.JSONDecodeError\<close>, a \<^verbatim>\<open>ValueError\<close>.\<close>

definition json_loads :: "string \<Rightarrow> json option" where
  "json_loads s =
     (case p_val (Suc (2 * length s)) (skip_ws s) of
        Some (j, r) \<Rightarrow> if skip_ws r = [] then Some j else None
      | None \<Rightarrow> None)"

section \<open>Round trip\<close>

fun printable :: "json \<Rightarrow> bool" where
  "printable (JFloat _ _) = False"
| "printable JNaN = False"
| "printable (JArr xs) = list_all printable xs"
| "printable (JObj ps) = (dict_ok ps \<and> list_all (\<lambda>p. printable (snd p)) ps)"
| "printable _ = True"

text \<open>What may follow a number without being read as part of it.\<close>

definition num_end :: "string \<Rightarrow> bool" where
  "num_end r \<longleftrightarrow> r = [] \<or> \<not> is_digit (hd r) \<and> hd r \<notin> set ''.eE''"

lemma hex_val_hex_char: "d < 16 \<Longrightarrow> hex_val (hex_char d) = Some d"
  by (auto simp: hex_val_def hex_char_def Let_def)

lemma hex_val_0: "hex_val (CHR ''0'') = Some 0"
  by (simp add: hex_val_def)

lemma hex4_byte:
  assumes "n < 256"
  shows "hex4 (CHR ''0'') (CHR ''0'') (hex_char (n div 16)) (hex_char (n mod 16)) = Some n"
proof -
  have "n div 16 < 16" using assms by (simp add: less_mult_imp_div_less)
  then show ?thesis by (simp add: hex4_def hex_val_hex_char hex_val_0)
qed

lemma of_char_eqD: "(of_char c :: nat) = n \<Longrightarrow> c = char_of n"
  by auto

lemma unescape_simps:
  "unescape (CHR 0x22) = Some (CHR 0x22)" "unescape (CHR 0x5C) = Some (CHR 0x5C)"
  "unescape (CHR ''n'') = Some (CHR 0x0A)" "unescape (CHR ''r'') = Some (CHR 0x0D)"
  "unescape (CHR ''t'') = Some (CHR 0x09)" "unescape (CHR ''f'') = Some (CHR 0x0C)"
  "unescape (CHR ''b'') = Some (CHR 0x08)"
  by (simp_all add: unescape_def)

lemma p_str_escape:
  "unescape e = Some x \<Longrightarrow> e \<noteq> CHR ''u'' \<Longrightarrow>
     p_str (CHR 0x5C # e # r) = map_option (apfst (Cons x)) (p_str r)"
  by simp

lemma p_str_hex:
  "n < 256 \<Longrightarrow> p_str (CHR 0x5C # CHR ''u'' # CHR ''0'' # CHR ''0'' # hex_char (n div 16) # hex_char (n mod 16) # r) =
     map_option (apfst (Cons (char_of n))) (p_str r)"
  using hex4_byte [of n] by simp

lemma p_str_plain:
  "c \<noteq> CHR 0x22 \<Longrightarrow> c \<noteq> CHR 0x5C \<Longrightarrow> 32 \<le> (of_char c :: nat) \<Longrightarrow>
     p_str (c # r) = map_option (apfst (Cons c)) (p_str r)"
  by simp

lemma ctrl_chars:
  "char_of (10::nat) = CHR 0x0A" "char_of (13::nat) = CHR 0x0D" "char_of (9::nat) = CHR 0x09"
  "char_of (12::nat) = CHR 0x0C" "char_of (8::nat) = CHR 0x08"
  by code_simp+

lemma p_str_esc_char: "p_str (esc_char c @ r) = map_option (apfst (Cons c)) (p_str r)"
proof -
  define n where "n = (of_char c :: nat)"
  have n: "n < 256" by (simp add: n_def)
  have c: "c = char_of n" by (simp add: n_def)
  consider "c = CHR 0x22" | "c = CHR 0x5C" | "n = 10" | "n = 13" | "n = 9" | "n = 12" | "n = 8"
    | "c \<noteq> CHR 0x22" "c \<noteq> CHR 0x5C" "32 \<le> n" "n \<le> 126"
    | "c \<noteq> CHR 0x22" "c \<noteq> CHR 0x5C" "n \<notin> {10, 13, 9, 12, 8}" "\<not> (32 \<le> n \<and> n \<le> 126)"
    by blast
  then show ?thesis
  proof cases
    case 1 then show ?thesis by (simp add: esc_char_def p_str_escape unescape_simps del: p_str.simps)
  next
    case 2 then show ?thesis by (simp add: esc_char_def p_str_escape unescape_simps del: p_str.simps)
  next
    case 3
    with c show ?thesis by (simp add: esc_char_def p_str_escape unescape_simps ctrl_chars del: p_str.simps)
  next
    case 4
    with c show ?thesis by (simp add: esc_char_def p_str_escape unescape_simps ctrl_chars del: p_str.simps)
  next
    case 5
    with c show ?thesis by (simp add: esc_char_def p_str_escape unescape_simps ctrl_chars del: p_str.simps)
  next
    case 6
    with c show ?thesis by (simp add: esc_char_def p_str_escape unescape_simps ctrl_chars del: p_str.simps)
  next
    case 7
    with c show ?thesis by (simp add: esc_char_def p_str_escape unescape_simps ctrl_chars del: p_str.simps)
  next
    case 8
    then have "esc_char c = [c]" by (simp add: esc_char_def Let_def flip: n_def)
    with 8 show ?thesis by (simp add: p_str_plain n_def del: p_str.simps)
  next
    case 9
    then have "esc_char c = [CHR 0x5C, CHR ''u'', CHR ''0'', CHR ''0'', hex_char (n div 16), hex_char (n mod 16)]"
      by (simp add: esc_char_def Let_def flip: n_def)
    then show ?thesis by (simp add: p_str_hex [OF n] c del: p_str.simps)
  qed
qed

lemma p_str_body: "p_str (concat (map esc_char s) @ CHR 0x22 # r) = Some (s, r)"
  by (induction s) (simp_all add: p_str_esc_char del: p_str.simps(2), simp)

lemma digit_char_not:
  assumes "is_digit c"
  shows "c \<noteq> CHR ''-''" "c \<noteq> CHR 0x22" "c \<noteq> CHR ''{''" "c \<noteq> CHR ''[''" "c \<noteq> CHR ''n''"
    "c \<noteq> CHR ''t''" "c \<noteq> CHR ''f''" "c \<noteq> CHR ''N''" "c \<noteq> CHR ''I''" "\<not> json_space c"
  using assms by (auto simp: is_digit_def json_space_def)

lemma dec_Cons:
  obtains c ds where "dec n = c # ds" "is_digit c"
  using dec_digits [of "hd (dec n)" n] by (cases "dec n") auto

lemma dec_zero: "dec n = ''0'' \<longleftrightarrow> n = 0"
proof
  assume "dec n = ''0''"
  then have "undec (dec n) = undec ''0''" by (rule arg_cong)
  moreover have "undec ''0'' = 0" by (simp add: undec_def digit_val_def)
  ultimately show "n = 0" by simp
qed (simp add: dec.simps)

lemma hd_dec_zero: "hd (dec n) = CHR ''0'' \<Longrightarrow> dec n = ''0''"
proof (induction n rule: dec.induct)
  case (1 n)
  show ?case
  proof (cases "n < 10")
    case True
    then have "dec n = [digit_char n]" by (subst dec.simps) simp
    moreover from True this "1.prems" have "digit_val (digit_char n) = 0"
      by (simp add: digit_val_def)
    ultimately show ?thesis using True by simp
  next
    case False
    then have d: "dec n = dec (n div 10) @ [digit_char (n mod 10)]" by (subst dec.simps) simp
    with "1.prems" have "dec (n div 10) = ''0''" using "1.IH" False by simp
    then have "n div 10 = 0" by (simp add: dec_zero)
    with False show ?thesis by simp
  qed
qed

lemma scan_exponent_end: "num_end r \<Longrightarrow> scan_exponent r = (0, r)"
  by (cases r) (auto simp: scan_exponent_def num_end_def)

lemma p_num_unsigned:
  assumes "num_end r"
  shows "p_num (dec n @ r) = Some (JInt (int n), r)"
proof -
  obtain c ds where d: "dec n = c # ds" and c: "is_digit c" by (rule dec_Cons)
  have r: "r = [] \<or> \<not> is_digit (hd r)" "r = [] \<or> hd r \<noteq> CHR ''.''"
    using assms by (auto simp: num_end_def)
  note scan = scan_digits [OF dec_all_digits r(1), of n]
  show ?thesis
  proof (cases "c = CHR ''0''")
    case True
    with d hd_dec_zero [of n] have z: "dec n = ''0''" by simp
    then have "n = 0" by (simp add: dec_zero)
    with z r(2) show ?thesis
      by (auto simp: p_num_def num_int_def num_frac_def Let_def scan_exponent_end [OF assms] undec_def digit_val_def)
  next
    case False
    have "hd (dec n @ r) = c" by (simp add: d)
    moreover have "undec (dec n) = n" by simp
    ultimately show ?thesis
      using False digit_char_not(1) [OF c] r(2)
      by (auto simp: p_num_def num_int_def num_frac_def Let_def scan scan_exponent_end [OF assms])
  qed
qed

lemma p_num_json_int: "num_end r \<Longrightarrow> p_num (json_int i @ r) = Some (JInt i, r)"
proof (cases "i < 0")
  case True
  assume r: "num_end r"
  define n where "n = nat (- i)"
  have "p_num (CHR ''-'' # dec n @ r) = map_option (apfst (\<lambda>j. JInt (- int n))) (p_num (dec n @ r))"
  proof -
    obtain c ds where d: "dec n = c # ds" and c: "is_digit c" by (rule dec_Cons)
    have rr: "r = [] \<or> \<not> is_digit (hd r)" "r = [] \<or> hd r \<noteq> CHR ''.''"
      using r by (auto simp: num_end_def)
    note scan = scan_digits [OF dec_all_digits rr(1), of n]
    have "n \<noteq> 0" using True by (simp add: n_def)
    then have c0: "c \<noteq> CHR ''0''"
      using d hd_dec_zero [of n]
      by (auto simp: dec_zero)
    have "hd (dec n @ r) = c" by (simp add: d)
    moreover have "undec (dec n) = n" by simp
    ultimately show ?thesis
      using c0 rr(2) p_num_unsigned [OF r, of n]
      by (auto simp: p_num_def num_int_def num_frac_def Let_def scan scan_exponent_end [OF r])
  qed
  with True p_num_unsigned [OF r, of n] show ?thesis by (simp add: json_int_def n_def)
next
  case False
  assume "num_end r"
  with False show ?thesis by (simp add: json_int_def p_num_unsigned)
qed

text \<open>The first character of a printed value selects its branch of the parser.\<close>

lemma not_space_simps [simp]:
  "\<not> json_space (CHR 0x22)" "\<not> json_space (CHR ''{'')" "\<not> json_space (CHR ''['')" "\<not> json_space (CHR ''}'')"
  "\<not> json_space (CHR '']'')" "\<not> json_space (CHR '','')" "\<not> json_space (CHR '':'')" "\<not> json_space (CHR ''-'')"
  "\<not> json_space (CHR ''n'')" "\<not> json_space (CHR ''t'')" "\<not> json_space (CHR ''f'')" "json_space (CHR '' '')"
  by (simp_all add: json_space_def)

lemma skip_ws_simps [simp]:
  "skip_ws [] = []" "\<not> json_space c \<Longrightarrow> skip_ws (c # r) = c # r" "json_space c \<Longrightarrow> skip_ws (c # r) = skip_ws r"
  by (simp_all add: skip_ws_def)

lemma json_int_Cons:
  obtains c ds where "json_int i = c # ds" "is_digit c \<or> c = CHR ''-''"
  by (metis dec_Cons json_int_def)

lemma json_dumps_Cons:
  assumes "printable j"
  obtains c ds where "json_dumps j = c # ds" "\<not> json_space c" "c \<noteq> CHR '']''" "c \<noteq> CHR ''}''"
proof (cases j)
  case (JInt i)
  obtain c ds where c: "json_int i = c # ds" "is_digit c \<or> c = CHR ''-''" by (rule json_int_Cons)
  then have "\<not> json_space c" "c \<noteq> CHR '']''" "c \<noteq> CHR ''}''"
    using digit_char_not(10) [of c] by (auto simp: is_digit_def)
  with c that JInt show ?thesis by simp
next
  case (JBool b)
  then show ?thesis using that [of "CHR ''t''" "''rue''"] that [of "CHR ''f''" "''alse''"] by (cases b) auto
qed (use assms that in \<open>auto simp: json_str_def\<close>)

lemma num_end_simps [simp]:
  "num_end []" "num_end (CHR '']'' # r)" "num_end (CHR ''}'' # r)" "num_end (CHR '','' # r)"
  by (simp_all add: num_end_def is_digit_def)

lemma p_val_int:
  assumes "num_end r"
  shows "p_val (Suc n) (json_int i @ r) = Some (JInt i, r)"
proof -
  obtain c ds where c: "json_int i = c # ds" "is_digit c \<or> c = CHR ''-''" by (rule json_int_Cons)
  then have "c \<noteq> CHR 0x22" "c \<noteq> CHR ''{''" "c \<noteq> CHR ''[''" "c \<noteq> CHR ''n''" "c \<noteq> CHR ''t''"
    "c \<noteq> CHR ''f''" "c \<noteq> CHR ''N''" "c \<noteq> CHR ''I''"
    using digit_char_not [of c] by auto
  with p_num_json_int [OF assms, of i] c(1) show ?thesis by simp
qed

lemma p_val_str: "p_val (Suc n) (json_str s @ r) = Some (JStr s, r)"
  using p_str_body [of s r] by (simp add: json_str_def)

lemma length_json_str: "2 \<le> length (json_str s)"
  by (simp add: json_str_def)

lemma dump_pairs_Cons: "ps \<noteq> [] \<Longrightarrow> \<exists>t. dump_pairs ps = CHR 0x22 # t"
  by (cases ps rule: dump_pairs.cases) (auto simp: json_str_def)

lemmas parse_dump_simps = p_val_int p_val_str

lemma parse_dumps:
  shows "printable j \<Longrightarrow> length (json_dumps j) \<le> n \<Longrightarrow> num_end r \<Longrightarrow>
      p_val n (json_dumps j @ r) = Some (j, r)"
    and "list_all printable xs \<Longrightarrow> xs \<noteq> [] \<Longrightarrow> length (dump_elems xs) < n \<Longrightarrow>
      p_elems n (dump_elems xs @ CHR '']'' # r) = Some (xs, r)"
    and "list_all (\<lambda>p. printable (snd p)) ps \<Longrightarrow> ps \<noteq> [] \<Longrightarrow> length (dump_pairs ps) < n \<Longrightarrow>
      p_pairs n (dump_pairs ps @ CHR ''}'' # r) = Some (ps, r)"
proof (induction j and xs and ps arbitrary: n r and n r and n r
    rule: json_dumps_dump_elems_dump_pairs.induct)
  case 1
  then show ?case by (cases n) simp_all
next
  case (2 b)
  then show ?case by (cases n; cases b) auto
next
  case (3 i)
  obtain c ds where "json_int i = c # ds" by (rule json_int_Cons)
  with "3.prems" obtain m where "n = Suc m" by (cases n) auto
  with "3.prems" show ?case by (simp only: json_dumps.simps p_val_int)
next
  case (4 s)
  then obtain m where "n = Suc m" by (cases n) (auto simp: json_str_def)
  then show ?case by (simp only: json_dumps.simps p_val_str)
next
  case (5 xs)
  then obtain m where n: "n = Suc m" by (cases n) auto
  show ?case
  proof (cases "xs = []")
    case True
    then show ?thesis by (simp add: n)
  next
    case False
    then obtain x ys where xs: "xs = x # ys" by (cases xs) auto
    with "5.prems" obtain c ds where c: "json_dumps x = c # ds" "\<not> json_space c" "c \<noteq> CHR '']''"
      by (auto elim: json_dumps_Cons)
    then have "\<exists>t. dump_elems xs = c # t" by (cases ys) (auto simp: xs)
    then obtain t where t: "dump_elems xs = c # t" by blast
    have "p_elems m (dump_elems xs @ CHR '']'' # r) = Some (xs, r)"
      using "5.prems" False n by (intro "5.IH") auto
    with c t show ?thesis by (simp add: n)
  qed
next
  case (6 ps)
  then obtain m where n: "n = Suc m" by (cases n) auto
  show ?case
  proof (cases "ps = []")
    case True
    then show ?thesis by (simp add: n)
  next
    case False
    with dump_pairs_Cons obtain t where t: "dump_pairs ps = CHR 0x22 # t" by blast
    have "p_pairs m (dump_pairs ps @ CHR ''}'' # r) = Some (ps, r)"
      using "6.prems" False n by (intro "6.IH") auto
    with t "6.prems" show ?thesis by (simp add: n)
  qed
next
  case (8 x)
  then obtain m where n: "n = Suc m" by (cases n) auto
  with 8 show ?case by simp
next
  case (9 x y xs)
  then obtain m where n: "n = Suc m" by (cases n) auto
  obtain c ds where c: "json_dumps y = c # ds" "\<not> json_space c"
    using "9.prems" by (auto elim: json_dumps_Cons)
  then have "\<exists>t. dump_elems (y # xs) = c # t" by (cases xs) auto
  with c have "skip_ws (dump_elems (y # xs) @ s) = dump_elems (y # xs) @ s" for s by auto
  moreover have "p_elems m (dump_elems (y # xs) @ CHR '']'' # r) = Some (y # xs, r)"
    using "9.prems" n by (intro "9.IH") auto
  moreover have "p_val m (json_dumps x @ '', '' @ dump_elems (y # xs) @ CHR '']'' # r) =
      Some (x, '', '' @ dump_elems (y # xs) @ CHR '']'' # r)"
    using "9.prems" n by (intro "9.IH") auto
  ultimately show ?case by (simp add: n)
next
  case (11 k v)
  then obtain m where n: "n = Suc m" by (cases n) auto
  obtain c ds where c: "json_dumps v = c # ds" "\<not> json_space c"
    using "11.prems" by (auto elim: json_dumps_Cons)
  have "p_val m (json_dumps v @ CHR ''}'' # r) = Some (v, CHR ''}'' # r)"
    using "11.prems" n by (intro "11.IH") auto
  with c show ?case by (simp add: n json_str_def p_str_body)
next
  case (12 k v p ps)
  then obtain m where n: "n = Suc m" by (cases n) auto
  obtain c ds where c: "json_dumps v = c # ds" "\<not> json_space c"
    using "12.prems" by (auto elim: json_dumps_Cons)
  obtain t where t: "dump_pairs (p # ps) = CHR 0x22 # t" using dump_pairs_Cons by blast
  have "p_pairs m (dump_pairs (p # ps) @ CHR ''}'' # r) = Some (p # ps, r)"
    using "12.prems" n by (intro "12.IH") auto
  moreover have "p_val m (json_dumps v @ '', '' @ dump_pairs (p # ps) @ CHR ''}'' # r) =
      Some (v, '', '' @ dump_pairs (p # ps) @ CHR ''}'' # r)"
    using "12.prems" n by (intro "12.IH") auto
  ultimately show ?case using c t by (simp add: n json_str_def p_str_body)
qed simp_all

lemma json_loads_dumps: "printable j \<Longrightarrow> json_loads (json_dumps j) = Some j"
proof -
  assume j: "printable j"
  then obtain c ds where "json_dumps j = c # ds" "\<not> json_space c" by (rule json_dumps_Cons)
  then have "skip_ws (json_dumps j) = json_dumps j" by simp
  moreover have "p_val (Suc (2 * length (json_dumps j))) (json_dumps j @ []) = Some (j, [])"
    using j by (intro parse_dumps(1)) auto
  ultimately show ?thesis by (simp add: json_loads_def)
qed

interpretation js: codec json_dumps json_loads printable
  by unfold_locales (rule json_loads_dumps)

section \<open>Fuel\<close>

text \<open>Every parser consumes what it reads.\<close>

lemma skip_ws_length: "length (skip_ws s) \<le> length s"
  by (simp add: skip_ws_def length_dropWhile_le)

lemma p_str_length: "p_str s = Some (x, r) \<Longrightarrow> length r < length s"
proof (induction s arbitrary: x r rule: p_str.induct)
  case (2 c cs)
  then show ?case
    by (fastforce split: if_splits list.splits option.splits dest: less_SucI)
qed simp

lemma scan_exponent_length: "length (snd (scan_exponent s)) \<le> length s"
  by (auto simp: scan_exponent_def Let_def split: list.splits
      intro: le_trans [OF length_dropWhile_le])

lemma num_int_length: "num_int s = (ds, r) \<Longrightarrow> length r \<le> length s \<and> (ds \<noteq> [] \<longrightarrow> length r < length s)"
proof -
  have "takeWhile is_digit s \<noteq> [] \<Longrightarrow> length (dropWhile is_digit s) < length s"
    by (metis add_less_cancel_right add_0 length_append length_greater_0_conv takeWhile_dropWhile_id)
  then show "num_int s = (ds, r) \<Longrightarrow> ?thesis"
    by (auto simp: num_int_def length_dropWhile_le split: if_splits)
qed

lemma num_frac_length: "num_frac s = (fs, r) \<Longrightarrow> length r \<le> length s"
  by (auto simp: num_frac_def split: if_splits intro: le_trans [OF length_dropWhile_le])

lemma p_num_length:
  assumes "p_num s = Some (j, r)"
  shows "length r < length s"
proof -
  define t where "t = (if s \<noteq> [] \<and> hd s = CHR ''-'' then tl s else s)"
  have t: "length t \<le> length s" by (simp add: t_def)
  obtain ds u where i: "num_int t = (ds, u)" by fastforce
  show ?thesis
  proof (cases "ds = []")
    case True
    with assms i have "prefix ''Infinity'' u" "r = drop 8 u"
      by (auto simp: p_num_def Let_def t_def split: if_splits)
    then have "length r < length u" by (cases u) auto
    with num_int_length [OF i] t show ?thesis by simp
  next
    case False
    obtain fs v where f: "num_frac u = (fs, v)" by fastforce
    obtain e w where x: "scan_exponent v = (e, w)" by fastforce
    from assms i f x False have "r = v \<or> r = w"
      by (auto simp: p_num_def Let_def t_def split: if_splits)
    with num_int_length [OF i] num_frac_length [OF f] scan_exponent_length [of v] x False t
    show ?thesis by auto
  qed
qed

lemma p_val_cases:
  assumes "p_val (Suc n) (c # t) = Some (j, r)"
  shows "(\<exists>x. p_str t = Some (x, r)) \<or> (skip_ws t \<noteq> [] \<and> r = tl (skip_ws t)) \<or>
    (\<exists>x. p_pairs n (skip_ws t) = Some (x, r)) \<or> (\<exists>x. p_elems n (skip_ws t) = Some (x, r)) \<or>
    (\<exists>k. r = drop k t) \<or> (\<exists>x. p_num (c # t) = Some (x, r))"
proof -
  have drops: "drop 3 (c # t) = drop 2 t" "drop 4 (c # t) = drop 3 t" "drop 5 (c # t) = drop 4 t"
    "drop 8 (c # t) = drop 7 t" by simp_all
  show ?thesis
    using assms unfolding p_val.simps list.case drops
    by (auto simp del: drop_Suc_Cons drop_Cons_numeral Cons_prefix_Cons split: if_split_asm)
qed

lemma p_val_length:
  assumes IH: "\<And>s j r. p_elems n s = Some (j, r) \<Longrightarrow> length r < length s"
    "\<And>s j r. p_pairs n s = Some (j, r) \<Longrightarrow> length r < length s"
    and eq: "p_val (Suc n) s = Some (j, r)"
  shows "length r < length s"
proof (cases s)
  case (Cons c t)
  have ws: "length (skip_ws t) \<le> length t" by (rule skip_ws_length)
  from p_val_cases [OF eq [unfolded Cons]] have "length r < Suc (length t)"
  proof (elim disjE exE conjE)
    fix x assume "p_str t = Some (x, r)"
    then show ?thesis using p_str_length by fastforce
  next
    assume "r = tl (skip_ws t)"
    with ws show ?thesis by simp
  next
    fix x assume "p_pairs n (skip_ws t) = Some (x, r)"
    with IH(2) ws show ?thesis by fastforce
  next
    fix x assume "p_elems n (skip_ws t) = Some (x, r)"
    with IH(1) ws show ?thesis by fastforce
  next
    fix x assume "p_num (c # t) = Some (x, r)"
    then show ?thesis using p_num_length by fastforce
  qed simp
  then show ?thesis by (simp add: Cons)
qed (use eq in simp)

lemma p_elems_length:
  assumes IH: "\<And>s j r. p_val n s = Some (j, r) \<Longrightarrow> length r < length s"
    "\<And>s j r. p_elems n s = Some (j, r) \<Longrightarrow> length r < length s"
    and eq: "p_elems (Suc n) s = Some (j, r)"
  shows "length r < length s"
proof -
  from eq obtain v u e u' where v: "p_val n s = Some (v, u)" "skip_ws u = e # u'"
    and "r = u' \<or> (\<exists>x. p_elems n (skip_ws u') = Some (x, r))"
    by (auto split: option.splits list.splits if_splits)
  then have "length r \<le> length u'"
    using IH(2) [of "skip_ws u'"] by (auto intro: less_imp_le less_le_trans [OF _ skip_ws_length])
  also have "\<dots> < length (skip_ws u)" by (simp add: v)
  also have "\<dots> \<le> length u" by (rule skip_ws_length)
  also have "\<dots> < length s" using IH(1) v by blast
  finally show ?thesis .
qed

lemma p_pairs_length:
  assumes IH: "\<And>s j r. p_val n s = Some (j, r) \<Longrightarrow> length r < length s"
    "\<And>s j r. p_pairs n s = Some (j, r) \<Longrightarrow> length r < length s"
    and eq: "p_pairs (Suc n) s = Some (j, r)"
  shows "length r < length s"
proof -
  from eq obtain c t k t' d w v u e u' where s: "s = c # t" "p_str t = Some (k, t')"
      "skip_ws t' = d # w" "p_val n (skip_ws w) = Some (v, u)" "skip_ws u = e # u'"
    and "r = u' \<or> (\<exists>x. p_pairs n (skip_ws u') = Some (x, r))"
    by (auto split: option.splits list.splits if_splits)
  then have "length r \<le> length u'"
    using IH(2) [of "skip_ws u'"] by (auto intro: less_imp_le less_le_trans [OF _ skip_ws_length])
  also have "\<dots> < length (skip_ws u)" by (simp add: s)
  also have "\<dots> \<le> length u" by (rule skip_ws_length)
  also have "\<dots> < length (skip_ws w)" using IH(1) s by blast
  also have "\<dots> \<le> length (skip_ws t')" using s skip_ws_length [of w] by simp
  also have "\<dots> \<le> length t'" by (rule skip_ws_length)
  also have "\<dots> < length s" using s p_str_length [of t k t'] by simp
  finally show ?thesis .
qed

lemma p_lengths:
  "(\<forall>s j r. p_val n s = Some (j, r) \<longrightarrow> length r < length s) \<and>
   (\<forall>s j r. p_elems n s = Some (j, r) \<longrightarrow> length r < length s) \<and>
   (\<forall>s j r. p_pairs n s = Some (j, r) \<longrightarrow> length r < length s)"
proof (induction n)
  case (Suc n)
  then show ?case
    using p_val_length [of n] p_elems_length [of n] p_pairs_length [of n] by blast
qed simp

text \<open>Once the fuel exceeds twice the length of the text, more of it changes nothing.\<close>

lemma fuel_enough:
  "(\<forall>s. 2 * length s < n \<longrightarrow> p_val (Suc n) s = p_val n s) \<and>
   (\<forall>s. Suc (2 * length s) < n \<longrightarrow> p_elems (Suc n) s = p_elems n s) \<and>
   (\<forall>s. Suc (2 * length s) < n \<longrightarrow> p_pairs (Suc n) s = p_pairs n s)"
proof (induction n)
  case (Suc n)
  have v: "p_val (Suc (Suc n)) s = p_val (Suc n) s" if "2 * length s < Suc n" for s
  proof (cases s)
    case (Cons c t)
    have "length (skip_ws t) \<le> length t" by (rule skip_ws_length)
    with that Cons have "Suc (2 * length (skip_ws t)) < n" by simp
    with Suc have "p_elems (Suc n) (skip_ws t) = p_elems n (skip_ws t)"
      "p_pairs (Suc n) (skip_ws t) = p_pairs n (skip_ws t)" by auto
    with Cons show ?thesis by (simp only: p_val.simps(2) list.case)
  qed simp
  have e: "p_elems (Suc (Suc n)) s = p_elems (Suc n) s" if "Suc (2 * length s) < Suc n" for s
  proof -
    have "p_elems (Suc n) (skip_ws u') = p_elems n (skip_ws u')"
      if "p_val n s = Some (v, u)" "skip_ws u = x # u'" for v u x u'
    proof -
      have "length u < length s" using p_lengths that by blast
      moreover have "Suc (length u') \<le> length u" using skip_ws_length [of u] that by simp
      moreover have "length (skip_ws u') \<le> length u'" by (rule skip_ws_length)
      ultimately show ?thesis using Suc \<open>Suc (2 * length s) < Suc n\<close> by simp
    qed
    moreover have "p_val (Suc n) s = p_val n s" using Suc that by simp
    ultimately show ?thesis
      by (simp only: p_elems.simps(2)) (auto split: option.splits list.splits)
  qed
  have p: "p_pairs (Suc (Suc n)) s = p_pairs (Suc n) s" if "Suc (2 * length s) < Suc n" for s
  proof -
    have len: "2 * length s < n" using that by simp
    have v': "p_val (Suc n) (skip_ws w) = p_val n (skip_ws w)"
      and p': "p_val n (skip_ws w) = Some (y, u) \<Longrightarrow> skip_ws u = x # u' \<Longrightarrow>
        p_pairs (Suc n) (skip_ws u') = p_pairs n (skip_ws u')"
      if "s = c # t" "p_str t = Some (k, t')" "skip_ws t' = d # w" for c t k t' d w y u x u'
    proof -
      have "length t' < length t" using p_str_length that by blast
      moreover have "Suc (length w) \<le> length t'" using skip_ws_length [of t'] that by simp
      ultimately have w: "length (skip_ws w) + 2 < length s"
        using skip_ws_length [of w] that by simp
      with len Suc show "p_val (Suc n) (skip_ws w) = p_val n (skip_ws w)" by simp
      assume "p_val n (skip_ws w) = Some (y, u)" "skip_ws u = x # u'"
      then have "length u < length (skip_ws w)" "length u' < length u"
        using p_lengths [of n] skip_ws_length [of u] by auto
      with w len have "Suc (2 * length (skip_ws u')) < n" using skip_ws_length [of u'] by simp
      with Suc show "p_pairs (Suc n) (skip_ws u') = p_pairs n (skip_ws u')" by simp
    qed
    show ?thesis
      unfolding p_pairs.simps(2) [of "Suc n" s] p_pairs.simps(2) [of n s]
      by (auto simp: v' p' simp del: p_pairs.simps p_val.simps split: option.splits list.splits)
  qed
  show ?case using v e p by blast
qed simp

lemma json_fuel: "2 * length s < n \<Longrightarrow> p_val (n + k) s = p_val n s"
  by (induction k) (use fuel_enough in \<open>auto simp del: p_val.simps\<close>)

end
