(* ===== verification/ExecChannel.thy ===== *)
theory ExecChannel
  imports Base64 Json
begin

text \<open>
  \<^verbatim>\<open>_exec.py\<close>: the exec websocket. What the Kubernetes client delivers is a parameter: a
  conversation is the exception of opening it (if any), the clock when it opened, one entry per
  round of the pump loop (the clock, an exception of \<^verbatim>\<open>update\<close>, the text found on stdout and
  stderr) and the text of the error channel once it is closed. The definitions compute what the
  library makes of a conversation: the chunks it yields, the time-out, the exit code, and the frame it
  sends to the uploader.
\<close>

section \<open>The exit status\<close>

definition py_strip :: "string \<Rightarrow> string" where
  "py_strip s = rev (dropWhile is_space (rev (dropWhile is_space s)))"

text \<open>Digits with single underscores between them.\<close>

fun int_digits :: "bool \<Rightarrow> string \<Rightarrow> string option" where
  "int_digits prev [] = (if prev then Some [] else None)"
| "int_digits prev (c # cs) =
     (if is_digit c then map_option (Cons c) (int_digits True cs)
      else if c = CHR ''_'' \<and> prev then int_digits False cs
      else None)"

text \<open>\<^verbatim>\<open>int(s)\<close> of a string; \<open>None\<close> is the \<^verbatim>\<open>ValueError\<close>.\<close>

definition py_int :: "string \<Rightarrow> int option" where
  "py_int s =
     (let t = py_strip s;
          neg = (t \<noteq> [] \<and> hd t = CHR ''-'');
          t = (if t \<noteq> [] \<and> (hd t = CHR ''-'' \<or> hd t = CHR ''+'') then tl t else t)
      in map_option (\<lambda>ds. if neg then - int (undec ds) else int (undec ds)) (int_digits False t))"

text \<open>\<^verbatim>\<open>int(v)\<close> of a value out of a JSON document.\<close>

fun int_of_json :: "json \<Rightarrow> exn + int" where
  "int_of_json (JStr s) = (case py_int s of None \<Rightarrow> Inl (ValueErr ''invalid literal for int()'') | Some i \<Rightarrow> Inr i)"
| "int_of_json (JInt i) = Inr i"
| "int_of_json (JBool b) = Inr (if b then 1 else 0)"
| "int_of_json (JFloat neg (Fin q)) = Inr (if neg then - \<lfloor>q\<rfloor> else \<lfloor>q\<rfloor>)"
| "int_of_json (JFloat neg FInf) = Inl OverflowErr"
| "int_of_json JNaN = Inl (ValueErr ''cannot convert float NaN to integer'')"
| "int_of_json _ = Inl TypeErr"

text \<open>\<^verbatim>\<open>for cause in causes\<close>: what iterating over a JSON value gives.\<close>

fun py_iter :: "json \<Rightarrow> exn + json list" where
  "py_iter (JArr xs) = Inr xs"
| "py_iter (JStr s) = Inr (map (\<lambda>c. JStr [c]) s)"
| "py_iter (JObj ps) = Inr (map (\<lambda>p. JStr (fst p)) ps)"
| "py_iter _ = Inl TypeErr"

fun scan_causes :: "json list \<Rightarrow> exn + int" where
  "scan_causes [] = Inr 1"
| "scan_causes (c # cs) =
     (case c of
        JObj ob \<Rightarrow>
          if map_of ob ''reason'' = Some (JStr ''ExitCode'') then
            (case int_of_json (dict_get ob ''message'' (JInt 1)) of
               Inr i \<Rightarrow> Inr i
             | Inl (ValueErr _) \<Rightarrow> Inr 1
             | Inl TypeErr \<Rightarrow> Inr 1
             | Inl e \<Rightarrow> Inl e)
          else scan_causes cs
      | _ \<Rightarrow> Inl AttributeErr)"

definition exit_code_of :: "string \<Rightarrow> exn + int" where
  "exit_code_of error_channel =
     (if error_channel = [] then Inr 0
      else (case json_loads error_channel of
          None \<Rightarrow> Inr 0
        | Some (JObj ob) \<Rightarrow>
            if map_of ob ''status'' = Some (JStr ''Success'') then Inr 0
            else (case dict_get ob ''details'' (JObj []) of
                JObj d \<Rightarrow>
                  (case py_iter (dict_get d ''causes'' (JArr [])) of
                     Inl e \<Rightarrow> Inl e
                   | Inr cs \<Rightarrow> scan_causes cs)
              | _ \<Rightarrow> Inl AttributeErr)
        | Some _ \<Rightarrow> Inl AttributeErr))"

section \<open>The pump\<close>

record poll =
  p_now :: rat
  p_err :: "exn option"
  p_out :: string
  p_errout :: string

record conversation =
  c_connect :: "exn option"
  c_opened :: rat
  c_stdin_err :: "exn option"
  c_polls :: "poll list"
  c_status :: string

definition poll_chunks :: "poll \<Rightarrow> stream_chunk list" where
  "poll_chunks p =
     (if p_out p \<noteq> [] then [\<lparr>stream = Stdout, chunk_data = p_out p\<rparr>] else []) @
     (if p_errout p \<noteq> [] then [\<lparr>stream = Stderr, chunk_data = p_errout p\<rparr>] else [])"

text \<open>The loop of \<^verbatim>\<open>exec_stream\<close>: the chunks yielded and how the loop ends.\<close>

fun pump :: "rat \<Rightarrow> poll list \<Rightarrow> stream_chunk list \<times> exn option" where
  "pump deadline [] = ([], None)"
| "pump deadline (p # ps) =
     (if p_now p > deadline then ([], Some ExecTimeout)
      else (case p_err p of
          Some e \<Rightarrow> ([], Some e)
        | None \<Rightarrow> (case pump deadline ps of (cs, r) \<Rightarrow> (poll_chunks p @ cs, r))))"

definition exec_stream :: "conversation \<Rightarrow> rat \<Rightarrow> stream_chunk list \<times> (exn + int)" where
  "exec_stream cv timeout_s =
     (case c_connect cv of
        Some e \<Rightarrow> ([], Inl e)
      | None \<Rightarrow>
          (case pump (c_opened cv + timeout_s) (c_polls cv) of
             (cs, Some e) \<Rightarrow> (cs, Inl e)
           | (cs, None) \<Rightarrow> (cs, exit_code_of (c_status cv))))"

definition kind_text :: "stream_kind \<Rightarrow> stream_chunk list \<Rightarrow> string" where
  "kind_text k cs = concat (map chunk_data (filter (\<lambda>c. stream c = k) cs))"

definition exec_capture :: "conversation \<Rightarrow> rat \<Rightarrow> exn + string \<times> string \<times> int" where
  "exec_capture cv timeout_s =
     (case exec_stream cv timeout_s of
        (cs, Inl e) \<Rightarrow> Inl e
      | (cs, Inr code) \<Rightarrow> Inr (kind_text Stdout cs, kind_text Stderr cs, code))"

section \<open>Uploading\<close>

definition upload_payload :: "(string, byte list) dict \<Rightarrow> string" where
  "upload_payload fs = json_dumps (JObj (map (\<lambda>(rel, b). (rel, JStr (b64encode b))) fs))"

text \<open>\<^verbatim>\<open>f"{n:016d}"\<close>.\<close>

definition dec16 :: "nat \<Rightarrow> string" where
  "dec16 n = replicate (16 - length (dec n)) (CHR ''0'') @ dec n"

definition frame_payload :: "string \<Rightarrow> string" where
  "frame_payload payload = dec16 (length payload) @ payload"

definition upload_frame :: "(string, byte list) dict \<Rightarrow> string" where
  "upload_frame fs = frame_payload (upload_payload fs)"

text \<open>The confirmation loop; the text so far is what \<^verbatim>\<open>"".join(out)\<close> would give.\<close>

fun await_upload :: "rat \<Rightarrow> string \<Rightarrow> poll list \<Rightarrow> exn option" where
  "await_upload deadline out [] =
     (if sublist ''UPLOAD_OK'' out then None else Some (UploadErr ''upload failed''))"
| "await_upload deadline out (p # ps) =
     (if p_now p > deadline then Some (UploadErr ''upload exceeded'')
      else (case p_err p of
          Some e \<Rightarrow> Some e
        | None \<Rightarrow> if sublist ''UPLOAD_OK'' (out @ p_out p) then None
            else await_upload deadline (out @ p_out p) ps))"

definition upload_files :: "conversation \<Rightarrow> rat \<Rightarrow> exn option" where
  "upload_files cv timeout_s =
     (case c_connect cv of
        Some e \<Rightarrow> Some e
      | None \<Rightarrow>
          (case c_stdin_err cv of
             Some e \<Rightarrow> Some e
           | None \<Rightarrow> await_upload (c_opened cv + timeout_s) [] (c_polls cv)))"

section \<open>What the pump delivers\<close>

definition on_time :: "rat \<Rightarrow> poll list \<Rightarrow> bool" where
  "on_time deadline ps \<longleftrightarrow> (\<forall>p \<in> set ps. p_now p \<le> deadline \<and> p_err p = None)"

lemma on_time_simps [simp]:
  "on_time d []" "on_time d (p # ps) \<longleftrightarrow> p_now p \<le> d \<and> p_err p = None \<and> on_time d ps"
  by (auto simp: on_time_def)

lemma kind_text_simps [simp]:
  "kind_text k [] = []" "kind_text k (cs @ ds) = kind_text k cs @ kind_text k ds"
  by (simp_all add: kind_text_def)

lemma kind_text_poll [simp]:
  "kind_text Stdout (poll_chunks p) = p_out p" "kind_text Stderr (poll_chunks p) = p_errout p"
  by (simp_all add: kind_text_def poll_chunks_def)

lemma pump_on_time: "on_time d ps \<Longrightarrow> pump d ps = (concat (map poll_chunks ps), None)"
  by (induction ps) auto

lemma kind_text_concat:
  "kind_text Stdout (concat (map poll_chunks ps)) = concat (map p_out ps)"
  "kind_text Stderr (concat (map poll_chunks ps)) = concat (map p_errout ps)"
  by (induction ps) simp_all

lemma pump_timeout: "snd (pump d ps) = Some ExecTimeout \<Longrightarrow>
    \<exists>p \<in> set ps. d < p_now p \<or> p_err p = Some ExecTimeout"
  by (induction ps) (auto split: if_splits option.splits prod.splits)

lemma pump_late:
  "p \<in> set ps \<Longrightarrow> d < p_now p \<Longrightarrow> \<exists>e. snd (pump d ps) = Some e"
  by (induction ps) (auto split: option.splits prod.splits)

lemma pump_append_fail:
  "snd (pump d ps) = Some e \<Longrightarrow> pump d (ps @ qs) = pump d ps"
  by (induction ps) (auto split: option.splits prod.splits)

text \<open>
  C21: a command whose output arrives within its budget is captured without loss: stdout and stderr are
  the texts of all rounds in order, each on its own channel, and the exit code is the one on the error
  channel.
\<close>

theorem exec_capture_lossless:
  assumes "c_connect cv = None" "on_time (c_opened cv + t) (c_polls cv)"
    and "exit_code_of (c_status cv) = Inr code"
  shows "exec_capture cv t =
    Inr (concat (map p_out (c_polls cv)), concat (map p_errout (c_polls cv)), code)"
  using assms by (simp add: exec_capture_def exec_stream_def pump_on_time kind_text_concat)

text \<open>
  C22: a stream that never closes is cut off: as soon as the clock has passed the deadline in some
  round, the pump has ended, with the same chunks however long the stream goes on, and the run ends in an
  exception (the time-out, unless the client failed before).
\<close>

theorem hung_stream_is_cut:
  assumes "deadline < p_now (polls n)"
  shows "\<exists>cs e. \<forall>m \<ge> Suc n. pump deadline (map polls [0..<m]) = (cs, Some e)"
proof -
  have "polls n \<in> set (map polls [0..<Suc n])" by simp
  with assms obtain e where e: "snd (pump deadline (map polls [0..<Suc n])) = Some e"
    using pump_late by blast
  then obtain cs where cs: "pump deadline (map polls [0..<Suc n]) = (cs, Some e)"
    by (metis prod.collapse)
  have "pump deadline (map polls [0..<m]) = (cs, Some e)" if "Suc n \<le> m" for m
  proof -
    have "[0..<m] = [0..<Suc n] @ [Suc n..<m]" using that upt_add_eq_append [of 0 "Suc n" "m - Suc n"] by simp
    then have "map polls [0..<m] = map polls [0..<Suc n] @ map polls [Suc n..<m]" by simp
    with pump_append_fail [OF e] cs show ?thesis by metis
  qed
  then show ?thesis by blast
qed

text \<open>
  A run that the library reports as timed out was over its budget: some round of the pump read a
  clock beyond the deadline.
\<close>

lemma timeout_only_past_deadline:
  assumes "exec_capture cv t = Inl ExecTimeout" "c_connect cv \<noteq> Some ExecTimeout"
    and "\<forall>p \<in> set (c_polls cv). p_err p \<noteq> Some ExecTimeout"
  shows "\<exists>p \<in> set (c_polls cv). c_opened cv + t < p_now p"
proof -
  have "int_of_json j \<noteq> Inl ExecTimeout" for j
    by (cases j rule: int_of_json.cases) (auto split: option.splits)
  then have cause: "scan_causes cs \<noteq> Inl ExecTimeout" for cs
    by (induction cs) (auto split: json.splits sum.splits exn.splits)
  have "py_iter j \<noteq> Inl ExecTimeout" for j by (cases j) auto
  with cause have "exit_code_of s \<noteq> Inl ExecTimeout" for s
    by (auto simp: exit_code_of_def split: option.splits json.splits sum.splits if_splits)
  with assms show ?thesis
    using pump_timeout [of "c_opened cv + t" "c_polls cv"]
    by (fastforce simp: exec_capture_def exec_stream_def split: option.splits prod.splits sum.splits)
qed

section \<open>Exit codes\<close>

lemma dec_not_space: "c \<in> set (dec n) \<Longrightarrow> \<not> is_space c"
  using dec_digits digits_front(1) by blast

lemma strip_id: "\<forall>c \<in> set s. \<not> is_space c \<Longrightarrow> py_strip s = s"
proof -
  assume s: "\<forall>c \<in> set s. \<not> is_space c"
  then have "dropWhile is_space s = s" by (cases s) auto
  moreover from s have "dropWhile is_space (rev s) = rev s" by (cases s rule: rev_cases) auto
  ultimately show ?thesis by (simp add: py_strip_def)
qed

lemma int_digits_id: "list_all is_digit ds \<Longrightarrow> ds \<noteq> [] \<or> prev \<Longrightarrow> int_digits prev ds = Some ds"
  by (induction ds arbitrary: prev) auto

lemma py_int_dec: "py_int (dec n) = Some (int n)"
proof -
  obtain c ds where d: "dec n = c # ds" and c: "is_digit c" by (rule dec_Cons)
  have "int_digits False (dec n) = Some (dec n)"
    by (rule int_digits_id) (simp_all add: dec_all_digits)
  moreover have "hd (dec n) \<noteq> CHR ''-''" "hd (dec n) \<noteq> CHR ''+''"
    using digit_char_not(1) [OF c] digits_front(2) [OF c] by (simp_all add: d)
  ultimately show ?thesis
    by (simp add: py_int_def strip_id dec_not_space Let_def)
qed

definition other_cause :: "json \<Rightarrow> bool" where
  "other_cause c \<longleftrightarrow> (case c of JObj ob \<Rightarrow> map_of ob ''reason'' \<noteq> Some (JStr ''ExitCode'') | _ \<Rightarrow> False)"

lemma scan_causes_skip: "\<forall>c \<in> set pre. other_cause c \<Longrightarrow> scan_causes (pre @ cs) = scan_causes cs"
  by (induction pre) (auto simp: other_cause_def split: json.splits)

text \<open>The status object the kubelet sends for a command that failed.\<close>

definition failure_status :: "json list \<Rightarrow> json" where
  "failure_status causes =
     JObj [(''metadata'', JObj []), (''status'', JStr ''Failure''), (''reason'', JStr ''NonZeroExitCode''),
       (''details'', JObj [(''causes'', JArr causes)])]"

definition exit_cause :: "nat \<Rightarrow> json" where
  "exit_cause n = JObj [(''reason'', JStr ''ExitCode''), (''message'', JStr (dec n))]"

text \<open>
  The exit code of a failed command survives the trip over the error channel: printed as the JSON
  status object the kubelet sends, among any other causes, it is read back as that number.
\<close>

lemma exit_code_of_failure:
  assumes "\<forall>c \<in> set pre. other_cause c \<and> printable c" "list_all printable post"
  shows "exit_code_of (json_dumps (failure_status (pre @ exit_cause n # post))) = Inr (int n)"
proof -
  have "printable (failure_status (pre @ exit_cause n # post))"
    using assms by (auto simp: failure_status_def exit_cause_def dict_ok_def list_all_iff)
  then have "json_loads (json_dumps (failure_status (pre @ exit_cause n # post))) =
      Some (failure_status (pre @ exit_cause n # post))"
    by (rule js.round_trip)
  moreover have "scan_causes (pre @ exit_cause n # post) = Inr (int n)"
    using assms(1) by (subst scan_causes_skip) (auto simp: exit_cause_def dict_get_def py_int_dec)
  moreover have "json_dumps (failure_status cs) \<noteq> []" for cs
    by (simp add: failure_status_def)
  ultimately show ?thesis
    by (simp add: exit_code_of_def failure_status_def dict_get_def del: json_dumps.simps)
qed

text \<open>
  An error channel that is empty, or holds no JSON, counts as exit code 0: a connection that breaks
  before the status arrives is reported as a successful run with the output read so far.
\<close>

lemma lost_status_is_success:
  assumes "c_connect cv = None" "on_time (c_opened cv + t) (c_polls cv)"
    and "c_status cv = [] \<or> json_loads (c_status cv) = None"
  shows "exec_capture cv t =
    Inr (concat (map p_out (c_polls cv)), concat (map p_errout (c_polls cv)), 0)"
proof -
  from assms(3) have "exit_code_of (c_status cv) = Inr 0"
    by (auto simp: exit_code_of_def)
  with assms(1,2) show ?thesis
    by (simp add: exec_capture_def exec_stream_def pump_on_time kind_text_concat)
qed

section \<open>The length header\<close>

lemma length_dec16: "n < 10 ^ 16 \<Longrightarrow> length (dec16 n) = 16"
  using length_dec [of n 15] by (simp add: dec16_def)

lemma undec_dec16 [simp]: "undec (dec16 n) = n"
  by (simp add: dec16_def)

lemma dec16_digits: "list_all is_digit (dec16 n)"
  using dec_all_digits [of n] by (auto simp: dec16_def list_all_iff is_digit_def)

lemma py_int_dec16: "py_int (dec16 n) = Some (int n)"
proof -
  have digits: "c \<in> set (dec16 n) \<Longrightarrow> is_digit c" for c
    using dec16_digits [of n] by (simp add: list_all_iff)
  have ne: "dec16 n \<noteq> []" by (simp add: dec16_def)
  then have hd: "is_digit (hd (dec16 n))" using digits by simp
  have "int_digits False (dec16 n) = Some (dec16 n)"
    using ne dec16_digits by (intro int_digits_id) auto
  moreover have "hd (dec16 n) \<noteq> CHR ''-''" "hd (dec16 n) \<noteq> CHR ''+''"
    using digit_char_not(1) [OF hd] digits_front(2) [OF hd] by simp_all
  moreover have "py_strip (dec16 n) = dec16 n"
    using digits digits_front(1) by (intro strip_id) blast
  ultimately show ?thesis by (simp add: py_int_def Let_def)
qed

section \<open>Concrete conversations\<close>

definition demo_run :: conversation where
  "demo_run = \<lparr>c_connect = None, c_opened = 10, c_stdin_err = None,
     c_polls = [\<lparr>p_now = 11, p_err = None, p_out = ''a'', p_errout = ''''\<rparr>,
                \<lparr>p_now = 12, p_err = None, p_out = ''b'', p_errout = ''!''\<rparr>],
     c_status = json_dumps (failure_status [exit_cause 3])\<rparr>"

lemma demo_exit: "exit_code_of (json_dumps (failure_status [exit_cause 3])) = Inr 3"
  by code_simp

theorem exec_capture_lossless_witness: "exec_capture demo_run 5 = Inr (''ab'', ''!'', 3)"
  using exec_capture_lossless [of demo_run 5 3] by (simp add: demo_run_def demo_exit)

theorem hung_stream_is_cut_witness:
  "\<exists>cs e. pump 3 (map (\<lambda>i. \<lparr>p_now = of_nat i, p_err = None, p_out = ''x'', p_errout = ''''\<rparr>) [0..<100]) = (cs, Some e)"
  using hung_stream_is_cut [of 3 "\<lambda>i. \<lparr>p_now = of_nat i, p_err = None, p_out = ''x'', p_errout = ''''\<rparr>" 4]
  by fastforce

lemma timeout_only_past_deadline_example:
  "\<exists>p \<in> set (c_polls demo_run). c_opened demo_run + 1 < p_now p"
  using timeout_only_past_deadline [of demo_run 1]
  by (simp add: demo_run_def exec_capture_def exec_stream_def)

lemma exit_code_of_failure_example:
  "exit_code_of (json_dumps (failure_status ([JObj [(''reason'', JStr ''OOM'')]] @ exit_cause 137 # []))) = Inr (int 137)"
  by (rule exit_code_of_failure) (simp_all add: other_cause_def dict_ok_def)

lemma lost_status_is_success_example:
  "exec_capture (demo_run\<lparr>c_status := ''<html>''\<rparr>) 5 = Inr (''ab'', ''!'', 0)"
proof -
  have "json_loads ''<html>'' = None" by code_simp
  then show ?thesis
    using lost_status_is_success [of "demo_run\<lparr>c_status := ''<html>''\<rparr>" 5] by (simp add: demo_run_def)
qed

end
