(* ===== verification/Workspace.thy ===== *)
theory Workspace
  imports ExecChannel
begin

text \<open>
  The working directory of a worker and the three scripts the library runs in it: the uploader
  of \<^verbatim>\<open>_exec.py\<close> and the cleaner and collector of \<^verbatim>\<open>runner.py\<close>. A workspace is a finite tree of files,
  directories and symbolic links with the owner's permission bits, since the scripts run as the same
  user as the sandboxed code. What lies behind a symbolic link, an absolute name or a
  \<^verbatim>\<open>..\<close> component is the rest of the container: it is a parameter of the definitions.
\<close>

section \<open>Trees\<close>

datatype node =
    NFile bool bool "byte list"  \<comment> \<open>readable, writable, content\<close>
  | NDir bool bool bool "(string \<times> node) list"  \<comment> \<open>readable, writable, searchable, entries\<close>
  | NLink string

type_synonym entries = "(string \<times> node) list"

text \<open>The rest of the container: reading, writing and classifying a name that leaves the tree.\<close>

record container =
  o_read :: "string \<Rightarrow> entries \<Rightarrow> byte list option"
  o_write :: "string \<Rightarrow> byte list \<Rightarrow> entries \<Rightarrow> exn option \<times> entries"
  o_is_dir :: "string \<Rightarrow> bool"

datatype put_result = Done | Failed | Foreign

text \<open>
  The path of a relative name below the working directory as the kernel walks it: empty and
  \<^verbatim>\<open>.\<close> components name the directory itself, but the last component is kept as it is.
\<close>

definition ws_path :: "string \<Rightarrow> string list option" where
  "ws_path rel =
     (let parts = split_on (CHR ''/'') rel
      in if hd parts = [] \<and> tl parts \<noteq> [] \<or> ''..'' \<in> set parts then None
         else Some (filter (\<lambda>p. p \<noteq> [] \<and> p \<noteq> ''.'') (butlast parts) @ [last parts]))"

text \<open>\<^verbatim>\<open>makedirs\<close> of the parent, then \<^verbatim>\<open>open(p, "wb")\<close> and the write, inside a directory with bits w, x.\<close>

fun put_file :: "string list \<Rightarrow> byte list \<Rightarrow> bool \<Rightarrow> bool \<Rightarrow> entries \<Rightarrow> put_result \<times> entries" where
  "put_file [] b w x es = (Failed, es)"
| "put_file [n] b w x es =
     (if n = [] \<or> n = ''.'' then (Failed, es)
      else (case map_of es n of
          None \<Rightarrow> if w \<and> x then (Done, dict_put n (NFile True True b) es) else (Failed, es)
        | Some (NFile rd wr _) \<Rightarrow> if x \<and> wr then (Done, dict_put n (NFile rd wr b) es) else (Failed, es)
        | Some (NDir _ _ _ _) \<Rightarrow> (Failed, es)
        | Some (NLink _) \<Rightarrow> (Foreign, es)))"
| "put_file (d # ds) b w x es =
     (case map_of es d of
        None \<Rightarrow>
          if w \<and> x then
            (case put_file ds b True True [] of (r, sub) \<Rightarrow> (r, dict_put d (NDir True True True sub) es))
          else (Failed, es)
      | Some (NDir r' w' x' sub) \<Rightarrow>
          if x then
            (case put_file ds b w' x' sub of (r, sub') \<Rightarrow> (r, dict_put d (NDir r' w' x' sub') es))
          else (Failed, es)
      | Some (NFile _ _ _) \<Rightarrow> (Failed, es)
      | Some (NLink _) \<Rightarrow> (Foreign, es))"

definition write_rel :: "container \<Rightarrow> string \<Rightarrow> byte list \<Rightarrow> entries \<Rightarrow> exn option \<times> entries" where
  "write_rel ct rel b es =
     (case ws_path rel of
        None \<Rightarrow> o_write ct rel b es
      | Some p \<Rightarrow>
          (case put_file p b True True es of
             (Done, es') \<Rightarrow> (None, es')
           | (Failed, es') \<Rightarrow> (Some OsErr, es')
           | (Foreign, _) \<Rightarrow> o_write ct rel b es))"

section \<open>The uploader\<close>

text \<open>\<^verbatim>\<open>sys.stdin.read(k)\<close> on a stream that arrives in pieces: at most k characters of the next piece.\<close>

fun stdin_read :: "nat \<Rightarrow> string list \<Rightarrow> string \<times> string list" where
  "stdin_read k [] = ([], [])"
| "stdin_read k (c # cs) = (if length c \<le> k then (c, cs) else (take k c, drop k c # cs))"

function readn :: "nat \<Rightarrow> string \<Rightarrow> string list \<Rightarrow> string \<times> string list" where
  "readn n buf inp =
     (if length buf < n then
        (case stdin_read (n - length buf) inp of
           (c, inp') \<Rightarrow> if c = [] then (buf, inp') else readn n (buf @ c) inp')
      else (buf, inp))"
  by pat_completeness auto
termination
  by (relation "measure (\<lambda>(n, buf, inp). n - length buf)") (auto simp flip: length_greater_0_conv)

declare readn.simps [simp del]

text \<open>The loop over the decoded payload; the file is opened before its content is decoded.\<close>

fun upload_members :: "container \<Rightarrow> (string \<times> json) list \<Rightarrow> entries \<Rightarrow> exn option \<times> entries" where
  "upload_members ct [] es = (None, es)"
| "upload_members ct ((rel, v) # ms) es =
     (case (case v of JStr s \<Rightarrow> b64decode s | _ \<Rightarrow> None) of
        Some b \<Rightarrow>
          (case write_rel ct rel b es of
             (None, es') \<Rightarrow> upload_members ct ms es'
           | (Some e, es') \<Rightarrow> (Some e, es'))
      | None \<Rightarrow>
          (case write_rel ct rel [] es of
             (None, es') \<Rightarrow> (Some (case v of JStr _ \<Rightarrow> ValueErr ''base64'' | _ \<Rightarrow> TypeErr), es')
           | (Some e, es') \<Rightarrow> (Some e, es')))"

text \<open>The whole script: no exception means that it printed \<^verbatim>\<open>UPLOAD_OK\<close>.\<close>

definition uploader :: "container \<Rightarrow> string list \<Rightarrow> entries \<Rightarrow> exn option \<times> entries" where
  "uploader ct inp es =
     (case readn 16 [] inp of (hdr, inp) \<Rightarrow>
        (case py_int hdr of
           None \<Rightarrow> (Some (ValueErr ''invalid literal for int()''), es)
         | Some n \<Rightarrow>
             (case json_loads (fst (readn (nat n) [] inp)) of
                None \<Rightarrow> (Some (ValueErr ''json''), es)
              | Some (JObj ms) \<Rightarrow> upload_members ct ms es
              | Some _ \<Rightarrow> (Some AttributeErr, es))))"

section \<open>The cleaner\<close>

text \<open>
  What a directory with the given bits still holds after its contents were removed:
  \<^verbatim>\<open>shutil.rmtree(ignore_errors=True)\<close> on directories, \<^verbatim>\<open>os.remove\<close> with the error ignored
  on the rest. Opening a directory needs its read bit and the search bit of its parent, and one
  that cannot be opened is left alone; removing an entry needs the write and search bits of its parent.
\<close>

fun purge_node :: "bool \<Rightarrow> node \<Rightarrow> node"
  and purge_entries :: "bool \<Rightarrow> bool \<Rightarrow> entries \<Rightarrow> entries"
where
  "purge_node reach (NDir r w x es) =
     NDir r w x (if reach \<and> r then purge_entries w x es else es)"
| "purge_node reach t = t"
| "purge_entries w x [] = []"
| "purge_entries w x ((n, t) # es) =
     (case purge_node x t of
        NDir r' w' x' sub \<Rightarrow> if r' \<and> sub = [] \<and> w \<and> x then purge_entries w x es
          else (n, NDir r' w' x' sub) # purge_entries w x es
      | t' \<Rightarrow> if w \<and> x then purge_entries w x es else (n, t') # purge_entries w x es)"

text \<open>The script on the working directory, which the sandbox user can write; it always prints \<^verbatim>\<open>CLEAN_OK\<close>.\<close>

definition cleaner :: "entries \<Rightarrow> string \<times> entries" where
  "cleaner es = (''CLEAN_OK'' @ [CHR 0x0A], purge_entries True True es)"

section \<open>The collector\<close>

fun get_file :: "string list \<Rightarrow> bool \<Rightarrow> entries \<Rightarrow> (byte list option) option" where
  "get_file [] x es = Some None"
| "get_file [n] x es =
     (if n = [] \<or> n = ''.'' then Some None
      else (case map_of es n of
          Some (NFile rd _ b) \<Rightarrow> Some (if x \<and> rd then Some b else None)
        | Some (NLink _) \<Rightarrow> None
        | _ \<Rightarrow> Some None))"
| "get_file (d # ds) x es =
     (case map_of es d of
        Some (NDir _ _ x' sub) \<Rightarrow> if x then get_file ds x' sub else Some None
      | Some (NLink _) \<Rightarrow> None
      | _ \<Rightarrow> Some None)"

text \<open>\<^verbatim>\<open>open(os.path.join(root, rel), "rb").read()\<close>; \<open>None\<close> is the ignored \<^verbatim>\<open>OSError\<close>.\<close>

definition read_rel :: "container \<Rightarrow> string \<Rightarrow> entries \<Rightarrow> byte list option" where
  "read_rel ct rel es =
     (case ws_path rel of
        None \<Rightarrow> o_read ct rel es
      | Some p \<Rightarrow> (case get_file p True es of None \<Rightarrow> o_read ct rel es | Some r \<Rightarrow> r))"

record collected =
  k_out :: "(string, byte list) dict"
  k_trunc :: "string list"
  k_total :: int

definition collect_add :: "container \<Rightarrow> entries \<Rightarrow> int \<Rightarrow> string \<Rightarrow> collected \<Rightarrow> collected" where
  "collect_add ct es maxb rel k =
     (case read_rel ct rel es of
        None \<Rightarrow> k
      | Some d \<Rightarrow>
          if k_total k + int (length d) > maxb then k\<lparr>k_trunc := k_trunc k @ [rel]\<rparr>
          else k\<lparr>k_total := k_total k + int (length d), k_out := dict_put rel d (k_out k)\<rparr>)"

definition rel_join :: "string list \<Rightarrow> string" where
  "rel_join p = join_with (CHR ''/'') p"

definition is_dir_entry :: "container \<Rightarrow> string list \<Rightarrow> string \<times> node \<Rightarrow> bool" where
  "is_dir_entry ct p e =
     (case snd e of NDir _ _ _ _ \<Rightarrow> True | NLink _ \<Rightarrow> o_is_dir ct (rel_join (p @ [fst e])) | NFile _ _ _ \<Rightarrow> False)"

text \<open>
  \<^verbatim>\<open>os.walk\<close>, top down, links not followed: the relative names of the files of a directory, then
  those of its subdirectories. A directory that cannot be listed is skipped.
\<close>

fun walk_dir :: "container \<Rightarrow> string list \<Rightarrow> bool \<Rightarrow> node \<Rightarrow> string list"
  and walk_subs :: "container \<Rightarrow> string list \<Rightarrow> bool \<Rightarrow> entries \<Rightarrow> string list"
where
  "walk_dir ct p reach (NDir r w x es) =
     (if reach \<and> r
      then map (\<lambda>e. rel_join (p @ [fst e])) (filter (\<lambda>e. \<not> is_dir_entry ct p e) es) @ walk_subs ct p x es
      else [])"
| "walk_dir ct p reach _ = []"
| "walk_subs ct p x [] = []"
| "walk_subs ct p x ((n, t) # es) = walk_dir ct (p @ [n]) x t @ walk_subs ct p x es"

definition collector :: "container \<Rightarrow> string list option \<Rightarrow> int \<Rightarrow> entries \<Rightarrow> collected" where
  "collector ct want maxb es =
     fold (collect_add ct es maxb)
       (case want of None \<Rightarrow> walk_dir ct [] True (NDir True True True es) | Some rels \<Rightarrow> rels)
       \<lparr>k_out = [], k_trunc = [], k_total = 0\<rparr>"

definition collector_output :: "collected \<Rightarrow> string" where
  "collector_output k =
     json_dumps (JObj [(''files'', JObj (map (\<lambda>(rel, b). (rel, JStr (b64encode b))) (k_out k))),
                       (''trunc'', JArr (map JStr (k_trunc k)))])"

section \<open>Reading the frame\<close>

lemma stdin_read_spec:
  assumes "stdin_read k inp = (c, inp')" "\<forall>p \<in> set inp. p \<noteq> []"
  shows "c @ concat inp' = concat inp" "length c \<le> k" "\<forall>p \<in> set inp'. p \<noteq> []"
    "0 < k \<Longrightarrow> c = [] \<longleftrightarrow> inp = []"
  using assms by (cases inp; auto split: if_splits)+

text \<open>However the stream is cut into pieces, \<^verbatim>\<open>readn\<close> takes exactly the next n characters.\<close>

lemma readn_spec:
  assumes "\<forall>p \<in> set inp. p \<noteq> []" "readn n buf inp = (out, inp')"
  shows "out = buf @ take (n - length buf) (concat inp)"
    and "concat inp' = drop (n - length buf) (concat inp)" and "\<forall>p \<in> set inp'. p \<noteq> []"
proof -
  have "out = buf @ take (n - length buf) (concat inp) \<and>
    concat inp' = drop (n - length buf) (concat inp) \<and> (\<forall>p \<in> set inp'. p \<noteq> [])"
    using assms
  proof (induction n buf inp rule: readn.induct)
    case (1 n buf inp)
    show ?case
    proof (cases "length buf < n")
      case True
      obtain c inp1 where rd: "stdin_read (n - length buf) inp = (c, inp1)" by fastforce
      note spec = stdin_read_spec [OF rd "1.prems"(1)]
      show ?thesis
      proof (cases "c = []")
        case True
        with spec(4) \<open>length buf < n\<close> have inp: "inp = []" by simp
        with "1.prems"(2) have "readn n buf [] = (out, inp')" by simp
        with inp \<open>length buf < n\<close> show ?thesis
          by (auto simp: readn.simps [of n buf "[]"])
      next
        case False
        from "1.prems"(2) False rd \<open>length buf < n\<close> have "readn n (buf @ c) inp1 = (out, inp')"
          by (simp add: readn.simps [of n buf inp])
        from "1.IH" [OF \<open>length buf < n\<close> rd [symmetric] False spec(3) this]
        have ih: "out = (buf @ c) @ take (n - length (buf @ c)) (concat inp1)"
          "concat inp' = drop (n - length (buf @ c)) (concat inp1)" "\<forall>p \<in> set inp'. p \<noteq> []" by auto
        have "take (n - length buf) (concat inp) = c @ take (n - length (buf @ c)) (concat inp1)"
          "drop (n - length buf) (concat inp) = drop (n - length (buf @ c)) (concat inp1)"
          using spec(2) by (simp_all flip: spec(1))
        with ih show ?thesis by simp
      qed
    next
      case False
      with "1.prems" show ?thesis by (auto simp: readn.simps [of n buf inp])
    qed
  qed
  then show "out = buf @ take (n - length buf) (concat inp)"
    "concat inp' = drop (n - length buf) (concat inp)" "\<forall>p \<in> set inp'. p \<noteq> []" by auto
qed

lemma readn_frame:
  assumes "\<forall>p \<in> set inp. p \<noteq> []" "concat inp = frame_payload payload" "length payload < 10 ^ 16"
  obtains inp' where "readn 16 [] inp = (dec16 (length payload), inp')"
    and "fst (readn (length payload) [] inp') = payload"
proof -
  obtain hdr inp' where h: "readn 16 [] inp = (hdr, inp')" by fastforce
  note spec = readn_spec [OF assms(1) h]
  from spec(1) assms(2) have hdr: "hdr = dec16 (length payload)"
    using length_dec16 [OF assms(3)] by (simp add: frame_payload_def)
  from spec(2) assms(2) have rest: "concat inp' = payload"
    using length_dec16 [OF assms(3)] by (simp add: frame_payload_def)
  obtain q r where q: "readn (length payload) [] inp' = (q, r)" by fastforce
  with readn_spec(1) [OF spec(3) q] rest have "q = payload" by simp
  with h hdr q that show ?thesis by simp
qed

section \<open>The file store\<close>

text \<open>
  What a transfer relies on: a store that takes a value at a path returns it there and nowhere else.
\<close>

locale file_store =
  fixes put :: "'p \<Rightarrow> 'v \<Rightarrow> 's \<Rightarrow> 's"
    and get :: "'s \<Rightarrow> 'p \<Rightarrow> 'v option"
    and accepts :: "'s \<Rightarrow> 'p \<Rightarrow> bool"
    and apart :: "'p \<Rightarrow> 'p \<Rightarrow> bool"
  assumes get_put: "accepts s p \<Longrightarrow> get (put p v s) q = (if q = p then Some v else get s q)"
    and accepts_put: "accepts s p \<Longrightarrow> accepts s q \<Longrightarrow> apart p q \<Longrightarrow> accepts (put p v s) q"
begin

text \<open>Writing a whole map of pairwise compatible paths.\<close>

lemma get_put_all:
  assumes "distinct (map fst ms)" "\<forall>m \<in> set ms. accepts s (fst m)"
    and "\<forall>m \<in> set ms. \<forall>m' \<in> set ms. fst m \<noteq> fst m' \<longrightarrow> apart (fst m) (fst m')"
  shows "get (fold (\<lambda>(p, v). put p v) ms s) = get s ++ map_of ms"
  using assms
proof (induction ms arbitrary: s)
  case (Cons m ms)
  obtain p v where m: "m = (p, v)" by (cases m)
  have "\<forall>m' \<in> set ms. accepts (put p v s) (fst m')"
  proof
    fix m' assume m': "m' \<in> set ms"
    with Cons.prems(1) m have "p \<noteq> fst m'" by (auto simp: rev_image_eqI)
    with m' Cons.prems(2,3) m show "accepts (put p v s) (fst m')"
      by (intro accepts_put) auto
  qed
  with Cons.prems m have "get (fold (\<lambda>(p, v). put p v) ms (put p v s)) = get (put p v s) ++ map_of ms"
    by (intro Cons.IH) auto
  moreover have "get (put p v s) = (get s)(p \<mapsto> v)"
    using Cons.prems(2) m by (auto simp: fun_eq_iff get_put)
  moreover have "p \<notin> dom (map_of ms)" using Cons.prems(1) m by (auto simp: dom_map_of_conv_image_fst)
  ultimately show ?case
    by (auto simp: m fun_eq_iff map_add_def dom_def split: option.splits)
qed simp

end

fun file_at :: "string list \<Rightarrow> entries \<Rightarrow> byte list option" where
  "file_at [] es = None"
| "file_at [n] es = (case map_of es n of Some (NFile _ _ b) \<Rightarrow> Some b | _ \<Rightarrow> None)"
| "file_at (d # ds) es = (case map_of es d of Some (NDir _ _ _ sub) \<Rightarrow> file_at ds sub | _ \<Rightarrow> None)"

definition accepts_at :: "bool \<Rightarrow> bool \<Rightarrow> entries \<Rightarrow> string list \<Rightarrow> bool" where
  "accepts_at w x es p \<longleftrightarrow> fst (put_file p [] w x es) = Done"

definition store_put :: "string list \<Rightarrow> byte list \<Rightarrow> entries \<Rightarrow> entries" where
  "store_put p b es = snd (put_file p b True True es)"

text \<open>Neither path runs through the other.\<close>

definition paths_apart :: "string list \<Rightarrow> string list \<Rightarrow> bool" where
  "paths_apart p q \<longleftrightarrow> \<not> strict_prefix p q \<and> \<not> strict_prefix q p"

lemma file_at_Nil [simp]: "file_at q [] = None"
  by (induction q "[] :: entries" rule: file_at.induct) simp_all

lemma put_file_result: "fst (put_file p b w x es) = fst (put_file p b' w x es)"
  by (induction p b w x es rule: put_file.induct)
    (auto split: option.splits node.splits prod.splits)

lemma accepts_at_iff: "accepts_at w x es p \<longleftrightarrow> fst (put_file p b w x es) = Done"
  using put_file_result [of p "[]" w x es b] by (simp add: accepts_at_def)

lemma file_at_put_file:
  "put_file p b w x es = (Done, es') \<Longrightarrow>
    file_at q es' = (if q = p then Some b else file_at q es)"
proof (induction p b w x es arbitrary: q es' rule: put_file.induct)
  case (2 n b w x es)
  then show ?case
    by (cases "(q, es)" rule: file_at.cases)
      (auto split: if_splits option.splits node.splits)
next
  case (3 d d' ds b w x es)
  show ?case
  proof (cases "map_of es d")
    case None
    with "3.prems" obtain sub where "w" "x" "put_file (d' # ds) b True True [] = (Done, sub)"
      and es': "es' = dict_put d (NDir True True True sub) es"
      by (auto split: if_splits prod.splits)
    with "3.IH"(1) [OF None] have "file_at q sub = (if q = d' # ds then Some b else None)" for q
      by simp
    with es' None show ?thesis
      by (cases "(q, es)" rule: file_at.cases) (auto split: option.splits node.splits)
  next
    case (Some t)
    with "3.prems" obtain r' w' x' sub sub' where t: "t = NDir r' w' x' sub" and "x"
      and "put_file (d' # ds) b w' x' sub = (Done, sub')"
      and es': "es' = dict_put d (NDir r' w' x' sub') es"
      by (auto split: if_splits prod.splits node.splits)
    with "3.IH"(2) [OF Some t] have "file_at q sub' = (if q = d' # ds then Some b else file_at q sub)" for q
      by simp
    with es' Some t show ?thesis
      by (cases "(q, es)" rule: file_at.cases) (auto split: option.splits node.splits)
  qed
qed simp

lemma accepts_at_simps [simp]:
  "\<not> accepts_at w x es []"
  "accepts_at w x es [n] \<longleftrightarrow> n \<noteq> [] \<and> n \<noteq> ''.'' \<and>
     (case map_of es n of None \<Rightarrow> w \<and> x | Some (NFile rd wr _) \<Rightarrow> x \<and> wr | _ \<Rightarrow> False)"
  "accepts_at w x es (d # d' # ds) \<longleftrightarrow>
     (case map_of es d of None \<Rightarrow> w \<and> x \<and> accepts_at True True [] (d' # ds)
      | Some (NDir _ w' x' sub) \<Rightarrow> x \<and> accepts_at w' x' sub (d' # ds)
      | _ \<Rightarrow> False)"
  by (auto simp: accepts_at_def split: option.splits node.splits prod.splits)

lemma paths_apart_Cons [simp]:
  "paths_apart (d # ds) (e # es) \<longleftrightarrow> d = e \<longrightarrow> paths_apart ds es"
  by (auto simp: paths_apart_def)

lemma accepts_at_put_file:
  "put_file p b w x es = (Done, es') \<Longrightarrow> accepts_at w x es q \<Longrightarrow> paths_apart p q \<Longrightarrow>
    accepts_at w x es' q"
proof (induction p b w x es arbitrary: q es' rule: put_file.induct)
  case (2 n b w x es)
  have "accepts_at w x (dict_put n (NFile rd wr b) es) q"
    if "wr" "accepts_at w x es q" for rd wr
    using that "2.prems"(1,3)
    by (cases "(q, es)" rule: file_at.cases) (auto simp: paths_apart_def split: option.splits node.splits if_splits)
  with "2.prems" show ?case
    by (auto split: if_splits option.splits node.splits)
next
  case (3 d d' ds b w x es)
  have step: "accepts_at w x (dict_put d (NDir r' w' x' sub') es) q"
    if "x" and sub: "\<And>q. accepts_at w' x' sub q \<Longrightarrow> paths_apart (d' # ds) q \<Longrightarrow> accepts_at w' x' sub' q"
      and look: "map_of es d = None \<and> w' \<and> x' \<and> sub = [] \<or> map_of es d = Some (NDir r' w' x' sub)"
    for r' w' x' sub sub'
  proof (cases "(q, es)" rule: file_at.cases)
    case (2 n _)
    with "3.prems"(2,3) look show ?thesis
      by (auto simp: paths_apart_def split: option.splits node.splits)
  next
    case (3 e e' fs _)
    show ?thesis
    proof (cases "e = d")
      case True
      with 3 "3.prems"(3) have "paths_apart (d' # ds) (e' # fs)" by simp
      with sub [of "e' # fs"] True 3 "3.prems"(2) look \<open>x\<close> show ?thesis by (auto simp del: paths_apart_Cons)
    next
      case False
      with 3 "3.prems"(2) show ?thesis by simp
    qed
  qed (use "3.prems" in simp)
  show ?case
  proof (cases "map_of es d")
    case None
    with "3.prems"(1) obtain sub where "x" "put_file (d' # ds) b True True [] = (Done, sub)"
      and es': "es' = dict_put d (NDir True True True sub) es" "w"
      by (auto split: if_splits prod.splits)
    with "3.IH"(1) [OF None] step [of True True "[]" sub True] None es' show ?thesis by blast
  next
    case (Some t)
    with "3.prems"(1) obtain r' w' x' sub sub' where t: "t = NDir r' w' x' sub" and "x"
      and "put_file (d' # ds) b w' x' sub = (Done, sub')"
      and es': "es' = dict_put d (NDir r' w' x' sub') es"
      by (auto split: if_splits prod.splits node.splits)
    with "3.IH"(2) [OF Some t] step [of w' x' sub sub' r'] Some es' show ?thesis by blast
  qed
qed simp

interpretation ws: file_store store_put "\<lambda>es p. file_at p es" "accepts_at True True" paths_apart
proof unfold_locales
  fix s p v q
  assume "accepts_at True True s p"
  then obtain s' where put: "put_file p v True True s = (Done, s')"
    by (metis accepts_at_iff prod.collapse)
  then show "file_at q (store_put p v s) = (if q = p then Some v else file_at q s)"
    by (auto simp: store_put_def file_at_put_file)
  assume "accepts_at True True s q" "paths_apart p q"
  with put show "accepts_at True True (store_put p v s) q"
    by (auto simp: store_put_def intro: accepts_at_put_file)
qed


section \<open>What an upload delivers\<close>

definition plain_name :: "string \<Rightarrow> bool" where
  "plain_name rel \<longleftrightarrow> (\<forall>p \<in> set (split_on (CHR ''/'') rel). p \<noteq> [] \<and> p \<noteq> ''.'' \<and> p \<noteq> ''..'')"

definition name_path :: "string \<Rightarrow> string list" where
  "name_path rel = split_on (CHR ''/'') rel"

text \<open>A set of files a workspace can take: plain names, each creatable, none below another.\<close>

definition uploadable :: "entries \<Rightarrow> (string, byte list) dict \<Rightarrow> bool" where
  "uploadable es fs \<longleftrightarrow> dict_ok fs \<and>
     (\<forall>m \<in> set fs. plain_name (fst m) \<and> accepts_at True True es (name_path (fst m))) \<and>
     (\<forall>m \<in> set fs. \<forall>m' \<in> set fs. fst m \<noteq> fst m' \<longrightarrow> paths_apart (name_path (fst m)) (name_path (fst m')))"

lemma name_path_inject [simp]: "name_path r = name_path r' \<longleftrightarrow> r = r'"
  by (metis join_with_split_on name_path_def)

lemma ws_path_plain: "plain_name rel \<Longrightarrow> ws_path rel = Some (name_path rel)"
proof -
  assume plain: "plain_name rel"
  let ?parts = "split_on (CHR ''/'') rel"
  have ne: "?parts \<noteq> []" by simp
  with plain have "hd ?parts \<noteq> []" "''..'' \<notin> set ?parts"
    by (auto simp: plain_name_def)
  moreover have "filter (\<lambda>p. p \<noteq> [] \<and> p \<noteq> ''.'') (butlast ?parts) = butlast ?parts"
    using plain by (intro filter_True) (auto simp: plain_name_def dest: in_set_butlastD)
  ultimately show ?thesis using ne by (simp add: ws_path_def name_path_def Let_def)
qed

lemma write_rel_plain:
  "plain_name rel \<Longrightarrow> accepts_at True True es (name_path rel) \<Longrightarrow>
    write_rel ct rel b es = (None, store_put (name_path rel) b es)"
  using accepts_at_iff [of True True es "name_path rel" b]
  by (cases "put_file (name_path rel) b True True es") (simp add: write_rel_def ws_path_plain store_put_def)

lemma upload_members_plain:
  "uploadable es fs \<Longrightarrow>
    upload_members ct (map (\<lambda>(rel, b). (rel, JStr (b64encode b))) fs) es =
      (None, fold (\<lambda>(p, b). store_put p b) (map (\<lambda>(rel, b). (name_path rel, b)) fs) es)"
proof (induction fs arbitrary: es)
  case (Cons m fs)
  obtain rel b where m: "m = (rel, b)" by (cases m)
  let ?es = "store_put (name_path rel) b es"
  from Cons.prems m have here: "plain_name rel" "accepts_at True True es (name_path rel)"
    by (auto simp: uploadable_def)
  have "accepts_at True True ?es (name_path (fst m'))" if "m' \<in> set fs" for m'
  proof (rule ws.accepts_put [OF here(2)])
    from Cons.prems m that have "fst m' \<noteq> rel" by (auto simp: uploadable_def dict_ok_def)
    with Cons.prems m that show "paths_apart (name_path rel) (name_path (fst m'))"
      by (auto simp: uploadable_def)
    show "accepts_at True True es (name_path (fst m'))"
      using Cons.prems that by (auto simp: uploadable_def)
  qed
  with Cons.prems have "uploadable ?es fs" by (auto simp: uploadable_def dict_ok_def)
  with Cons.IH write_rel_plain [OF here] show ?case
    by (simp add: m b64.round_trip)
qed simp

lemma fold_store_put:
  assumes "uploadable es fs"
  shows "file_at (name_path rel) (fold (\<lambda>(p, b). store_put p b) (map (\<lambda>(rel, b). (name_path rel, b)) fs) es)
    = (case map_of fs rel of Some b \<Rightarrow> Some b | None \<Rightarrow> file_at (name_path rel) es)"
proof -
  let ?ms = "map (\<lambda>(rel, b). (name_path rel, b)) fs"
  have look: "map_of ?ms (name_path rel) = map_of fs rel"
    by (induction fs) auto
  have "distinct (map fst ?ms)"
    using assms by (auto simp: uploadable_def dict_ok_def distinct_map o_def case_prod_beta inj_on_def)
  then have "(\<lambda>p. file_at p (fold (\<lambda>(p, b). store_put p b) ?ms es)) = (\<lambda>p. file_at p es) ++ map_of ?ms"
    using assms unfolding uploadable_def by (intro ws.get_put_all) (auto, metis fst_conv)
  then show ?thesis
    by (simp add: fun_eq_iff map_add_def look split: option.splits)
qed

lemma upload_payload_loads:
  "dict_ok fs \<Longrightarrow>
    json_loads (upload_payload fs) = Some (JObj (map (\<lambda>(rel, b). (rel, JStr (b64encode b))) fs))"
  unfolding upload_payload_def
  by (rule js.round_trip) (auto simp: dict_ok_def o_def case_prod_beta list_all_iff)

lemma uploader_runs:
  assumes "uploadable es fs" "\<forall>p \<in> set inp. p \<noteq> []" "concat inp = upload_frame fs"
    and "length (upload_payload fs) < 10 ^ 16"
  shows "uploader ct inp es =
    (None, fold (\<lambda>(p, b). store_put p b) (map (\<lambda>(rel, b). (name_path rel, b)) fs) es)"
proof -
  obtain inp' where "readn 16 [] inp = (dec16 (length (upload_payload fs)), inp')"
    and "fst (readn (length (upload_payload fs)) [] inp') = upload_payload fs"
    using readn_frame [OF assms(2) _ assms(4)] assms(3) by (auto simp: upload_frame_def)
  with assms(1) show ?thesis
    by (simp add: uploader_def py_int_dec16 upload_payload_loads upload_members_plain uploadable_def)
qed

text \<open>
  C14: an upload delivers: whatever pieces the framed payload arrives in, the uploader run in the
  worker stores exactly the bytes of every input file under its name and leaves every other file of the
  workspace as it was.
\<close>

theorem upload_delivers:
  assumes "uploadable es fs" "\<forall>p \<in> set inp. p \<noteq> []" "concat inp = upload_frame fs"
    and "length (upload_payload fs) < 10 ^ 16"
  shows "\<exists>es'. uploader ct inp es = (None, es') \<and>
    (\<forall>rel. file_at (name_path rel) es' =
      (case map_of fs rel of Some b \<Rightarrow> Some b | None \<Rightarrow> file_at (name_path rel) es))"
  using uploader_runs [OF assms, of ct] fold_store_put [OF assms(1)] by simp


section \<open>What the cleaner leaves\<close>

text \<open>
  The trees the owner can remove: every directory can be listed, and every directory that holds
  something can be changed.
\<close>

fun erasable :: "node \<Rightarrow> bool" and erasable_all :: "entries \<Rightarrow> bool" where
  "erasable (NDir r w x es) \<longleftrightarrow> r \<and> (es = [] \<or> w \<and> x \<and> erasable_all es)"
| "erasable _ \<longleftrightarrow> True"
| "erasable_all [] \<longleftrightarrow> True"
| "erasable_all ((n, t) # es) \<longleftrightarrow> erasable t \<and> erasable_all es"

lemma erasable_all_iff: "erasable_all es \<longleftrightarrow> (\<forall>e \<in> set es. erasable (snd e))"
  by (induction es) auto

lemma purge_empty:
  "(case purge_node x t of NDir r _ _ sub \<Rightarrow> x \<and> r \<and> sub = [] | _ \<Rightarrow> x) \<longleftrightarrow> x \<and> erasable t"
  "purge_entries w x es = [] \<longleftrightarrow> es = [] \<or> w \<and> x \<and> erasable_all es"
proof (induction x t and w x es rule: purge_node_purge_entries.induct)
  case (4 w x n t es)
  then show ?case by (auto split: node.splits)
qed auto

text \<open>
  C37: the cleaner empties the workspace exactly when the owner's permission bits allow it: every
  directory below is readable, and writable and searchable unless it is empty.
\<close>

theorem cleaner_empties:
  "snd (cleaner es) = [] \<longleftrightarrow> erasable_all es"
  by (cases es) (auto simp: cleaner_def purge_empty)

text \<open>
  The cleaner reports success all the same: a file in a directory that the previous run
  made read-only survives, with its content readable, behind the \<^verbatim>\<open>CLEAN_OK\<close> that lets the pool hand the
  worker on.
\<close>

lemma cleaner_hides_residue:
  "\<exists>es'. cleaner [(d, NDir True False True [(f, NFile True True b)])] = (''CLEAN_OK'' @ [CHR 0x0A], es') \<and>
    file_at [d, f] es' = Some b"
  by (simp add: cleaner_def)

end
