(* ===== verification/Collect.thy ===== *)
theory Collect
  imports Workspace
begin

text \<open>
  What the collector script of \<^verbatim>\<open>runner.py\<close> returns: never more than its cap, and on a workspace of
  plain files below the cap exactly the files that are there. What it returns can be uploaded into an
  empty workspace again.
\<close>

section \<open>What the collector returns\<close>


definition under_cap :: "int \<Rightarrow> collected \<Rightarrow> bool" where
  "under_cap maxb k \<longleftrightarrow> dict_ok (k_out k) \<and> int (total_size (k_out k)) \<le> k_total k \<and> (0 \<le> maxb \<longrightarrow> k_total k \<le> maxb)"

lemma under_cap_add: "under_cap maxb k \<Longrightarrow> under_cap maxb (collect_add ct es maxb rel k)"
proof -
  assume k: "under_cap maxb k"
  have "int (total_size (dict_put rel d (k_out k))) \<le> k_total k + int (length d)" for d :: "byte list"
    using total_size_put [of rel d "k_out k"] k by (simp add: under_cap_def)
  with k show ?thesis
    by (auto simp: collect_add_def under_cap_def split: option.splits)
qed

lemma under_cap_collector: "under_cap maxb (collector ct want maxb es)"
proof -
  have "under_cap maxb (fold (collect_add ct es maxb) rels k)" if "under_cap maxb k" for rels k
    using that by (induction rels arbitrary: k) (auto intro: under_cap_add)
  then show ?thesis by (simp add: collector_def under_cap_def dict_ok_def split: option.splits)
qed

text \<open>
  C20: the cap holds: whatever the workspace holds and whatever names are asked for, the collector
  returns at most \<^verbatim>\<open>max_collect_bytes\<close> of content.
\<close>

theorem collector_within_cap:
  assumes "0 \<le> maxb"
  shows "int (total_size (k_out (collector ct want maxb es))) \<le> maxb"
  using under_cap_collector [of maxb ct want es] assms by (auto simp: under_cap_def)

lemma fold_collect_under_cap:
  assumes "\<forall>rel \<in> set rels. read_rel ct rel es = Some (content rel)"
    and "k_total k + (\<Sum>rel \<leftarrow> rels. int (length (content rel))) \<le> maxb"
  shows "fold (collect_add ct es maxb) rels k =
    k\<lparr>k_total := k_total k + (\<Sum>rel \<leftarrow> rels. int (length (content rel))),
      k_out := dict_update (k_out k) (map (\<lambda>rel. (rel, content rel)) rels)\<rparr>"
  using assms
proof (induction rels arbitrary: k)
  case (Cons rel rels)
  have "0 \<le> (\<Sum>rel \<leftarrow> rels. int (length (content rel)))" by (rule sum_list_nonneg) auto
  with Cons.prems have "collect_add ct es maxb rel k =
      k\<lparr>k_total := k_total k + int (length (content rel)), k_out := dict_put rel (content rel) (k_out k)\<rparr>"
    by (simp add: collect_add_def)
  with Cons.IH [of "k\<lparr>k_total := k_total k + int (length (content rel)), k_out := dict_put rel (content rel) (k_out k)\<rparr>"]
    Cons.prems show ?case by (simp add: add.assoc)
qed simp

subsection \<open>Plain trees\<close>

text \<open>Trees without links whose directories and files the owner can read.\<close>

definition entry_name :: "string \<Rightarrow> bool" where
  "entry_name n \<longleftrightarrow> n \<noteq> [] \<and> n \<noteq> ''.'' \<and> n \<noteq> ''..'' \<and> CHR ''/'' \<notin> set n"

fun plain_node :: "node \<Rightarrow> bool" and plain_entries :: "entries \<Rightarrow> bool" where
  "plain_node (NFile rd wr b) \<longleftrightarrow> rd"
| "plain_node (NDir r w x es) \<longleftrightarrow> r \<and> x \<and> plain_entries es"
| "plain_node (NLink t) \<longleftrightarrow> False"
| "plain_entries [] \<longleftrightarrow> True"
| "plain_entries ((n, t) # es) \<longleftrightarrow> entry_name n \<and> n \<notin> fst ` set es \<and> plain_node t \<and> plain_entries es"

fun node_size :: "node \<Rightarrow> nat" and entries_size :: "entries \<Rightarrow> nat" where
  "node_size (NFile _ _ b) = length b"
| "node_size (NDir _ _ _ es) = entries_size es"
| "node_size (NLink _) = 0"
| "entries_size [] = 0"
| "entries_size ((n, t) # es) = node_size t + entries_size es"

text \<open>All files with their paths, directories after the files beside them.\<close>

fun tree_files :: "node \<Rightarrow> (string list \<times> byte list) list"
  and sub_files :: "entries \<Rightarrow> (string list \<times> byte list) list"
where
  "tree_files (NDir r w x es) =
     concat (map (\<lambda>(n, t). case t of NFile _ _ b \<Rightarrow> [([n], b)] | _ \<Rightarrow> []) es) @ sub_files es"
| "tree_files _ = []"
| "sub_files [] = []"
| "sub_files ((n, t) # es) = map (\<lambda>(p, b). (n # p, b)) (tree_files t) @ sub_files es"

lemma plain_entries_map_of:
  "plain_entries es \<Longrightarrow> map_of es n = Some t \<Longrightarrow> entry_name n \<and> plain_node t"
  by (induction es) (auto split: if_splits)

lemma is_dir_entry_simps [simp]:
  "\<not> is_dir_entry ct p (n, NFile r w b)" "is_dir_entry ct p (n, NDir r w x es)"
  by (simp_all add: is_dir_entry_def)

lemma walk_files:
  "plain_entries es \<Longrightarrow> map (\<lambda>e. rel_join (p @ [fst e])) (filter (\<lambda>e. \<not> is_dir_entry ct p e) es) =
    map (\<lambda>(q, _). rel_join (p @ q)) (concat (map (\<lambda>(n, t). case t of NFile _ _ b \<Rightarrow> [([n], b)] | _ \<Rightarrow> []) es))"
proof (induction es)
  case (Cons e es)
  obtain n t where "e = (n, t)" by (cases e)
  with Cons show ?case by (cases t) auto
qed simp

lemma walk_tree_files:
  "plain_node t \<Longrightarrow> walk_dir ct p True t = map (\<lambda>(q, _). rel_join (p @ q)) (tree_files t)"
  "plain_entries es \<Longrightarrow> walk_subs ct p True es = map (\<lambda>(q, _). rel_join (p @ q)) (sub_files es)"
proof (induction ct p "True" t and ct p "True" es rule: walk_dir_walk_subs.induct)
  case (1 ct p r w x es)
  then show ?case using walk_files [of es p ct] by auto
qed (auto simp: case_prod_beta o_def)

lemma plain_entries_distinct: "plain_entries es \<Longrightarrow> distinct (map fst es)"
  by (induction es) force+

lemma plain_entries_mem: "plain_entries es \<Longrightarrow> (n, t) \<in> set es \<longleftrightarrow> map_of es n = Some t"
  by (simp add: plain_entries_distinct)

lemma in_sub_files:
  "(p, b) \<in> set (sub_files es) \<longleftrightarrow> (\<exists>n t q. p = n # q \<and> (n, t) \<in> set es \<and> (q, b) \<in> set (tree_files t))"
proof (induction es)
  case (Cons e es)
  then show ?case by (cases e) auto
qed simp

lemma in_tree_files:
  "(p, b) \<in> set (tree_files (NDir r w x es)) \<longleftrightarrow>
    (\<exists>n rd wr. p = [n] \<and> (n, NFile rd wr b) \<in> set es) \<or> (p, b) \<in> set (sub_files es)"
proof -
  have "(p, b) \<in> set (concat (map (\<lambda>(n, t). case t of NFile _ _ b \<Rightarrow> [([n], b)] | _ \<Rightarrow> []) es)) \<longleftrightarrow>
      (\<exists>n rd wr. p = [n] \<and> (n, NFile rd wr b) \<in> set es)"
    by (fastforce split: node.splits)
  then show ?thesis by simp
qed

lemma tree_files_Nil: "([], b) \<notin> set (tree_files t)"
  by (cases t) (auto simp: in_tree_files in_sub_files simp del: tree_files.simps(1))

lemma tree_files_file_at:
  "plain_entries es \<Longrightarrow> (p, b) \<in> set (tree_files (NDir r w x es)) \<longleftrightarrow> file_at p es = Some b"
proof (induction p arbitrary: r w x es)
  case Nil
  then show ?case by (simp add: tree_files_Nil del: tree_files.simps)
next
  case (Cons n q)
  note mem = plain_entries_mem [OF Cons.prems]
  show ?case
  proof (cases q)
    case Nil
    then show ?thesis
      by (auto simp: in_tree_files in_sub_files mem tree_files_Nil simp del: tree_files.simps
          split: option.splits node.splits)
  next
    case (Cons m q')
    have "(q, b) \<in> set (tree_files t) \<longleftrightarrow> (\<exists>r w x sub. t = NDir r w x sub \<and> file_at q sub = Some b)"
      if "map_of es n = Some t" for t
      using plain_entries_map_of [OF Cons.prems that] Cons.IH by (cases t) auto
    with Cons show ?thesis
      by (auto simp: in_tree_files in_sub_files mem simp del: tree_files.simps
          split: option.splits node.splits)
  qed
qed

lemma file_at_names:
  "plain_entries es \<Longrightarrow> file_at p es = Some b \<Longrightarrow> p \<noteq> [] \<and> list_all entry_name p"
  by (induction p es rule: file_at.induct)
    (auto split: option.splits node.splits dest: plain_entries_map_of)

lemma entry_names_plain:
  "p \<noteq> [] \<Longrightarrow> list_all entry_name p \<Longrightarrow> name_path (rel_join p) = p \<and> plain_name (rel_join p)"
  by (auto simp: name_path_def plain_name_def rel_join_def list_all_iff entry_name_def split_on_join_with)

lemma file_at_get_file:
  "plain_entries es \<Longrightarrow> file_at p es = Some b \<Longrightarrow> get_file p True es = Some (Some b)"
proof (induction p es rule: file_at.induct)
  case (2 n es)
  then show ?case
    by (auto split: option.splits node.splits dest: plain_entries_map_of simp: entry_name_def)
next
  case (3 d d' ds es)
  then show ?case
    by (auto split: option.splits node.splits dest: plain_entries_map_of)
qed simp

lemma read_rel_file_at:
  "plain_entries es \<Longrightarrow> file_at p es = Some b \<Longrightarrow> read_rel ct (rel_join p) es = Some b"
  using file_at_names [of es p b] entry_names_plain [of p]
  by (simp add: read_rel_def ws_path_plain file_at_get_file)

lemma sum_tree_files:
  "(\<Sum>(p, b) \<leftarrow> tree_files t. length b) = (case t of NDir _ _ _ es \<Rightarrow> entries_size es | _ \<Rightarrow> 0)"
  "(\<Sum>(p, b) \<leftarrow> concat (map (\<lambda>(n, t). case t of NFile _ _ b \<Rightarrow> [([n], b)] | _ \<Rightarrow> []) es). length b)
    + (\<Sum>(p, b) \<leftarrow> sub_files es. length b) = entries_size es"
proof (induction t and es rule: tree_files_sub_files.induct)
  case (4 n t es)
  then show ?case by (cases t) (auto simp: case_prod_beta o_def)
qed auto

subsection \<open>The whole workspace\<close>

lemma map_of_dict_update_fun:
  "map_of (dict_update d (map (\<lambda>k. (k, c k)) ks)) = (\<lambda>k. if k \<in> set ks then Some (c k) else map_of d k)"
  by (induction ks arbitrary: d) (auto simp: fun_eq_iff)

lemma collector_all:
  assumes "plain_entries es" "int (entries_size es) \<le> maxb"
  shows "k_trunc (collector ct None maxb es) = []"
    and "map_of (k_out (collector ct None maxb es)) rel = file_at (name_path rel) es"
proof -
  define fs where "fs = tree_files (NDir True True True es)"
  define content where "content rel = the (file_at (name_path rel) es)" for rel
  let ?rels = "map (\<lambda>(p, _). rel_join p) fs"
  have walk: "walk_dir ct [] True (NDir True True True es) = ?rels"
    using walk_tree_files(1) [of "NDir True True True es" ct "[]"] assms(1) by (simp add: fs_def)
  have mem: "(p, b) \<in> set fs \<longleftrightarrow> file_at p es = Some b" for p b
    unfolding fs_def by (rule tree_files_file_at [OF assms(1)])
  have content: "content (rel_join p) = b" "read_rel ct (rel_join p) es = Some b"
    "name_path (rel_join p) = p" if "(p, b) \<in> set fs" for p b
    using that mem read_rel_file_at [OF assms(1)] file_at_names [OF assms(1)] entry_names_plain [of p]
    by (auto simp: content_def)
  then have reads: "\<forall>rel \<in> set ?rels. read_rel ct rel es = Some (content rel)" by force
  have "(\<Sum>rel \<leftarrow> ?rels. int (length (content rel))) = (\<Sum>(p, b) \<leftarrow> fs. int (length b))"
    using content(1) by (auto simp: o_def case_prod_beta intro!: arg_cong [of _ _ sum_list] map_cong)
  also have "\<dots> = int (\<Sum>(p, b) \<leftarrow> fs. length b)"
    by (induction fs) auto
  also have "\<dots> = int (entries_size es)"
    using sum_tree_files(1) [of "NDir True True True es"] by (simp add: fs_def del: tree_files.simps)
  finally have total: "0 + (\<Sum>rel \<leftarrow> ?rels. int (length (content rel))) \<le> maxb" using assms(2) by simp
  have run: "collector ct None maxb es = \<lparr>k_out = dict_update [] (map (\<lambda>rel. (rel, content rel)) ?rels),
      k_trunc = [], k_total = (\<Sum>rel \<leftarrow> ?rels. int (length (content rel)))\<rparr>"
    using fold_collect_under_cap [OF reads, of "\<lparr>k_out = [], k_trunc = [], k_total = 0\<rparr>" maxb] total
    by (simp add: collector_def walk del: walk_dir.simps)
  then show "k_trunc (collector ct None maxb es) = []" by simp
  have "rel \<in> set ?rels \<longleftrightarrow> file_at (name_path rel) es \<noteq> None"
  proof
    assume "rel \<in> set ?rels"
    then show "file_at (name_path rel) es \<noteq> None" using content(3) mem by force
  next
    assume "file_at (name_path rel) es \<noteq> None"
    then obtain b where "(name_path rel, b) \<in> set fs" using mem by auto
    moreover have "rel_join (name_path rel) = rel" by (simp add: rel_join_def name_path_def)
    ultimately show "rel \<in> set ?rels" by force
  qed
  then show "map_of (k_out (collector ct None maxb es)) rel = file_at (name_path rel) es"
    unfolding run collected.simps map_of_dict_update_fun by (auto simp: content_def simp del: set_map)
qed

text \<open>
  C19: \<^verbatim>\<open>collect=True\<close> is complete and exact: on a workspace of readable files and directories without
  links whose total is within the cap, nothing is truncated and the returned map has, under every relative
  name, exactly the bytes of the file of that name.
\<close>

theorem collector_exact:
  assumes "plain_entries es" "int (entries_size es) \<le> maxb"
  shows "k_trunc (collector ct None maxb es) = [] \<and>
    (\<forall>rel. map_of (k_out (collector ct None maxb es)) rel = file_at (name_path rel) es)"
  using collector_all [OF assms] by blast

lemma accepts_at_empty: "p \<noteq> [] \<Longrightarrow> list_all entry_name p \<Longrightarrow> accepts_at True True [] p"
proof (induction p)
  case (Cons d ds)
  then show ?case by (cases ds) (auto simp: entry_name_def)
qed simp

lemma file_at_apart:
  "file_at p es \<noteq> None \<Longrightarrow> file_at q es \<noteq> None \<Longrightarrow> paths_apart p q"
proof -
  have "zs \<noteq> [] \<Longrightarrow> file_at p es \<noteq> None \<Longrightarrow> file_at (p @ zs) es = None" for p zs
  proof (induction p es rule: file_at.induct)
    case (2 n es)
    then show ?case by (cases zs) (auto split: option.splits node.splits)
  qed (auto split: option.splits node.splits)
  then have "strict_prefix p q \<Longrightarrow> file_at p es \<noteq> None \<Longrightarrow> file_at q es = None" for p q
    by (metis append_Nil2 prefix_def strict_prefix_def)
  then show "file_at p es \<noteq> None \<Longrightarrow> file_at q es \<noteq> None \<Longrightarrow> paths_apart p q"
    by (auto simp: paths_apart_def)
qed

section \<open>Reading the reply\<close>

text \<open>\<^verbatim>\<open>{k: base64.b64decode(v) for k, v in ms}\<close>.\<close>

fun decode_files :: "(string \<times> json) list \<Rightarrow> exn + (string, byte list) dict" where
  "decode_files [] = Inr []"
| "decode_files ((k, v) # ms) =
     (case v of
        JStr s \<Rightarrow>
          (case b64decode s of
             None \<Rightarrow> Inl (ValueErr ''base64'')
           | Some b \<Rightarrow> (case decode_files ms of Inl e \<Rightarrow> Inl e | Inr d \<Rightarrow> Inr ((k, b) # d)))
      | _ \<Rightarrow> Inl TypeErr)"

text \<open>
  The part of \<^verbatim>\<open>_collect\<close> after the exec: the exit code and stdout of the collector to the files and the
  skipped names, and what is raised when the document is not an object of an object.
\<close>

definition collect_reply :: "int \<Rightarrow> string \<Rightarrow> exn + (string, byte list) dict \<times> json list" where
  "collect_reply ec out =
     (if ec \<noteq> 0 \<or> py_strip out = [] then Inr ([], [])
      else (case json_loads out of
          None \<Rightarrow> Inr ([], [])
        | Some (JObj ob) \<Rightarrow>
            (case dict_get ob ''files'' (JObj []) of
               JObj ms \<Rightarrow>
                 (case decode_files ms of
                    Inl _ \<Rightarrow> Inr ([], [])
                  | Inr fs \<Rightarrow>
                      (case py_iter (dict_get ob ''trunc'' (JArr [])) of
                         Inl _ \<Rightarrow> Inr ([], [])
                       | Inr ns \<Rightarrow> Inr (fs, ns)))
             | _ \<Rightarrow> Inl AttributeErr)
        | Some _ \<Rightarrow> Inl AttributeErr))"

definition files_json :: "(string, byte list) dict \<Rightarrow> json" where
  "files_json fs = JObj (map (\<lambda>(rel, b). (rel, JStr (b64encode b))) fs)"

definition json_files :: "json \<Rightarrow> (string, byte list) dict option" where
  "json_files j = (case j of JObj ms \<Rightarrow> (case decode_files ms of Inl _ \<Rightarrow> None | Inr fs \<Rightarrow> Some fs) | _ \<Rightarrow> None)"

lemma decode_files_encode [simp]:
  "decode_files (map (\<lambda>(rel, b). (rel, JStr (b64encode b))) fs) = Inr fs"
  by (induction fs) (auto simp: b64.round_trip)

lemma printable_files: "dict_ok fs \<Longrightarrow> printable (files_json fs)"
  by (auto simp: files_json_def dict_ok_def o_def case_prod_beta list_all_iff)

text \<open>A file map travels as base64 inside JSON, in both directions.\<close>

interpretation file_map: codec_chain files_json json_files dict_ok json_dumps json_loads printable
proof unfold_locales
  show "json_files (files_json fs) = Some fs" for fs by (simp add: json_files_def files_json_def)
qed (rule printable_files)

lemma reply_of_collector:
  "collect_reply 0 (collector_output (collector ct want maxb es)) =
    Inr (k_out (collector ct want maxb es), map JStr (k_trunc (collector ct want maxb es)))"
proof -
  define k where "k = collector ct want maxb es"
  have ok: "dict_ok (k_out k)" using under_cap_collector [of maxb ct want es] by (simp add: k_def under_cap_def)
  let ?doc = "JObj [(''files'', files_json (k_out k)), (''trunc'', JArr (map JStr (k_trunc k)))]"
  have "printable ?doc"
    using printable_files [OF ok] by (auto simp: dict_ok_def list_all_iff)
  then have "json_loads (json_dumps ?doc) = Some ?doc" by (rule js.round_trip)
  moreover have "py_strip (json_dumps ?doc) \<noteq> []"
  proof -
    have "hd (json_dumps ?doc) = CHR ''{''" "json_dumps ?doc \<noteq> []" by simp_all
    then show ?thesis by (cases "json_dumps ?doc") (auto simp: py_strip_def dropWhile_eq_Nil_conv is_space_def)
  qed
  ultimately show ?thesis
    by (simp add: collect_reply_def collector_output_def dict_get_def files_json_def flip: k_def del: json_dumps.simps)
qed

text \<open>
  The caller gets what the collector read: the reply, printed as JSON with base64 contents in the
  worker, is read back by \<^verbatim>\<open>_collect\<close> as exactly the collected files and the names skipped for size.
\<close>

lemma collect_reply_exact:
  "collect_reply 0 (collector_output (collector ct want maxb es)) =
    Inr (k_out (collector ct want maxb es), map JStr (k_trunc (collector ct want maxb es)))"
  by (rule reply_of_collector)

lemma collected_uploadable:
  assumes "plain_entries es" "int (entries_size es) \<le> maxb"
  shows "uploadable [] (k_out (collector ct None maxb es))"
proof -
  let ?out = "k_out (collector ct None maxb es)"
  have found: "file_at (name_path (fst m)) es \<noteq> None" if "m \<in> set ?out" for m
    using that collector_all(2) [OF assms] by (metis map_of_eq_None_iff image_eqI)
  have named: "name_path (fst m) \<noteq> [] \<and> list_all entry_name (name_path (fst m))" if "m \<in> set ?out" for m
    using found [OF that] file_at_names [OF assms(1)] by blast
  have "plain_name (fst m)" if "m \<in> set ?out" for m
    using named [OF that] entry_names_plain [of "name_path (fst m)"]
    by (simp add: rel_join_def name_path_def)
  moreover have "dict_ok ?out" using under_cap_collector [of maxb ct None es] by (simp add: under_cap_def)
  ultimately show ?thesis
    unfolding uploadable_def using found named accepts_at_empty file_at_apart by metis
qed

text \<open>
  What a workspace gave back can be put into an empty one: uploading the collected map leaves, under
  every relative name, exactly the file the first workspace had there.
\<close>

lemma collect_upload_same_files:
  assumes "plain_entries es" "int (entries_size es) \<le> maxb"
    and "\<forall>p \<in> set inp. p \<noteq> []" "concat inp = upload_frame (k_out (collector ct None maxb es))"
    and "length (upload_payload (k_out (collector ct None maxb es))) < 10 ^ 16"
  shows "\<exists>es'. uploader ct' inp [] = (None, es') \<and>
    (\<forall>rel. file_at (name_path rel) es' = file_at (name_path rel) es)"
proof -
  note up = collected_uploadable [OF assms(1,2), of ct]
  from uploader_runs [OF up assms(3-5), of ct'] fold_store_put [OF up] collector_all(2) [OF assms(1,2), of ct]
  show ?thesis by (auto split: option.splits)
qed

section \<open>Concrete workspaces\<close>

definition no_links :: container where
  "no_links = \<lparr>o_read = \<lambda>_ _. None, o_write = \<lambda>_ _ es. (Some OsErr, es), o_is_dir = \<lambda>_. False\<rparr>"

definition demo_tree :: entries where
  "demo_tree = [(''keep'', NFile True True [7]), (''out'', NDir True True True [(''r.csv'', NFile True False [49, 44])])]"

lemma payload_short: "length (upload_frame fs) < 10 ^ 16 \<Longrightarrow> length (upload_payload fs) < 10 ^ 16"
  by (simp add: upload_frame_def frame_payload_def)

lemma demo_frame: "upload_frame [(''src/a'', [1, 2, 3])] = ''0000000000000017{\"src/a\": \"AQID\"}''"
  by code_simp

theorem upload_delivers_witness:
  "\<exists>es'. uploader no_links [''0000'', ''000000000017{\"src/'', ''a\": \"AQID\"}''] demo_tree = (None, es') \<and>
    (\<forall>rel. file_at (name_path rel) es' =
      (case map_of [(''src/a'', [1, 2, 3])] rel of Some b \<Rightarrow> Some b | None \<Rightarrow> file_at (name_path rel) demo_tree))"
proof (rule upload_delivers)
  show "uploadable demo_tree [(''src/a'', [1, 2, 3])]" by code_simp
  show "length (upload_payload [(''src/a'', [1, 2, 3])]) < 10 ^ 16" by (rule payload_short) (simp add: demo_frame)
qed (simp_all add: demo_frame)

theorem collector_within_cap_witness:
  "int (total_size (k_out (collector no_links (Some [''out/r.csv'', ''keep'']) 2 demo_tree))) \<le> 2"
  by (rule collector_within_cap) simp

theorem collector_exact_witness:
  "k_trunc (collector no_links None 3 demo_tree) = [] \<and>
    (\<forall>rel. map_of (k_out (collector no_links None 3 demo_tree)) rel = file_at (name_path rel) demo_tree)"
  by (rule collector_exact) (simp_all add: demo_tree_def entry_name_def)

lemma demo_collected: "k_out (collector no_links None 3 demo_tree) = [(''keep'', [7]), (''out/r.csv'', [49, 44])]"
  by code_simp

lemma demo_collected_frame:
  "upload_frame [(''keep'', [7]), (''out/r.csv'', [49, 44])] =
    ''0000000000000037{\"keep\": \"Bw==\", \"out/r.csv\": \"MSw=\"}''"
  by code_simp

lemma collect_upload_same_files_example:
  "\<exists>es'. uploader no_links [''0000000000000037{\"keep\": \"Bw==\"'', '', \"out/r.csv\": \"MSw=\"}''] [] = (None, es') \<and>
    (\<forall>rel. file_at (name_path rel) es' = file_at (name_path rel) demo_tree)"
proof (rule collect_upload_same_files [where ct = no_links and maxb = 3])
  show "length (upload_payload (k_out (collector no_links None 3 demo_tree))) < 10 ^ 16"
    unfolding demo_collected by (rule payload_short) (simp add: demo_collected_frame)
qed (simp_all add: demo_tree_def entry_name_def demo_collected [unfolded demo_tree_def] demo_collected_frame)

end
