(* ===== verification/PodSpec.thy ===== *)
theory PodSpec
  imports Config
begin

text \<open>
  \<^verbatim>\<open>_pod.py\<close> and \<^verbatim>\<open>SandboxPool._ensure_network_policy\<close>: the worker pod and the egress policy the library
  asks Kubernetes for, as the objects it builds, and the idle watchdog that runs as the worker's
  main process. What Kubernetes does with the objects is not modelled, except for the matching of egress
  rules, whose documented meaning is written out in \<open>egress_allowed\<close>.
\<close>

section \<open>The worker's main process\<close>

datatype worker_command = SleepInfinity | IdleWatchdog rat rat  \<comment> \<open>ttl, poll\<close>

definition worker_command_of :: "sandbox_config \<Rightarrow> worker_command" where
  "worker_command_of cfg =
     (case idle_shutdown_s cfg of
        None \<Rightarrow> SleepInfinity
      | Some ttl \<Rightarrow> IdleWatchdog ttl (max 1 (min 30 (ttl / 4))))"

text \<open>
  One round of the watchdog: the names listed in \<^verbatim>\<open>/proc\<close> and the clock read after it. The result is the
  moment of the last activity, or \<open>None\<close> for the \<^verbatim>\<open>break\<close>.
\<close>

definition proc_active :: "string list \<Rightarrow> bool" where
  "proc_active names \<longleftrightarrow> (\<exists>e \<in> set names. e \<noteq> [] \<and> list_all is_digit e \<and> e \<noteq> ''1'')"

definition watch_round :: "rat \<Rightarrow> rat \<Rightarrow> string list \<Rightarrow> rat \<Rightarrow> rat option" where
  "watch_round ttl lst names now =
     (if proc_active names then Some now
      else if now - lst \<ge> ttl then None
      else Some lst)"

text \<open>The loop over the rounds that happen: still running with its last activity, or exited.\<close>

fun watchdog :: "rat \<Rightarrow> rat \<Rightarrow> (string list \<times> rat) list \<Rightarrow> rat option" where
  "watchdog ttl lst [] = Some lst"
| "watchdog ttl lst ((names, now) # rounds) =
     (case watch_round ttl lst names now of None \<Rightarrow> None | Some lst' \<Rightarrow> watchdog ttl lst' rounds)"

section \<open>The pod\<close>

record security_context =
  run_as_non_root :: bool
  sc_run_as_user :: int
  sc_run_as_group :: int
  allow_privilege_escalation :: bool
  sc_read_only_root :: bool
  drop_capabilities :: "string list option"

record container_spec =
  ctr_name :: string
  ctr_image :: string
  ctr_command :: worker_command
  ctr_pull_policy :: string
  working_dir :: string
  security :: security_context
  requests :: "(string \<times> string) list"
  limits :: "(string \<times> string) list"
  volume_mounts :: "(string \<times> string) list"
  ctr_env :: "(string \<times> string) list"

record pod_spec =
  pod_name :: string
  pod_labels :: "(string \<times> string) list"
  restart_policy :: string
  termination_grace_s :: int
  automount_token :: bool
  runtime_class_name :: "string option"
  seccomp_profile :: "string option"
  empty_dir_volumes :: "string list"
  containers :: "container_spec list"

definition worker_role :: string where
  "worker_role = ''worker''"

text \<open>A Python truth test: \<open>None\<close> and the empty string are false.\<close>

fun proxy_url :: "string option \<Rightarrow> string option" where
  "proxy_url None = None"
| "proxy_url (Some u) = (if u = [] then None else Some u)"

definition build_worker_pod :: "sandbox_config \<Rightarrow> string \<Rightarrow> pod_spec" where
  "build_worker_pod cfg nm = \<lparr>
     pod_name = nm,
     pod_labels = [(''app'', app_label cfg), (''role'', worker_role)],
     restart_policy = ''Never'',
     termination_grace_s = 2,
     automount_token = automount_service_account_token cfg,
     runtime_class_name = runtime_class cfg,
     seccomp_profile = (if seccomp_runtime_default cfg then Some ''RuntimeDefault'' else None),
     empty_dir_volumes = [''scratch''],
     containers = [\<lparr>
       ctr_name = ''runner'',
       ctr_image = image_ref cfg,
       ctr_command = worker_command_of cfg,
       ctr_pull_policy = image_pull_policy cfg,
       working_dir = scratch_dir cfg,
       security = \<lparr>
         run_as_non_root = True,
         sc_run_as_user = run_as_user cfg,
         sc_run_as_group = run_as_group cfg,
         allow_privilege_escalation = False,
         sc_read_only_root = read_only_root_filesystem cfg,
         drop_capabilities = (if drop_all_capabilities cfg then Some [''ALL''] else None)\<rparr>,
       requests = [(''cpu'', cpu_request cfg), (''memory'', memory_request cfg)],
       limits = [(''cpu'', cpu_limit cfg), (''memory'', memory_limit cfg)],
       volume_mounts = [(''scratch'', scratch_dir cfg)],
       ctr_env = (''TMPDIR'', scratch_dir cfg) #
         (case proxy_url (egress_proxy cfg) of
            None \<Rightarrow> []
          | Some u \<Rightarrow> [(''HTTPS_PROXY'', u), (''HTTP_PROXY'', u),
                       (''NO_PROXY'', ''localhost,127.0.0.1,.svc,.cluster.local'')])\<rparr>]\<rparr>"

section \<open>The egress policy\<close>

datatype protocol = UDP | TCP

record egress_rule =
  to_labels :: "(string \<times> string) list option"  \<comment> \<open>pods of the same namespace; \<open>None\<close>: anywhere\<close>
  to_ports :: "(protocol \<times> nat) list"

record network_policy =
  np_name :: string
  np_namespace :: string
  np_selector :: "(string \<times> string) list"
  np_types :: "string list"
  np_egress :: "egress_rule list"

definition egress_policy :: "sandbox_config \<Rightarrow> network_policy" where
  "egress_policy cfg = \<lparr>
     np_name = app_label cfg @ ''-deny-egress'',
     np_namespace = namespace cfg,
     np_selector = [(''app'', app_label cfg)],
     np_types = [''Egress''],
     np_egress = \<lparr>to_labels = None, to_ports = [(UDP, 53), (TCP, 53)]\<rparr> #
       (case proxy_url (egress_proxy cfg) of
          None \<Rightarrow> []
        | Some _ \<Rightarrow> [\<lparr>to_labels = Some [(''app'', egress_proxy_label cfg)], to_ports = [(TCP, 3128)]\<rparr>])\<rparr>"

text \<open>
  The meaning Kubernetes documents: a label selector matches when every listed label is there, and an
  outgoing connection of a selected pod is allowed when some rule lists its destination and its port. The
  destination is the labels of a pod of the policy's namespace, or \<open>None\<close> for any other address.
\<close>

definition selects :: "(string \<times> string) list \<Rightarrow> (string \<times> string) list \<Rightarrow> bool" where
  "selects sel labels \<longleftrightarrow> (\<forall>kv \<in> set sel. map_of labels (fst kv) = Some (snd kv))"

definition egress_allowed :: "network_policy \<Rightarrow> (string \<times> string) list option \<Rightarrow> protocol \<Rightarrow> nat \<Rightarrow> bool" where
  "egress_allowed np dest proto port \<longleftrightarrow>
     (\<exists>rl \<in> set (np_egress np). (proto, port) \<in> set (to_ports rl) \<and>
        (case to_labels rl of
           None \<Rightarrow> True
         | Some sel \<Rightarrow> (case dest of None \<Rightarrow> False | Some labels \<Rightarrow> selects sel labels)))"

section \<open>The watchdog\<close>

lemma watchdog_append:
  "watchdog ttl lst (rs @ qs) =
    (case watchdog ttl lst rs of None \<Rightarrow> None | Some lst' \<Rightarrow> watchdog ttl lst' qs)"
  by (induction ttl lst rs rule: watchdog.induct) (auto split: option.splits)

lemma watchdog_idle:
  "\<forall>r \<in> set rs. \<not> proc_active (fst r) \<and> snd r - lst < ttl \<Longrightarrow> watchdog ttl lst rs = Some lst"
  by (induction rs) (auto simp: watch_round_def)

lemma watchdog_exit_idle:
  "\<forall>r \<in> set rs. \<not> proc_active (fst r) \<Longrightarrow> r \<in> set rs \<Longrightarrow> snd r - lst \<ge> ttl \<Longrightarrow> watchdog ttl lst rs = None"
  by (induction rs) (auto simp: watch_round_def)


text \<open>
  An orphan stops itself: once nothing but the watchdog has run, its first round at or after the
  idle limit ends it, whatever the rounds before looked like.
\<close>

lemma watchdog_stops_orphan:
  assumes "watchdog ttl started_at before = Some lst"
    and "\<forall>r \<in> set idle. \<not> proc_active (fst r)" "r \<in> set idle" "lst + ttl \<le> snd r"
  shows "watchdog ttl started_at (before @ idle) = None"
  using assms watchdog_exit_idle [of idle r ttl lst] by (simp add: watchdog_append)

section \<open>What the pod promises\<close>

text \<open>
  The default configuration gives a hardened pod: not root, no privilege escalation, read-only root
  file system, every capability dropped, no service-account token, seccomp RuntimeDefault, CPU and
  memory limits, one writable volume, the working directory, and a pod that Kubernetes never restarts.
\<close>

lemma default_pod_hardened:
  "\<exists>c. containers (build_worker_pod default_config nm) = [c] \<and>
     run_as_non_root (security c) \<and> sc_run_as_user (security c) \<noteq> 0 \<and>
     \<not> allow_privilege_escalation (security c) \<and> sc_read_only_root (security c) \<and>
     drop_capabilities (security c) = Some [''ALL''] \<and>
     \<not> automount_token (build_worker_pod default_config nm) \<and>
     seccomp_profile (build_worker_pod default_config nm) = Some ''RuntimeDefault'' \<and>
     map fst (limits c) = [''cpu'', ''memory''] \<and> map fst (requests c) = map fst (limits c) \<and>
     volume_mounts c = [(''scratch'', working_dir c)] \<and>
     restart_policy (build_worker_pod default_config nm) = ''Never'' \<and>
     ctr_command c = IdleWatchdog 1800 30"
  by (simp add: build_worker_pod_def default_config_def worker_command_of_def)

text \<open>
  C38: the egress policy applies to every worker of the pool and lets out exactly name lookups (port 53,
  whatever the destination) and, if a proxy is configured, TCP connections to port 3128 of pods of the
  namespace that carry the proxy's label.
\<close>

theorem egress_exactly:
  "selects (np_selector (egress_policy cfg)) (pod_labels (build_worker_pod cfg nm)) \<and>
   np_types (egress_policy cfg) = [''Egress''] \<and>
   (egress_allowed (egress_policy cfg) dest proto port \<longleftrightarrow>
      port = 53 \<or> proxy_url (egress_proxy cfg) \<noteq> None \<and> proto = TCP \<and> port = 3128 \<and>
        (\<exists>labels. dest = Some labels \<and> map_of labels ''app'' = Some (egress_proxy_label cfg)))"
proof -
  have "(proto, 53) \<in> {(UDP, 53 :: nat), (TCP, 53)}" by (cases proto) auto
  then show ?thesis
    by (cases "proxy_url (egress_proxy cfg)") (auto simp: egress_policy_def build_worker_pod_def egress_allowed_def selects_def split: option.splits)
qed

text \<open>
  The worker polls often enough to stop in time: the watchdog's poll interval is between one and
  thirty seconds, and at most a quarter of an idle limit of four seconds or more.
\<close>

lemma watchdog_poll_bounds:
  assumes "worker_command_of cfg = IdleWatchdog ttl poll"
  shows "idle_shutdown_s cfg = Some ttl \<and> 1 \<le> poll \<and> poll \<le> 30 \<and> (4 \<le> ttl \<longrightarrow> 4 * poll \<le> ttl)"
  using assms by (auto simp: worker_command_of_def max_def min_def split: option.splits)

section \<open>Concrete rounds\<close>


lemma watchdog_stops_orphan_example:
  "watchdog 10 0 ([([''1'', ''7''], 5)] @ [([''1''], 12), ([''1'', ''stat''], 15)]) = None"
  by (rule watchdog_stops_orphan [where lst = 5 and r = "([''1'', ''stat''], 15)"])
    (auto simp: proc_active_def is_digit_def watch_round_def)

lemma watchdog_poll_bounds_example:
  "idle_shutdown_s default_config = Some 1800 \<and> (1::rat) \<le> 30 \<and> 4 * 30 \<le> (1800::rat)"
  using watchdog_poll_bounds [of default_config 1800 30] by (simp add: worker_command_of_def default_config_def)

end
