(* ===== verification/Project.thy ===== *)
theory Project
  imports Collect "HOL-Library.List_Lexorder" "HOL-Library.Char_ord"
begin

text \<open>
  Reading a project directory of the host (\<^verbatim>\<open>_excluded\<close> and \<^verbatim>\<open>_read_project_tree\<close> of \<^verbatim>\<open>runner.py\<close>): the
  patterns of \<^verbatim>\<open>fnmatch\<close>, the pruned walk in sorted order and the size cap. The host directory is a finite
  tree; a symbolic link carries what it resolves to, so a cycle of followed links is not modelled.
\<close>

section \<open>Patterns\<close>

datatype pat = Star | AnyChar | Lit char | OneOf bool "(char \<times> char) list"

text \<open>The items of a set: ranges \<^verbatim>\<open>x-y\<close> and single characters.\<close>

fun set_items :: "string \<Rightarrow> (char \<times> char) list" where
  "set_items [] = []"
| "set_items [x] = [(x, x)]"
| "set_items [x, y] = [(x, x), (y, y)]"
| "set_items (x # y # z # s) =
     (if y = CHR ''-'' then (x, z) # set_items s else (x, x) # set_items (y # z # s))"

text \<open>What follows an opening bracket: negated, the text of the set, the rest of the pattern.\<close>

definition bracket_negated :: "string \<Rightarrow> bool" where
  "bracket_negated p \<longleftrightarrow> p \<noteq> [] \<and> hd p = CHR ''!''"

definition bracket_body :: "string \<Rightarrow> string" where
  "bracket_body p = (if bracket_negated p then tl p else p)"

definition bracket_lead :: "string \<Rightarrow> nat" where
  "bracket_lead q = (if q \<noteq> [] \<and> hd q = CHR '']'' then 1 else 0)"

definition split_set :: "string \<Rightarrow> (bool \<times> string \<times> string) option" where
  "split_set p =
     (let q = bracket_body p;
          k = bracket_lead q;
          rest = dropWhile (\<lambda>c. c \<noteq> CHR '']'') (drop k q)
      in if rest = [] then None
         else Some (bracket_negated p, take k q @ takeWhile (\<lambda>c. c \<noteq> CHR '']'') (drop k q), tl rest))"

lemma split_set_shorter: "split_set p = Some (neg, body, rest) \<Longrightarrow> length rest < Suc (length p)"
proof -
  assume "split_set p = Some (neg, body, rest)"
  then have rest: "rest = tl (dropWhile (\<lambda>c. c \<noteq> CHR '']'') (drop (bracket_lead (bracket_body p)) (bracket_body p)))"
    by (simp add: split_set_def Let_def split: if_splits)
  have "length (bracket_body p) \<le> length p" by (simp add: bracket_body_def)
  with length_dropWhile_le [of "\<lambda>c. c \<noteq> CHR '']''" "drop (bracket_lead (bracket_body p)) (bracket_body p)"]
  show ?thesis by (simp add: rest)
qed

function compile_pat :: "string \<Rightarrow> pat list" where
  "compile_pat [] = []"
| "compile_pat (c # p) =
     (if c = CHR ''*'' then Star # compile_pat p
      else if c = CHR ''?'' then AnyChar # compile_pat p
      else if c = CHR ''['' then
        (case split_set p of
           None \<Rightarrow> Lit c # compile_pat p
         | Some (neg, body, rest) \<Rightarrow> OneOf neg (set_items body) # compile_pat rest)
      else Lit c # compile_pat p)"
  by pat_completeness auto
termination
  by (relation "measure length") (auto dest: split_set_shorter)

fun pat_match :: "pat list \<Rightarrow> string \<Rightarrow> bool" where
  "pat_match [] s \<longleftrightarrow> s = []"
| "pat_match (Star # ps) [] \<longleftrightarrow> pat_match ps []"
| "pat_match (Star # ps) (c # s) \<longleftrightarrow> pat_match ps (c # s) \<or> pat_match (Star # ps) s"
| "pat_match (p # ps) [] \<longleftrightarrow> False"
| "pat_match (AnyChar # ps) (c # s) \<longleftrightarrow> pat_match ps s"
| "pat_match (Lit x # ps) (c # s) \<longleftrightarrow> x = c \<and> pat_match ps s"
| "pat_match (OneOf neg its # ps) (c # s) \<longleftrightarrow>
     (\<exists>(lo, hi) \<in> set its. lo \<le> c \<and> c \<le> hi) \<noteq> neg \<and> pat_match ps s"

definition fnmatch :: "string \<Rightarrow> string \<Rightarrow> bool" where
  "fnmatch nm p \<longleftrightarrow> pat_match (compile_pat p) nm"

definition excluded :: "string \<Rightarrow> string list \<Rightarrow> bool" where
  "excluded nm patterns \<longleftrightarrow> list_ex (fnmatch nm) patterns"

definition default_project_excludes :: "string list" where
  "default_project_excludes =
     [''__pycache__'', ''*.pyc'', ''*.pyo'', ''*.egg-info'',
      ''.git'', ''.hg'', ''.svn'',
      ''.venv'', ''venv'', ''env'', ''node_modules'',
      ''.mypy_cache'', ''.pytest_cache'', ''.ruff_cache'', ''.tox'',
      ''.DS_Store'', ''.ipynb_checkpoints'']"

section \<open>The host directory\<close>

datatype host =
    HFile bool "byte list"  \<comment> \<open>readable, content\<close>
  | HDir bool "(string \<times> host) list"  \<comment> \<open>can be listed, entries\<close>
  | HSpecial  \<comment> \<open>a fifo, socket or device\<close>
  | HLink "host option"  \<comment> \<open>what it resolves to, if anything\<close>

text \<open>What following every link to its end gives.\<close>

fun resolved :: "host \<Rightarrow> host option" where
  "resolved (HLink None) = None"
| "resolved (HLink (Some t)) = resolved t"
| "resolved t = Some t"

fun is_link :: "host \<Rightarrow> bool" where
  "is_link (HLink _) = True"
| "is_link _ = False"

definition is_host_dir :: "host \<Rightarrow> bool" where
  "is_host_dir t = (case resolved t of Some (HDir _ _) \<Rightarrow> True | _ \<Rightarrow> False)"

text \<open>
  The body of the loop for one directory: the files it goes on to size and read, as their relative
  name, whether they can be opened, and content.
\<close>

definition dir_items :: "string list \<Rightarrow> bool \<Rightarrow> string list \<Rightarrow> (string \<times> host) list \<Rightarrow> (string \<times> bool \<times> byte list) list" where
  "dir_items excl follow p es =
     concat (map (\<lambda>(n, t).
       if excluded n excl \<or> is_link t \<and> \<not> follow then []
       else (case resolved t of Some (HFile rd b) \<Rightarrow> [(rel_join (p @ [n]), rd, b)] | _ \<Rightarrow> []))
     (sort_key fst (filter (\<lambda>e. \<not> is_host_dir (snd e)) es)))"

text \<open>\<^verbatim>\<open>os.walk\<close> with \<^verbatim>\<open>dirnames\<close> pruned and sorted in place: the items of a directory, then those below.\<close>

fun walk_host :: "string list \<Rightarrow> bool \<Rightarrow> string list \<Rightarrow> host \<Rightarrow> (string \<times> bool \<times> byte list) list"
  and walk_host_subs :: "string list \<Rightarrow> bool \<Rightarrow> string list \<Rightarrow> (string \<times> host) list \<Rightarrow>
    (string \<times> (string \<times> bool \<times> byte list) list) list"
where
  "walk_host excl follow p (HDir r es) =
     (if r then dir_items excl follow p es @
        concat (map snd (sort_key fst (walk_host_subs excl follow p es)))
      else [])"
| "walk_host excl follow p (HLink (Some t)) = (if follow then walk_host excl follow p t else [])"
| "walk_host excl follow p _ = []"
| "walk_host_subs excl follow p [] = []"
| "walk_host_subs excl follow p ((n, t) # es) =
     (if excluded n excl then [] else [(n, walk_host excl follow (p @ [n]) t)]) @
     walk_host_subs excl follow p es"

text \<open>Sizing and reading, file by file.\<close>

fun read_items :: "int \<Rightarrow> (string \<times> bool \<times> byte list) list \<Rightarrow> (string, byte list) dict \<Rightarrow> int \<Rightarrow>
    exn + (string, byte list) dict" where
  "read_items maxb [] fs tot = Inr fs"
| "read_items maxb ((rel, rd, b) # its) fs tot =
     (if tot + int (length b) > maxb then Inl (ValueErr ''project tree exceeds max_upload_bytes'')
      else if \<not> rd then Inl OsErr
      else read_items maxb its (dict_put rel b fs) (tot + int (length b)))"

definition read_project_tree :: "host option \<Rightarrow> string list \<Rightarrow> int \<Rightarrow> bool \<Rightarrow> exn + (string, byte list) dict" where
  "read_project_tree project_dir excl max_bytes follow =
     (if \<not> (case project_dir of None \<Rightarrow> False | Some t \<Rightarrow> is_host_dir t)
      then Inl (ValueErr ''project_dir is not a directory'')
      else (case read_items max_bytes (walk_host excl follow [] (the (Option.bind project_dir resolved))) [] 0 of
          Inl e \<Rightarrow> Inl e
        | Inr fs \<Rightarrow> if fs = [] then Inl (ValueErr ''no files to upload'') else Inr fs))"

section \<open>What is read\<close>

text \<open>Trees as a file system has them: distinct, proper entry names.\<close>

fun host_ok :: "host \<Rightarrow> bool" and host_ok_entries :: "(string \<times> host) list \<Rightarrow> bool" where
  "host_ok (HDir r es) \<longleftrightarrow> host_ok_entries es"
| "host_ok (HLink (Some t)) \<longleftrightarrow> host_ok t"
| "host_ok _ \<longleftrightarrow> True"
| "host_ok_entries [] \<longleftrightarrow> True"
| "host_ok_entries ((n, t) # es) \<longleftrightarrow> entry_name n \<and> n \<notin> fst ` set es \<and> host_ok t \<and> host_ok_entries es"

text \<open>
  The specification: the file under a path, through directories that can be listed, no component
  excluded, links only if they are followed.
\<close>

fun host_file :: "string list \<Rightarrow> bool \<Rightarrow> string list \<Rightarrow> host \<Rightarrow> (bool \<times> byte list) option" where
  "host_file excl follow [] t = (case t of HFile rd b \<Rightarrow> Some (rd, b) | _ \<Rightarrow> None)"
| "host_file excl follow (n # ps) t =
     (case t of
        HDir r es \<Rightarrow>
          if r \<and> \<not> excluded n excl then
            (case map_of es n of
               None \<Rightarrow> None
             | Some c \<Rightarrow> if is_link c \<and> \<not> follow then None
                 else (case resolved c of None \<Rightarrow> None | Some c' \<Rightarrow> host_file excl follow ps c'))
          else None
      | _ \<Rightarrow> None)"

definition hits :: "string list \<Rightarrow> bool \<Rightarrow> host \<Rightarrow> string list \<Rightarrow> (bool \<times> byte list) option" where
  "hits excl follow t q =
     (if is_link t \<and> \<not> follow then None
      else (case resolved t of None \<Rightarrow> None | Some t' \<Rightarrow> host_file excl follow q t'))"

lemma resolved_not_link: "resolved t = Some t' \<Longrightarrow> \<not> is_link t'"
  by (induction t rule: resolved.induct) auto

lemma host_ok_resolved: "host_ok t \<Longrightarrow> resolved t = Some t' \<Longrightarrow> host_ok t'"
  by (induction t rule: resolved.induct) auto

lemma host_ok_map_of: "host_ok_entries es \<Longrightarrow> (n, t) \<in> set es \<longleftrightarrow> map_of es n = Some t"
proof -
  assume "host_ok_entries es"
  then have "distinct (map fst es)" by (induction es) force+
  then show ?thesis by simp
qed

lemma host_ok_member: "host_ok_entries es \<Longrightarrow> (n, t) \<in> set es \<Longrightarrow> entry_name n \<and> host_ok t"
  by (induction es) auto

lemma in_walk_host_subs:
  "(n, its) \<in> set (walk_host_subs excl follow p es) \<longleftrightarrow>
    (\<exists>t. (n, t) \<in> set es \<and> \<not> excluded n excl \<and> its = walk_host excl follow (p @ [n]) t)"
proof (induction es)
  case (Cons e es)
  then show ?case by (cases e) (simp split: if_splits, blast+)
qed simp

lemma in_dir_items:
  "(rel, rd, b) \<in> set (dir_items excl follow p es) \<longleftrightarrow>
    (\<exists>n t. (n, t) \<in> set es \<and> \<not> excluded n excl \<and> rel = rel_join (p @ [n]) \<and>
      hits excl follow t [] = Some (rd, b))"
  by (fastforce simp: dir_items_def hits_def is_host_dir_def split: option.splits host.splits if_splits)

lemma hits_dir:
  assumes "host_ok_entries es"
  shows "hits excl follow (HDir r es) (n # q) = Some v \<longleftrightarrow>
    r \<and> \<not> excluded n excl \<and> (\<exists>t. (n, t) \<in> set es \<and> hits excl follow t q = Some v)"
proof (cases "map_of es n")
  case None
  then show ?thesis by (simp add: hits_def host_ok_map_of [OF assms])
next
  case (Some t)
  then have "hits excl follow (HDir r es) (n # q) =
      (if r \<and> \<not> excluded n excl then hits excl follow t q else None)"
    by (simp add: hits_def)
  with Some show ?thesis by (simp add: host_ok_map_of [OF assms])
qed

lemma in_walk_host_dir:
  "item \<in> set (walk_host excl follow p (HDir r es)) \<longleftrightarrow>
    r \<and> (item \<in> set (dir_items excl follow p es) \<or>
      (\<exists>n t. (n, t) \<in> set es \<and> \<not> excluded n excl \<and> item \<in> set (walk_host excl follow (p @ [n]) t)))"
proof -
  have "(\<exists>e \<in> set (walk_host_subs excl follow p es). item \<in> set (snd e)) \<longleftrightarrow>
      (\<exists>n t. (n, t) \<in> set es \<and> \<not> excluded n excl \<and> item \<in> set (walk_host excl follow (p @ [n]) t))"
    unfolding Bex_def split_paired_Ex snd_conv in_walk_host_subs by blast
  then show ?thesis by simp
qed

lemma in_walk_host:
  "host_ok t \<Longrightarrow> (rel, rd, b) \<in> set (walk_host excl follow p t) \<longleftrightarrow>
    (\<exists>n q. rel = rel_join (p @ n # q) \<and> hits excl follow t (n # q) = Some (rd, b))"
proof (induction t arbitrary: p)
  case (HDir r es)
  then have ok: "host_ok_entries es" by simp
  have sub: "(rel, rd, b) \<in> set (walk_host excl follow (p @ [n]) t) \<longleftrightarrow>
      (\<exists>m q. rel = rel_join (p @ n # m # q) \<and> hits excl follow t (m # q) = Some (rd, b))"
    if "(n, t) \<in> set es" for n t
    using HDir.IH [OF that, of t "p @ [n]"] host_ok_member [OF ok that] by simp
  have "(rel, rd, b) \<in> set (walk_host excl follow p (HDir r es)) \<longleftrightarrow>
      r \<and> (\<exists>n t. (n, t) \<in> set es \<and> \<not> excluded n excl \<and>
        (\<exists>q. rel = rel_join (p @ n # q) \<and> hits excl follow t q = Some (rd, b)))"
    unfolding in_walk_host_dir in_dir_items using sub by (metis neq_Nil_conv)
  also have "\<dots> \<longleftrightarrow> (\<exists>n q. rel = rel_join (p @ n # q) \<and> hits excl follow (HDir r es) (n # q) = Some (rd, b))"
    unfolding hits_dir [OF ok] by blast
  finally show ?case .
next
  case (HLink tg)
  show ?case
  proof (cases tg)
    case None
    then show ?thesis by (simp add: hits_def)
  next
    case (Some t)
    with HLink.IH [of t p] HLink.prems
    have "(rel, rd, b) \<in> set (walk_host excl follow p t) \<longleftrightarrow>
        (\<exists>n q. rel = rel_join (p @ n # q) \<and> hits excl follow t (n # q) = Some (rd, b))" by simp
    with Some show ?thesis by (cases follow) (simp_all add: hits_def)
  qed
qed (simp_all add: hits_def)


lemma hits_names:
  "host_ok t \<Longrightarrow> hits excl follow t q = Some v \<Longrightarrow>
    list_all entry_name q \<and> (\<forall>n \<in> set q. \<not> excluded n excl)"
proof (induction q arbitrary: t)
  case (Cons n q)
  from Cons.prems(2) obtain r es where root: "resolved t = Some (HDir r es)"
    and dir: "hits excl follow (HDir r es) (n # q) = Some v"
    by (auto simp: hits_def split: option.splits if_splits host.splits)
  from host_ok_resolved [OF Cons.prems(1) root] have ok: "host_ok_entries es" by simp
  with dir obtain c where "(n, c) \<in> set es" "\<not> excluded n excl" "hits excl follow c q = Some v"
    by (auto simp: hits_dir)
  with Cons.IH [of c] host_ok_member [OF ok] show ?case by auto
qed simp

lemma hits_prefix:
  "host_ok t \<Longrightarrow> hits excl follow t q \<noteq> None \<Longrightarrow> z \<noteq> [] \<Longrightarrow> hits excl follow t (q @ z) = None"
proof (induction q arbitrary: t)
  case Nil
  then show ?case
    by (cases z) (auto simp: hits_def split: option.splits if_splits host.splits)
next
  case (Cons n q)
  from Cons.prems(2) obtain r es where root: "resolved t = Some (HDir r es)"
    and dir: "hits excl follow (HDir r es) (n # q) \<noteq> None"
    by (auto simp: hits_def split: option.splits if_splits host.splits)
  from host_ok_resolved [OF Cons.prems(1) root] have ok: "host_ok_entries es" by simp
  with dir obtain c where c: "(n, c) \<in> set es" "hits excl follow c q \<noteq> None"
    by (auto simp: hits_dir)
  with Cons.IH [of c] host_ok_member [OF ok] Cons.prems(3)
  have none: "hits excl follow c (q @ z) = None" by blast
  have "hits excl follow (HDir r es) (n # q @ z) = None"
  proof (rule ccontr)
    assume "hits excl follow (HDir r es) (n # q @ z) \<noteq> None"
    then obtain c' where "(n, c') \<in> set es" "hits excl follow c' (q @ z) \<noteq> None"
      by (auto simp: hits_dir [OF ok])
    with c(1) none show False by (simp add: host_ok_map_of [OF ok])
  qed
  with root show ?case by (simp add: hits_def)
qed

lemma read_items_result:
  "read_items maxb its fs tot = Inr fs' \<Longrightarrow>
    fs' = dict_update fs (map (\<lambda>(rel, _, b). (rel, b)) its) \<and> (\<forall>(_, rd, _) \<in> set its. rd) \<and>
    (its \<noteq> [] \<longrightarrow> tot + (\<Sum>(_, _, b) \<leftarrow> its. int (length b)) \<le> maxb)"
proof (induction its arbitrary: fs tot)
  case (Cons it its)
  obtain rel rd b where it: "it = (rel, rd, b)" by (cases it)
  with Cons.prems have here: "tot + int (length b) \<le> maxb" "rd"
    and rest: "read_items maxb its (dict_put rel b fs) (tot + int (length b)) = Inr fs'"
    by (auto split: if_splits)
  from Cons.IH [OF rest] here show ?case by (cases "its = []") (auto simp: it add.assoc)
qed simp

lemma read_items_total:
  "int (total_size (dict_update fs (map (\<lambda>(rel, _, b). (rel, b)) its))) \<le>
    int (total_size fs) + (\<Sum>(_, _, b) \<leftarrow> its. int (length b))"
proof (induction its arbitrary: fs)
  case (Cons it its)
  obtain rel rd b where it: "it = (rel, rd, b)" by (cases it)
  have "int (total_size (dict_put rel b fs)) \<le> int (total_size fs) + int (length b)"
    using total_size_put [of rel b fs] by linarith
  with Cons.IH [of "dict_put rel b fs"] show ?case by (simp add: it)
qed simp

lemma read_project_tree_items:
  assumes "read_project_tree (Some d) excl maxb follow = Inr fs"
  obtains t where "resolved d = Some t" and "fs \<noteq> []"
    and "fs = dict_of (map (\<lambda>(rel, _, b). (rel, b)) (walk_host excl follow [] t))"
    and "(\<Sum>(_, _, b) \<leftarrow> walk_host excl follow [] t. int (length b)) \<le> maxb"
    and "\<forall>(_, rd, _) \<in> set (walk_host excl follow [] t). rd"
proof -
  from assms obtain t where t: "resolved d = Some t"
    by (auto simp: read_project_tree_def is_host_dir_def split: if_splits option.splits)
  with assms have run: "read_items maxb (walk_host excl follow [] t) [] 0 = Inr fs" and "fs \<noteq> []"
    by (auto simp: read_project_tree_def split: if_splits sum.splits)
  note res = read_items_result [OF run]
  with \<open>fs \<noteq> []\<close> have "walk_host excl follow [] t \<noteq> []" by auto
  with res t \<open>fs \<noteq> []\<close> that show thesis by (simp add: dict_of_def)
qed

lemma project_map:
  assumes ok: "host_ok d" and res: "read_project_tree (Some d) excl maxb follow = Inr fs"
    and root: "resolved d = Some t"
  shows "map_of fs rel = map_option snd (hits excl follow t (name_path rel))"
proof -
  let ?its = "walk_host excl follow [] t"
  define content where "content rel = snd (the (hits excl follow t (name_path rel)))" for rel
  have tok: "host_ok t" using host_ok_resolved [OF ok root] .
  obtain t' where "resolved d = Some t'"
    and fs': "fs = dict_of (map (\<lambda>(rel, _, b). (rel, b)) (walk_host excl follow [] t'))"
    and readable': "\<forall>(_, rd, _) \<in> set (walk_host excl follow [] t'). rd"
    by (rule read_project_tree_items [OF res])
  with root have "t' = t" by simp
  note fs = fs' [unfolded this] and readable = readable' [unfolded this]
  have item: "rd \<and> name_path rel \<noteq> [] \<and> hits excl follow t (name_path rel) = Some (True, b)"
    if "(rel, rd, b) \<in> set ?its" for rel rd b
  proof -
    from that obtain n q where q: "rel = rel_join (n # q)" "hits excl follow t (n # q) = Some (rd, b)"
      using in_walk_host [OF tok, of rel rd b excl follow "[]"] by auto
    with hits_names [OF tok q(2)] entry_names_plain [of "n # q"] have "name_path rel = n # q" by auto
    moreover have rd using readable that by auto
    ultimately show ?thesis using q by simp
  qed
  note fs
  also have "map (\<lambda>(rel, _, b). (rel, b)) ?its = map (\<lambda>rel. (rel, content rel)) (map fst ?its)"
  proof -
    have "(case it of (rel, _, b) \<Rightarrow> (rel, b)) = (fst it, content (fst it))" if "it \<in> set ?its" for it
    proof -
      obtain rel rd b where it: "it = (rel, rd, b)" by (cases it)
      with item [of rel rd b] that show ?thesis by (simp add: content_def)
    qed
    then show ?thesis by simp
  qed
  finally have look: "map_of fs = (\<lambda>rel. if rel \<in> set (map fst ?its) then Some (content rel) else None)"
    unfolding dict_of_def by (simp only: map_of_dict_update_fun map_of.simps)
  show ?thesis
  proof (cases "hits excl follow t (name_path rel)")
    case None
    then have "rel \<notin> set (map fst ?its)" using item by force
    with None look show ?thesis by simp
  next
    case (Some v)
    obtain rd b where v: "v = (rd, b)" by (cases v)
    obtain n q where nq: "name_path rel = n # q" by (cases "name_path rel") (auto simp: name_path_def)
    then have "rel = rel_join (n # q)" by (metis join_with_split_on name_path_def rel_join_def)
    with Some v nq have "(rel, rd, b) \<in> set ?its"
      using in_walk_host [OF tok, of rel rd b excl follow "[]"] by auto
    then have "rel \<in> set (map fst ?its)" by force
    with Some look show ?thesis by (simp add: content_def)
  qed
qed

text \<open>
  The map of a project directory is exact: when the read succeeds, a relative name is in it exactly
  when no component of the name is excluded and it leads to a regular file through listable directories
  (links only if they are followed), with the bytes of that file.
\<close>

lemma project_tree_exact:
  assumes "host_ok d" "resolved d = Some t" "read_project_tree (Some d) excl maxb follow = Inr fs"
  shows "map_of fs rel = map_option snd (host_file excl follow (name_path rel) t)"
  using project_map [OF assms(1,3,2), of rel] assms(2)
  by (cases t) (auto simp: hits_def dest: resolved_not_link)

text \<open>
  An upload of a project is bounded and pruned: when the read succeeds the map is not empty, its total is
  within \<^verbatim>\<open>max_upload_bytes\<close>, and no name in it has an excluded component.
\<close>

lemma project_tree_bounded:
  assumes "host_ok d" "read_project_tree (Some d) excl maxb follow = Inr fs"
  shows "fs \<noteq> [] \<and> int (total_size fs) \<le> maxb \<and>
    (\<forall>rel \<in> fst ` set fs. \<forall>n \<in> set (name_path rel). \<not> excluded n excl)"
proof -
  obtain t where t: "resolved d = Some t" "fs \<noteq> []"
    and fs: "fs = dict_of (map (\<lambda>(rel, _, b). (rel, b)) (walk_host excl follow [] t))"
    and cap: "(\<Sum>(_, _, b) \<leftarrow> walk_host excl follow [] t. int (length b)) \<le> maxb"
    by (rule read_project_tree_items [OF assms(2)])
  have "int (total_size fs) \<le> maxb"
    using read_items_total [of "[]" "walk_host excl follow [] t"] cap by (simp add: fs dict_of_def)
  moreover have "\<not> excluded n excl" if "rel \<in> fst ` set fs" "n \<in> set (name_path rel)" for rel n
  proof -
    from that(1) have "map_of fs rel \<noteq> None" by (simp add: map_of_eq_None_iff)
    then obtain v where "hits excl follow t (name_path rel) = Some v"
      using project_map [OF assms t(1), of rel] by auto
    with hits_names [OF host_ok_resolved [OF assms(1) t(1)]] that(2) show ?thesis by blast
  qed
  ultimately show ?thesis using t(2) by blast
qed

lemma project_uploadable:
  assumes "host_ok d" "read_project_tree (Some d) excl maxb follow = Inr fs"
  shows "uploadable [] fs"
proof -
  obtain t where t: "resolved d = Some t"
    and fs: "fs = dict_of (map (\<lambda>(rel, _, b). (rel, b)) (walk_host excl follow [] t))"
    by (rule read_project_tree_items [OF assms(2)])
  note tok = host_ok_resolved [OF assms(1) t]
  have hit: "hits excl follow t (name_path (fst m)) \<noteq> None" if "m \<in> set fs" for m
  proof -
    from that have "map_of fs (fst m) \<noteq> None" by (simp add: map_of_eq_None_iff)
    with project_map [OF assms t, of "fst m"] show ?thesis by auto
  qed
  have names: "list_all entry_name (name_path (fst m))" "name_path (fst m) \<noteq> []" if "m \<in> set fs" for m
    using hit [OF that] hits_names [OF tok] by (auto simp: name_path_def)
  have apart: "\<not> strict_prefix p q"
    if "hits excl follow t p \<noteq> None" "hits excl follow t q \<noteq> None" for p q
  proof
    assume "strict_prefix p q"
    then obtain z zs where "q = p @ z # zs" by (rule strict_prefixE')
    with hits_prefix [OF tok that(1), of "z # zs"] that(2) show False by simp
  qed
  show ?thesis
    unfolding uploadable_def
  proof (intro conjI ballI impI)
    show "dict_ok fs" by (simp add: fs)
    fix m assume m: "m \<in> set fs"
    show "plain_name (fst m)"
      using names [OF m] entry_names_plain [of "name_path (fst m)"] by (simp add: rel_join_def name_path_def)
    show "accepts_at True True [] (name_path (fst m))"
      using names [OF m] by (intro accepts_at_empty)
    fix m' assume m': "m' \<in> set fs"
    show "paths_apart (name_path (fst m)) (name_path (fst m'))"
      using apart hit [OF m] hit [OF m'] by (simp add: paths_apart_def)
  qed
qed

text \<open>
  C23: a project arrives whole: uploading what was read from the host into an empty workspace leaves, under
  every relative name, the file the project has there after pruning, and nothing else.
\<close>

theorem project_lands:
  assumes "host_ok d" "resolved d = Some t" "read_project_tree (Some d) excl maxb follow = Inr fs"
    and "\<forall>p \<in> set inp. p \<noteq> []" "concat inp = upload_frame fs" "length (upload_payload fs) < 10 ^ 16"
  shows "\<exists>es'. uploader ct inp [] = (None, es') \<and>
    (\<forall>rel. file_at (name_path rel) es' = map_option snd (hits excl follow t (name_path rel)))"
proof -
  note up = project_uploadable [OF assms(1,3)]
  from uploader_runs [OF up assms(4-6), of ct] fold_store_put [OF up] project_map [OF assms(1,3,2)]
  show ?thesis by (auto split: option.splits)
qed

section \<open>A concrete project\<close>

definition demo_project :: host where
  "demo_project = HDir True
     [(''main.py'', HFile True [112, 114]),
      (''data'', HLink (Some (HDir True [(''big'', HFile True [0, 0, 0, 0, 0])]))),
      (''.git'', HDir True [(''HEAD'', HFile True [1])]),
      (''app'', HDir True [(''x.pyc'', HFile False [9]), (''x.py'', HFile True [65])])]"

lemma demo_project_ok: "host_ok demo_project" "resolved demo_project = Some demo_project"
  by (simp_all add: demo_project_def entry_name_def)

lemma demo_project_read:
  "read_project_tree (Some demo_project) default_project_excludes 3 False =
    Inr [(''main.py'', [112, 114]), (''app/x.py'', [65])]"
  by code_simp

lemma project_tree_exact_example:
  "map_of [(''main.py'', [112, 114]), (''app/x.py'', [65])] ''app/x.py'' =
    map_option snd (host_file default_project_excludes False (name_path ''app/x.py'') demo_project)"
  by (rule project_tree_exact [OF demo_project_ok demo_project_read])

lemma project_tree_bounded_example:
  "int (total_size [(''main.py'', [112, 114 :: byte]), (''app/x.py'', [65])]) \<le> 3 \<and>
    \<not> excluded ''main.py'' default_project_excludes \<and> \<not> excluded ''app'' default_project_excludes"
proof -
  have "''app'' \<in> set (name_path ''app/x.py'')" "''main.py'' \<in> set (name_path ''main.py'')"
    by (simp_all add: name_path_def)
  with project_tree_bounded [OF demo_project_ok(1) demo_project_read] show ?thesis by force
qed

lemma demo_project_frame:
  "upload_frame [(''main.py'', [112, 114]), (''app/x.py'', [65])] =
    ''0000000000000039{\"main.py\": \"cHI=\", \"app/x.py\": \"QQ==\"}''"
  by code_simp

theorem project_lands_witness:
  "\<exists>es'. uploader no_links [''0000000000000039'', ''{\"main.py\": \"cHI=\", \"app/x.py\": \"QQ==\"}''] [] = (None, es') \<and>
    (\<forall>rel. file_at (name_path rel) es' =
      map_option snd (hits default_project_excludes False demo_project (name_path rel)))"
  by (rule project_lands [OF demo_project_ok demo_project_read])
    (simp_all add: demo_project_frame payload_short [of "[(''main.py'', [112, 114]), (''app/x.py'', [65])]", simplified])

end
