(* ===== verification/Snapshot.thy ===== *)
theory Snapshot
  imports Project
begin

text \<open>
  Snapshots of a session's working directory (\<^verbatim>\<open>_safe_member_name\<close>, \<^verbatim>\<open>_pack_snapshot\<close> and
  \<^verbatim>\<open>_unpack_snapshot\<close> of \<^verbatim>\<open>runner.py\<close>) with \<^verbatim>\<open>posixpath.normpath\<close>. Writing and reading a gzip'd tar archive is a
  parameter: a function from the members to the blob and one from a blob to its members or
  the exception of the archive library. Where a result needs that an archive of regular files reads back
  as it was written, it says so.
\<close>

section \<open>Names\<close>

text \<open>The loop of \<^verbatim>\<open>normpath\<close> over the components; the components so far are kept last first.\<close>

fun norm_comps :: "bool \<Rightarrow> string list \<Rightarrow> string list \<Rightarrow> string list" where
  "norm_comps rooted acc [] = rev acc"
| "norm_comps rooted acc (c # cs) =
     (if c = [] \<or> c = ''.'' then norm_comps rooted acc cs
      else if c \<noteq> ''..'' \<or> (\<not> rooted \<and> acc = []) \<or> (acc \<noteq> [] \<and> hd acc = ''..'')
      then norm_comps rooted (c # acc) cs
      else if acc \<noteq> [] then norm_comps rooted (tl acc) cs
      else norm_comps rooted acc cs)"

definition initial_slashes :: "string \<Rightarrow> nat" where
  "initial_slashes p =
     (if take 2 p = ''//'' \<and> take 3 p \<noteq> ''///'' then 2 else if take 1 p = ''/'' then 1 else 0)"

definition normpath :: "string \<Rightarrow> string" where
  "normpath p =
     (if p = [] then ''.''
      else (let k = initial_slashes p;
                q = replicate k (CHR ''/'') @
                  join_with (CHR ''/'') (norm_comps (k > 0) [] (split_on (CHR ''/'') p))
            in if q = [] then ''.'' else q))"

definition safe_member_name :: "string \<Rightarrow> bool" where
  "safe_member_name nm \<longleftrightarrow>
     take 1 nm \<noteq> ''/'' \<and>
     \<not> (\<exists>part \<in> set (filter (\<lambda>p. p \<noteq> ''.'') (split_on (CHR ''/'') nm)). part = ''..'' \<or> part = [])"

section \<open>Packing and unpacking\<close>

datatype member_kind = RegularFile | OtherMember

record member =
  m_name :: string
  m_kind :: member_kind
  m_data :: "byte list"

definition snapshot_members :: "(string, byte list) dict \<Rightarrow> member list" where
  "snapshot_members fs =
     map (\<lambda>rel. \<lparr>m_name = rel, m_kind = RegularFile, m_data = the (map_of fs rel)\<rparr>) (sort (map fst fs))"

definition pack_snapshot :: "(member list \<Rightarrow> 'blob) \<Rightarrow> (string, byte list) dict \<Rightarrow> 'blob" where
  "pack_snapshot tar fs = tar (snapshot_members fs)"

fun unpack_members :: "member list \<Rightarrow> (string, byte list) dict \<Rightarrow> exn + (string, byte list) dict" where
  "unpack_members [] out = Inr out"
| "unpack_members (m # ms) out =
     (if m_kind m \<noteq> RegularFile then unpack_members ms out
      else if \<not> safe_member_name (normpath (m_name m))
      then Inl (SandboxErr ''refusing unsafe path in snapshot'')
      else unpack_members ms (dict_put (normpath (m_name m)) (m_data m) out))"

definition unpack_snapshot :: "('blob \<Rightarrow> exn + member list) \<Rightarrow> 'blob \<Rightarrow> exn + (string, byte list) dict" where
  "unpack_snapshot untar blob =
     (case untar blob of Inl e \<Rightarrow> Inl e | Inr ms \<Rightarrow> unpack_members ms [])"

text \<open>The documented contract of the archive library for the archives the code writes.\<close>

definition archives_files :: "(member list \<Rightarrow> 'blob) \<Rightarrow> ('blob \<Rightarrow> exn + member list) \<Rightarrow> bool" where
  "archives_files tar untar \<longleftrightarrow>
     (\<forall>ms. (\<forall>m \<in> set ms. m_kind m = RegularFile \<and> plain_name (m_name m)) \<longrightarrow> untar (tar ms) = Inr ms)"

section \<open>Safe names\<close>

lemma norm_comps_plain: "list_all entry_name cs \<Longrightarrow> norm_comps rooted acc cs = rev acc @ cs"
  by (induction cs arbitrary: acc) (auto simp: entry_name_def)

lemma plain_name_comps: "plain_name rel \<longleftrightarrow> list_all entry_name (name_path rel)"
  unfolding plain_name_def name_path_def entry_name_def list_all_iff
  using split_on_parts [of _ "CHR ''/''" rel] by blast

lemma plain_name_front:
  assumes "plain_name rel"
  shows "rel \<noteq> [] \<and> take 1 rel \<noteq> ''/''"
proof (cases rel)
  case (Cons c r)
  have "c \<noteq> CHR ''/''"
  proof
    assume "c = CHR ''/''"
    with Cons have "[] \<in> set (split_on (CHR ''/'') rel)" by simp
    with assms show False unfolding plain_name_def by blast
  qed
  with Cons show ?thesis by simp
qed (use assms in \<open>simp add: plain_name_def\<close>)

lemma normpath_plain: "plain_name rel \<Longrightarrow> normpath rel = rel"
proof -
  assume plain: "plain_name rel"
  from plain_name_front [OF plain] have "initial_slashes rel = 0"
    by (cases rel) (auto simp: initial_slashes_def)
  moreover have "norm_comps False [] (split_on (CHR ''/'') rel) = split_on (CHR ''/'') rel"
    using plain norm_comps_plain by (simp add: plain_name_comps name_path_def)
  ultimately show ?thesis using plain_name_front [OF plain] by (simp add: normpath_def Let_def)
qed

lemma safe_plain: "plain_name rel \<Longrightarrow> safe_member_name rel"
  using plain_name_front by (auto simp: safe_member_name_def plain_name_def)

text \<open>The components of a normalised path: no empty one, no dot, and dots-dots only in front.\<close>

lemma norm_comps_shape:
  assumes "\<forall>c \<in> set acc \<union> set cs. CHR ''/'' \<notin> set c" "\<forall>c \<in> set acc. c \<noteq> [] \<and> c \<noteq> ''.''"
  shows "\<forall>c \<in> set (norm_comps rooted acc cs). c \<noteq> [] \<and> c \<noteq> ''.'' \<and> CHR ''/'' \<notin> set c"
  using assms
proof (induction rooted acc cs rule: norm_comps.induct)
  case (2 rooted acc c cs)
  have "set (tl acc) \<subseteq> set acc" by (cases acc) auto
  with "2.prems" have tl: "\<forall>c \<in> set (tl acc) \<union> set cs. CHR ''/'' \<notin> set c"
    "\<forall>c \<in> set (tl acc). c \<noteq> [] \<and> c \<noteq> ''.''" by auto
  show ?case
  proof (cases "c = [] \<or> c = ''.''")
    case True
    with "2.IH"(1) "2.prems" show ?thesis by simp
  next
    case False
    consider "c \<noteq> ''..'' \<or> (\<not> rooted \<and> acc = []) \<or> (acc \<noteq> [] \<and> hd acc = ''..'')"
      | "\<not> (c \<noteq> ''..'' \<or> (\<not> rooted \<and> acc = []) \<or> (acc \<noteq> [] \<and> hd acc = ''..''))" "acc \<noteq> []"
      | "\<not> (c \<noteq> ''..'' \<or> (\<not> rooted \<and> acc = []) \<or> (acc \<noteq> [] \<and> hd acc = ''..''))" "acc = []"
      by blast
    then show ?thesis
    proof cases
      case 1
      with False have "norm_comps rooted acc (c # cs) = norm_comps rooted (c # acc) cs"
        by (simp only: norm_comps.simps if_True if_False)
      moreover have "\<forall>d \<in> set (c # acc) \<union> set cs. CHR ''/'' \<notin> set d" "\<forall>d \<in> set (c # acc). d \<noteq> [] \<and> d \<noteq> ''.''"
        using "2.prems" False by auto
      ultimately show ?thesis using "2.IH"(2) [OF False 1] by metis
    next
      case 2
      with False have "norm_comps rooted acc (c # cs) = norm_comps rooted (tl acc) cs"
        by (simp only: norm_comps.simps if_True if_False not_False_eq_True)
      with "2.IH"(3) [OF False 2] tl show ?thesis by metis
    next
      case 3
      with False have "norm_comps rooted acc (c # cs) = norm_comps rooted acc cs"
        by (simp only: norm_comps.simps if_True if_False simp_thms)
      moreover have "\<forall>d \<in> set acc \<union> set cs. CHR ''/'' \<notin> set d" using "2.prems" by auto
      ultimately show ?thesis using "2.IH"(4) [OF False 3(1)] 3(2) "2.prems"(2) by metis
    qed
  qed
qed simp

lemma normpath_safe:
  assumes "safe_member_name (normpath nm)"
  shows "normpath nm = ''.'' \<or> plain_name (normpath nm)"
proof (cases "nm = []")
  case False
  define k where "k = initial_slashes nm"
  define cs where "cs = norm_comps (0 < k) [] (split_on (CHR ''/'') nm)"
  have shape: "\<forall>c \<in> set cs. c \<noteq> [] \<and> c \<noteq> ''.'' \<and> CHR ''/'' \<notin> set c"
    unfolding cs_def
  proof (rule norm_comps_shape)
    show "\<forall>c \<in> set [] \<union> set (split_on (CHR ''/'') nm). CHR ''/'' \<notin> set c"
      using split_on_parts [of _ "CHR ''/''" nm] unfolding list.set(1) Un_empty_left by blast
  qed simp
  have norm: "normpath nm = (if replicate k (CHR ''/'') @ join_with (CHR ''/'') cs = [] then ''.''
      else replicate k (CHR ''/'') @ join_with (CHR ''/'') cs)"
    using False unfolding normpath_def Let_def k_def cs_def by (simp only: if_False)
  show ?thesis
  proof (cases k)
    case (Suc m)
    with norm have "take 1 (normpath nm) = ''/''" by simp
    with assms show ?thesis by (simp add: safe_member_name_def)
  next
    case 0
    show ?thesis
    proof (cases "cs = []")
      case False
      with shape have parts: "split_on (CHR ''/'') (join_with (CHR ''/'') cs) = cs"
        by (intro split_on_join_with) auto
      have "join_with (CHR ''/'') cs \<noteq> []"
        using parts False shape by (metis list.set_intros(1) split_on.simps(1))
      with norm 0 have "normpath nm = join_with (CHR ''/'') cs" by simp
      with assms parts shape show ?thesis
        unfolding safe_member_name_def plain_name_def by auto
    qed (use norm 0 in simp)
  qed
qed (simp add: normpath_def)

lemma unpack_members_names:
  "unpack_members ms out = Inr fs \<Longrightarrow> \<forall>rel \<in> fst ` set out. rel = ''.'' \<or> plain_name rel \<Longrightarrow>
    \<forall>rel \<in> fst ` set fs. rel = ''.'' \<or> plain_name rel"
proof (induction ms arbitrary: out)
  case (Cons m ms)
  show ?case
  proof (cases "m_kind m = RegularFile")
    case True
    with Cons.prems(1) have safe: "safe_member_name (normpath (m_name m))"
      and rest: "unpack_members ms (dict_put (normpath (m_name m)) (m_data m) out) = Inr fs"
      by (auto split: if_splits)
    show ?thesis
      using normpath_safe [OF safe] Cons.prems(2) by (intro Cons.IH [OF rest]) auto
  qed (use Cons in simp)
qed simp

text \<open>
  C15: a snapshot cannot escape: whatever the blob holds (also one tampered with), every name that comes out
  of unpacking is the working directory itself or a relative name without empty, dot or dot-dot components,
  so its path stays below the working directory.
\<close>

theorem unpack_stays_inside:
  assumes "unpack_snapshot untar blob = Inr fs"
  shows "\<forall>rel \<in> fst ` set fs. (rel = ''.'' \<or> plain_name rel) \<and> ws_path rel \<noteq> None"
proof -
  from assms obtain ms where "unpack_members ms [] = Inr fs"
    by (auto simp: unpack_snapshot_def split: sum.splits)
  from unpack_members_names [OF this] have names: "\<forall>rel \<in> fst ` set fs. rel = ''.'' \<or> plain_name rel" by simp
  have "ws_path ''.'' \<noteq> None" by (simp add: ws_path_def)
  with names ws_path_plain show ?thesis by auto
qed

section \<open>Round trips\<close>

lemma snapshot_members_shape:
  "dict_ok fs \<Longrightarrow> m \<in> set (snapshot_members fs) \<Longrightarrow>
    m_kind m = RegularFile \<and> map_of fs (m_name m) = Some (m_data m)"
  by (auto simp: snapshot_members_def dict_ok_def)

lemma unpack_members_plain:
  "\<forall>m \<in> set ms. m_kind m = RegularFile \<and> plain_name (m_name m) \<Longrightarrow>
    unpack_members ms out = Inr (dict_update out (map (\<lambda>m. (m_name m, m_data m)) ms))"
  by (induction ms arbitrary: out) (auto simp: normpath_plain safe_plain)

lemma unpack_pack_members:
  assumes "dict_ok fs" "\<forall>rel \<in> fst ` set fs. plain_name rel"
  shows "unpack_members (snapshot_members fs) [] =
    Inr (dict_update [] (map (\<lambda>rel. (rel, the (map_of fs rel))) (sort (map fst fs))))"
proof -
  have "\<forall>m \<in> set (snapshot_members fs). m_kind m = RegularFile \<and> plain_name (m_name m)"
    using assms by (auto simp: snapshot_members_def)
  from unpack_members_plain [OF this, of "[]"] show ?thesis
    by (simp add: snapshot_members_def o_def)
qed

lemma unpack_pack:
  assumes "archives_files tar untar" "dict_ok fs" "\<forall>rel \<in> fst ` set fs. plain_name rel"
  obtains fs' where "unpack_snapshot untar (pack_snapshot tar fs) = Inr fs'" "dict_ok fs'" "map_of fs' = map_of fs"
proof -
  let ?fs = "dict_update [] (map (\<lambda>rel. (rel, the (map_of fs rel))) (sort (map fst fs)))"
  have "\<forall>m \<in> set (snapshot_members fs). m_kind m = RegularFile \<and> plain_name (m_name m)"
    using assms(3) by (auto simp: snapshot_members_def)
  with assms(1) have "untar (pack_snapshot tar fs) = Inr (snapshot_members fs)"
    by (simp add: archives_files_def pack_snapshot_def)
  with unpack_pack_members [OF assms(2,3)]
  have unpack: "unpack_snapshot untar (pack_snapshot tar fs) = Inr ?fs"
    by (simp add: unpack_snapshot_def)
  have look: "map_of ?fs = map_of fs"
    unfolding map_of_dict_update_fun
    by (auto simp: fun_eq_iff map_of_eq_None_iff [symmetric] split: if_splits)
      (metis map_of_eq_None_iff image_eqI fst_conv option.distinct(1) option.collapse map_of_SomeD weak_map_of_SomeI)+
  have "dict_ok ?fs" using dict_ok_dict_of by (simp only: dict_of_def)
  with unpack look that show thesis by blast
qed

text \<open>
  A snapshot restores what it packed: if the archive library reads back what it wrote, unpacking a
  packed map of plain names gives the same content under every name.
\<close>

lemma snapshot_round_trip:
  assumes "archives_files tar untar" "dict_ok fs" "\<forall>rel \<in> fst ` set fs. plain_name rel"
  shows "\<exists>fs'. unpack_snapshot untar (pack_snapshot tar fs) = Inr fs' \<and> map_of fs' = map_of fs"
  using unpack_pack [OF assms] by blast

text \<open>
  A snapshot is deterministic: two maps with the same content under every name give the same blob,
  whatever the order in which the files were collected.
\<close>

lemma pack_deterministic:
  assumes "dict_ok fs" "dict_ok fs'" "map_of fs = map_of fs'"
  shows "pack_snapshot tar fs = pack_snapshot tar fs'"
proof -
  have "dom (map_of fs) = dom (map_of fs')" by (simp only: assms(3))
  then have keys: "set (map fst fs) = set (map fst fs')" by (simp add: dom_map_of_conv_image_fst)
  have "sort (map fst fs) = sort (map fst fs')"
    by (rule sorted_distinct_set_unique) (use assms(1,2) keys in \<open>simp_all add: dict_ok_def\<close>)
  with assms(3) show ?thesis by (simp add: pack_snapshot_def snapshot_members_def)
qed

section \<open>Concrete snapshots\<close>

definition demo_untar :: "member list \<Rightarrow> exn + member list" where
  "demo_untar ms = Inr ms"

lemma demo_archives: "archives_files id demo_untar"
  by (simp add: archives_files_def demo_untar_def)

theorem unpack_stays_inside_witness:
  "(''a/b'' = ''.'' \<or> plain_name ''a/b'') \<and> ws_path ''a/b'' \<noteq> None"
proof -
  have "unpack_snapshot demo_untar [\<lparr>m_name = ''./a//c/../b'', m_kind = RegularFile, m_data = [1]\<rparr>,
      \<lparr>m_name = ''/etc'', m_kind = OtherMember, m_data = []\<rparr>] = Inr [(''a/b'', [1])]"
    by code_simp
  from unpack_stays_inside [OF this] show ?thesis by simp
qed

lemma escape_refused:
  "unpack_snapshot demo_untar [\<lparr>m_name = ''a/../../etc/passwd'', m_kind = RegularFile, m_data = []\<rparr>] =
    Inl (SandboxErr ''refusing unsafe path in snapshot'')"
  by code_simp

lemma snapshot_round_trip_example:
  "\<exists>fs'. unpack_snapshot demo_untar (pack_snapshot id [(''b'', [2]), (''a/c'', [3])]) = Inr fs' \<and>
    map_of fs' = map_of [(''b'', [2]), (''a/c'', [3])]"
  by (rule snapshot_round_trip [OF demo_archives]) (simp_all add: dict_ok_def plain_name_def)

lemma pack_deterministic_example:
  "pack_snapshot (\<lambda>ms. ms) [(''b'', [2]), (''a'', [3])] = pack_snapshot (\<lambda>ms. ms) [(''a'', [3]), (''b'', [2])]"
  by (rule pack_deterministic) (auto simp: dict_ok_def)

end
