(* ===== verification/Pool.thy ===== *)
theory Pool
  imports PodSpec Snapshot
begin

text \<open>
  \<^verbatim>\<open>SandboxPool\<close> of \<^verbatim>\<open>runner.py\<close>, operation by operation, as statements over the state of the pool.
  The Kubernetes API, the clock, the exec websocket and the process's signal table are the environment: a
  record of functions on a state of its own. The daemon threads the pool starts are tasks in the
  state; \<open>task_step\<close> runs a task up to the next point where other threads may act.
\<close>

section \<open>Per-run environment variables\<close>

type_synonym env_vars = "(string, string) dict"

fun env_pairs :: "env_vars \<Rightarrow> exn + string list" where
  "env_pairs [] = Inr []"
| "env_pairs ((k, v) # e) =
     (if k = [] \<or> CHR ''='' \<in> set k \<or> CHR 0x00 \<in> set k \<or> CHR 0x00 \<in> set v
      then Inl (ValueErr ''invalid environment variable name'')
      else (case env_pairs e of Inl x \<Rightarrow> Inl x | Inr ps \<Rightarrow> Inr ((k @ CHR ''='' # v) # ps)))"

definition with_env :: "string list \<Rightarrow> env_vars option \<Rightarrow> exn + string list" where
  "with_env argv env =
     (case env of
        None \<Rightarrow> Inr argv
      | Some e \<Rightarrow> if e = [] then Inr argv
          else (case env_pairs e of Inl x \<Rightarrow> Inl x | Inr ps \<Rightarrow> Inr (''env'' # ps @ argv)))"

definition stream_env :: "env_vars option \<Rightarrow> env_vars" where
  "stream_env env =
     dict_update [(''PYTHONUNBUFFERED'', ''1'')] (case env of None \<Rightarrow> [] | Some e \<Rightarrow> e)"

section \<open>Workers and the environment\<close>

text \<open>A worker; the \<^verbatim>\<open>ApiClient\<close> it keeps for its calls has no state the pool looks at.\<close>

record worker =
  w_name :: string
  w_created :: rat
  w_uses :: int

definition spent :: "rat \<Rightarrow> worker \<Rightarrow> int \<Rightarrow> rat \<Rightarrow> bool" where
  "spent now w max_u max_a \<longleftrightarrow> w_uses w \<ge> max_u \<or> now - w_created w \<ge> max_a"

datatype command =
    Argv "string list"
  | CleanerScript string
  | CollectorScript string "string list option" int

record pod_condition =
  cd_type :: string
  cd_status :: string
  cd_reason :: string

record pod_status =
  phase :: string
  conditions :: "pod_condition list"
  waiting :: "string option list"  \<comment> \<open>per container, the reason of a waiting state\<close>

datatype sig_handler = SigCallable | SigIgnore | SigDefault

text \<open>
  The environment. \<open>k_watch\<close> gives the events of a watch and the exception that ends it, if one does;
  \<open>k_exec\<close> and \<open>k_upload\<close> give the conversation on the websocket of a worker.
\<close>

record 'c kube =
  k_now :: "'c \<Rightarrow> rat"
  k_sleep :: "rat \<Rightarrow> 'c \<Rightarrow> 'c"
  k_create_pod :: "pod_spec \<Rightarrow> ('c, unit) py"
  k_delete_pod :: "string \<Rightarrow> ('c, unit) py"
  k_read_pod :: "string \<Rightarrow> ('c, unit) py"
  k_list_pods :: "(string \<times> string) list \<Rightarrow> ('c, string list) py"
  k_watch :: "string \<Rightarrow> int \<Rightarrow> ('c, pod_status list \<times> exn option) py"
  k_exec :: "string \<Rightarrow> command \<Rightarrow> 'c \<Rightarrow> conversation \<times> 'c"
  k_upload :: "string \<Rightarrow> (string, byte list) dict \<Rightarrow> 'c \<Rightarrow> conversation \<times> 'c"
  k_list_ns :: "('c, string list) py"
  k_create_ns :: "string \<Rightarrow> ('c, unit) py"
  k_create_np :: "network_policy \<Rightarrow> ('c, unit) py"
  k_replace_np :: "network_policy \<Rightarrow> ('c, unit) py"
  k_hook_sigterm :: "('c, sig_handler) py"

text \<open>A background thread and how far it has come.\<close>

datatype task =
    CleanTask worker      \<comment> \<open>\<^verbatim>\<open>_clean_and_return\<close>: about to look at \<^verbatim>\<open>_closed\<close>\<close>
  | Cleaning worker       \<comment> \<open>about to wipe\<close>
  | PutBack worker        \<comment> \<open>about to put the worker on the queue\<close>
  | ReplaceTask worker    \<comment> \<open>\<^verbatim>\<open>_replace\<close>: about to delete the old pod\<close>
  | Attempt nat           \<comment> \<open>about to look at \<^verbatim>\<open>_closed\<close>\<close>
  | Spawning nat          \<comment> \<open>about to spawn\<close>

record 'c pool =
  cfg :: sandbox_config
  free_q :: "worker list"
  serial :: nat
  spawned_n :: nat
  retired_n :: nat
  is_started :: bool
  is_closed :: bool
  start_rep :: "pool_start_report option"
  hooks_on :: bool
  prev_sigterm :: "sig_handler option"
  tasks :: "task list"
  cluster :: 'c

text \<open>Running a call of the environment.\<close>

definition on_cluster :: "('c, 'a) py \<Rightarrow> ('c pool, 'a) py" where
  "on_cluster m s = (case m (cluster s) of (r, c) \<Rightarrow> (r, s\<lparr>cluster := c\<rparr>))"

definition clock :: "'c kube \<Rightarrow> ('c pool, rat) py" where
  "clock kb = reads (\<lambda>s. k_now kb (cluster s))"

definition put_free :: "worker \<Rightarrow> ('c pool, unit) py" where
  "put_free w = updates (\<lambda>s. s\<lparr>free_q := free_q s @ [w]\<rparr>)"

definition start_task :: "task \<Rightarrow> ('c pool, unit) py" where
  "start_task t = updates (\<lambda>s. s\<lparr>tasks := tasks s @ [t]\<rparr>)"

section \<open>Deleting pods\<close>

text \<open>The polling loop of \<^verbatim>\<open>_delete\<close>; a loop that outlives its fuel is reported as \<open>WouldBlock\<close>.\<close>

fun delete_poll :: "'c kube \<Rightarrow> string \<Rightarrow> rat \<Rightarrow> nat \<Rightarrow> ('c, unit) py" where
  "delete_poll kb nm deadline 0 = throw WouldBlock"
| "delete_poll kb nm deadline (Suc n) = (\<lambda>c.
     if k_now kb c < deadline then
       (case k_read_pod kb nm c of
          (Inl (ApiErr st), c') \<Rightarrow> if st = 404 then (Inr (), c') else (Inl (ApiErr st), c')
        | (Inl e, c') \<Rightarrow> (Inl e, c')
        | (Inr _, c') \<Rightarrow> delete_poll kb nm deadline n (k_sleep kb (1 / 5) c'))
     else (Inr (), c))"

definition delete_fuel :: nat where
  "delete_fuel = 301"

definition delete_pod :: "'c kube \<Rightarrow> string \<Rightarrow> ('c, unit) py" where
  "delete_pod kb nm = (\<lambda>c.
     case k_delete_pod kb nm c of
       (Inl (ApiErr st), c') \<Rightarrow> if st = 404 then (Inr (), c') else (Inl (ApiErr st), c')
     | (Inl e, c') \<Rightarrow> (Inl e, c')
     | (Inr _, c') \<Rightarrow> delete_poll kb nm (k_now kb c' + 60) delete_fuel c')"

fun delete_pods :: "'c kube \<Rightarrow> string list \<Rightarrow> ('c, unit) py" where
  "delete_pods kb [] = ret ()"
| "delete_pods kb (nm # nms) = andThen (delete_pod kb nm) (\<lambda>_. delete_pods kb nms)"

text \<open>\<^verbatim>\<open>except client.ApiException: pass\<close> around the whole sweep.\<close>

definition delete_workers :: "'c kube \<Rightarrow> ('c pool, unit) py" where
  "delete_workers kb = andThen (reads cfg) (\<lambda>cf.
     on_cluster (tryExcept
       (andThen (k_list_pods kb [(''app'', app_label cf), (''role'', worker_role)]) (delete_pods kb))
       (\<lambda>e. case e of ApiErr _ \<Rightarrow> ret () | _ \<Rightarrow> throw e)))"

section \<open>Spawning\<close>

definition is_unschedulable :: "pod_status \<Rightarrow> bool" where
  "is_unschedulable p \<longleftrightarrow> (\<exists>c \<in> set (conditions p).
     cd_type c = ''PodScheduled'' \<and> cd_status c = ''False'' \<and> cd_reason c = ''Unschedulable'')"

definition terminal_waits :: "string list" where
  "terminal_waits = [''ImagePullBackOff'', ''InvalidImageName'', ''ImageInspectError'', ''RegistryUnavailable'']"

fun image_pull_error :: "string option list \<Rightarrow> string option" where
  "image_pull_error [] = None"
| "image_pull_error (None # ws) = image_pull_error ws"
| "image_pull_error (Some r # ws) = (if r \<in> set terminal_waits then Some r else image_pull_error ws)"

text \<open>The verdict of the events of a watch.\<close>

fun watch_verdict :: "pod_status list \<Rightarrow> exn option \<Rightarrow> exn + bool" where
  "watch_verdict [] (Some e) = Inl e"
| "watch_verdict [] None = Inl (SandboxStartupErr ''did not reach Running'')"
| "watch_verdict (p # ps) e =
     (if phase p = ''Running'' then Inr True
      else if phase p = ''Failed'' then Inl (SandboxStartupErr ''failed to start'')
      else if image_pull_error (waiting p) \<noteq> None then Inl (SandboxStartupErr ''cannot pull image'')
      else if is_unschedulable p then Inr False
      else watch_verdict ps e)"

text \<open>\<^verbatim>\<open>int(x)\<close> of a float.\<close>

definition py_trunc :: "rat \<Rightarrow> int" where
  "py_trunc q = (if 0 \<le> q then \<lfloor>q\<rfloor> else \<lceil>q\<rceil>)"

definition wait_placed :: "'c kube \<Rightarrow> sandbox_config \<Rightarrow> string \<Rightarrow> ('c, bool) py" where
  "wait_placed kb cf nm = andThen (k_watch kb nm (py_trunc (startup_timeout_s cf)))
     (\<lambda>(ps, e). case watch_verdict ps e of Inl x \<Rightarrow> throw x | Inr b \<Rightarrow> ret b)"

definition worker_name :: "sandbox_config \<Rightarrow> nat \<Rightarrow> string" where
  "worker_name cf n = app_label cf @ CHR ''-'' # dec n"

text \<open>\<^verbatim>\<open>_try_spawn\<close> from the name on: the worker, or why the cluster will not place it.\<close>

definition place_worker :: "'c kube \<Rightarrow> sandbox_config \<Rightarrow> string \<Rightarrow> ('c, worker + string) py" where
  "place_worker kb cf nm =
     andThen (delete_pod kb nm) (\<lambda>_.
     andThen (tryExcept (andThen (k_create_pod kb (build_worker_pod cf nm)) (\<lambda>_. ret None))
       (\<lambda>e. if e = ApiErr 403 then ret (Some ''admission rejected (quota exhausted)'') else throw e)) (\<lambda>refused.
     case refused of
       Some why \<Rightarrow> ret (Inr why)
     | None \<Rightarrow>
         andThen (tryExcept (wait_placed kb cf nm)
           (\<lambda>e. andThen (delete_pod kb nm) (\<lambda>_. throw e))) (\<lambda>placed_ok.
         if placed_ok then
           andThen (reads (k_now kb)) (\<lambda>now.
           ret (Inl \<lparr>w_name = nm, w_created = now, w_uses = 0\<rparr>))
         else andThen (delete_pod kb nm) (\<lambda>_. ret (Inr ''unschedulable'')))))"

definition try_spawn :: "'c kube \<Rightarrow> ('c pool, worker + string) py" where
  "try_spawn kb =
     andThen (updates (\<lambda>s. s\<lparr>serial := serial s + 1, spawned_n := spawned_n s + 1\<rparr>)) (\<lambda>_.
     andThen (reads (\<lambda>s. (cfg s, worker_name (cfg s) (serial s)))) (\<lambda>(cf, nm).
     on_cluster (place_worker kb cf nm)))"

definition spawn :: "'c kube \<Rightarrow> ('c pool, worker) py" where
  "spawn kb = andThen (try_spawn kb) (\<lambda>r.
     case r of Inl w \<Rightarrow> ret w | Inr why \<Rightarrow> throw (SandboxStartupErr ''worker could not be placed''))"

section \<open>Starting and closing\<close>

definition ensure_namespace :: "'c kube \<Rightarrow> ('c pool, unit) py" where
  "ensure_namespace kb = andThen (reads cfg) (\<lambda>cf.
     on_cluster (andThen (k_list_ns kb) (\<lambda>names.
       if namespace cf \<notin> set names then k_create_ns kb (namespace cf) else ret ())))"

definition ensure_network_policy :: "'c kube \<Rightarrow> ('c pool, unit) py" where
  "ensure_network_policy kb = andThen (reads cfg) (\<lambda>cf.
     on_cluster (tryExcept (k_create_np kb (egress_policy cf))
       (\<lambda>e. if e = ApiErr 409 then k_replace_np kb (egress_policy cf) else throw e)))"

text \<open>Installing the hooks; the registration with \<^verbatim>\<open>atexit\<close> is the flag itself.\<close>

definition install_cleanup_hooks :: "'c kube \<Rightarrow> ('c pool, unit) py" where
  "install_cleanup_hooks kb = (\<lambda>s.
     if hooks_on s \<or> \<not> auto_cleanup (cfg s) then (Inr (), s)
     else (case k_hook_sigterm kb (cluster s) of
         (Inr h, c) \<Rightarrow> (Inr (), s\<lparr>hooks_on := True, prev_sigterm := Some h, cluster := c\<rparr>)
       | (Inl (ValueErr m), c) \<Rightarrow> (Inr (), s\<lparr>hooks_on := True, prev_sigterm := None, cluster := c\<rparr>)
       | (Inl OsErr, c) \<Rightarrow> (Inr (), s\<lparr>hooks_on := True, prev_sigterm := None, cluster := c\<rparr>)
       | (Inl e, c) \<Rightarrow> (Inl e, s\<lparr>hooks_on := True, cluster := c\<rparr>)))"

fun spawn_loop :: "'c kube \<Rightarrow> nat \<Rightarrow> worker list \<Rightarrow> ('c pool, worker list \<times> string list) py" where
  "spawn_loop kb 0 placed_ws = ret (placed_ws, [])"
| "spawn_loop kb (Suc n) placed_ws = andThen (try_spawn kb) (\<lambda>r.
     case r of Inl w \<Rightarrow> spawn_loop kb n (placed_ws @ [w]) | Inr why \<Rightarrow> ret (placed_ws, [why]))"

definition pool_floor :: "sandbox_config \<Rightarrow> int" where
  "pool_floor cf = (case min_pool_size cf of None \<Rightarrow> pool_size cf | Some m \<Rightarrow> if m = 0 then pool_size cf else m)"

definition warm :: "'c kube \<Rightarrow> ('c pool, pool_start_report option) py" where
  "warm kb = andThen (reads cfg) (\<lambda>cf.
     andThen (spawn_loop kb (nat (pool_size cf)) []) (\<lambda>(placed_ws, whys).
     if int (length placed_ws) < pool_floor cf then
       andThen (on_cluster (delete_pods kb (map w_name placed_ws))) (\<lambda>_.
       throw (SandboxStartupErr ''below min_pool_size''))
     else
       andThen (updates (\<lambda>s. s\<lparr>free_q := free_q s @ placed_ws,
         start_rep := Some \<lparr>requested = pool_size cf, placed = int (length placed_ws), reasons = whys\<rparr>,
         is_started := True\<rparr>)) (\<lambda>_. reads start_rep)))"

definition start :: "'c kube \<Rightarrow> ('c pool, pool_start_report option) py" where
  "start kb = andThen (reads (\<lambda>s. (is_started s, cfg s))) (\<lambda>(st, cf).
     if st then reads start_rep
     else
       andThen (install_cleanup_hooks kb) (\<lambda>_.
       andThen (if manage_namespace cf then ensure_namespace kb else ret ()) (\<lambda>_.
       andThen (if reclaim_on_start cf then delete_workers kb else ret ()) (\<lambda>_.
       andThen (if manage_network_policy cf then ensure_network_policy kb else ret ()) (\<lambda>_.
       warm kb)))))"

definition close_pool :: "'c kube \<Rightarrow> ('c pool, unit) py" where
  "close_pool kb =
     andThen (updates (\<lambda>s. s\<lparr>is_closed := True\<rparr>)) (\<lambda>_.
     andThen (delete_workers kb) (\<lambda>_.
     updates (\<lambda>s. s\<lparr>free_q := []\<rparr>)))"

definition atexit_close :: "'c kube \<Rightarrow> ('c pool, unit) py" where
  "atexit_close kb = tryExcept (close_pool kb) (\<lambda>_. ret ())"

datatype sig_outcome = Chained | Ignored | SystemExit int

definition handle_sigterm :: "'c kube \<Rightarrow> int \<Rightarrow> ('c pool, sig_outcome) py" where
  "handle_sigterm kb signum = andThen (atexit_close kb) (\<lambda>_. andThen (reads prev_sigterm) (\<lambda>prev.
     ret (case prev of Some SigCallable \<Rightarrow> Chained | Some SigIgnore \<Rightarrow> Ignored | _ \<Rightarrow> SystemExit (128 + signum))))"

section \<open>Leasing and releasing\<close>

definition lease :: "'c kube \<Rightarrow> ('c pool, worker) py" where
  "lease kb = (\<lambda>s.
     case free_q s of
       w # ws \<Rightarrow> (Inr w, s\<lparr>free_q := ws\<rparr>)
     | [] \<Rightarrow>
         (case acquire_timeout_s (cfg s) of
            None \<Rightarrow> (Inl WouldBlock, s)
          | Some t \<Rightarrow> (Inl (SandboxErr ''no sandbox worker became available''),
              s\<lparr>cluster := k_sleep kb t (cluster s)\<rparr>)))"

text \<open>\<^verbatim>\<open>clean\<close> overrides \<^verbatim>\<open>fresh_workdir_per_run\<close>; \<open>None\<close> leaves the choice to it.\<close>

definition release :: "'c kube \<Rightarrow> worker \<Rightarrow> bool \<Rightarrow> bool option \<Rightarrow> ('c pool, unit) py" where
  "release kb w retire clean = andThen (clock kb) (\<lambda>now. andThen (reads cfg) (\<lambda>cf.
     let w' = w\<lparr>w_uses := w_uses w + 1\<rparr>
     in if retire \<or> spent now w' (max_uses cf) (max_age_s cf) then start_task (ReplaceTask w')
        else if (case clean of None \<Rightarrow> fresh_workdir_per_run cf | Some b \<Rightarrow> b) then start_task (CleanTask w')
        else put_free w'))"

definition retire_worker :: "worker \<Rightarrow> ('c pool, unit) py" where
  "retire_worker w = start_task (ReplaceTask w)"

section \<open>Commands in a worker\<close>

definition run_command :: "'c kube \<Rightarrow> worker \<Rightarrow> command \<Rightarrow> rat \<Rightarrow> ('c, string \<times> string \<times> int) py" where
  "run_command kb w cmd t = (\<lambda>c. case k_exec kb (w_name w) cmd c of (cv, c') \<Rightarrow> (exec_capture cv t, c'))"

definition upload :: "'c kube \<Rightarrow> worker \<Rightarrow> (string, byte list) dict \<Rightarrow> rat \<Rightarrow> ('c, unit) py" where
  "upload kb w fs t = (\<lambda>c. case k_upload kb (w_name w) fs c of (cv, c') \<Rightarrow>
     ((case upload_files cv t of None \<Rightarrow> Inr () | Some e \<Rightarrow> Inl e), c'))"

definition clean_workspace :: "'c kube \<Rightarrow> sandbox_config \<Rightarrow> worker \<Rightarrow> rat \<Rightarrow> ('c, unit) py" where
  "clean_workspace kb cf w t =
     andThen (tryExcept (run_command kb w (CleanerScript (scratch_dir cf)) (max t 15))
       (\<lambda>e. if e = ExecTimeout then throw (SandboxErr ''workspace cleanup timed out'') else throw e))
     (\<lambda>(out, _, ec). if ec \<noteq> 0 \<or> \<not> sublist ''CLEAN_OK'' out
        then throw (SandboxErr ''workspace cleanup failed'') else ret ())"

datatype collect_arg = CollectNone | CollectAll | CollectPaths "string list"

text \<open>\<^verbatim>\<open>if collect:\<close>; an empty list asks for nothing.\<close>

definition collects :: "collect_arg \<Rightarrow> bool" where
  "collects k \<longleftrightarrow> (case k of CollectNone \<Rightarrow> False | CollectAll \<Rightarrow> True | CollectPaths ps \<Rightarrow> ps \<noteq> [])"

definition collect_want :: "collect_arg \<Rightarrow> string list option" where
  "collect_want k = (case k of CollectPaths ps \<Rightarrow> Some ps | _ \<Rightarrow> None)"

definition collect :: "'c kube \<Rightarrow> sandbox_config \<Rightarrow> worker \<Rightarrow> collect_arg \<Rightarrow> rat \<Rightarrow>
    ('c, (string, byte list) dict \<times> json list) py" where
  "collect kb cf w k t =
     andThen (tryExcept
       (andThen (run_command kb w (CollectorScript (scratch_dir cf) (collect_want k) (max_collect_bytes cf)) (max t 15))
         (\<lambda>x. ret (Some x)))
       (\<lambda>e. if e = ExecTimeout then ret None else throw e))
     (\<lambda>x. case x of None \<Rightarrow> ret ([], [])
        | Some (out, _, ec) \<Rightarrow> (case collect_reply ec out of Inl e \<Rightarrow> throw e | Inr r \<Rightarrow> ret r))"

text \<open>\<^verbatim>\<open>round(d, 3)\<close>.\<close>

definition round3 :: "rat \<Rightarrow> rat" where
  "round3 d = of_int (round_even (d * 1000)) / 1000"

definition too_big :: "sandbox_config \<Rightarrow> (string, byte list) dict \<Rightarrow> bool" where
  "too_big cf fs \<longleftrightarrow> int (total_size fs) > max_upload_bytes cf"

text \<open>An absent or empty \<^verbatim>\<open>input_files\<close> is the empty map.\<close>

definition exec_on_worker :: "'c kube \<Rightarrow> sandbox_config \<Rightarrow> worker \<Rightarrow> string list \<Rightarrow> rat \<Rightarrow> collect_arg \<Rightarrow>
    env_vars option \<Rightarrow> (string, byte list) dict \<Rightarrow> bool \<Rightarrow> ('c, json run_result) py" where
  "exec_on_worker kb cf w argv t k env input clean =
     (if input \<noteq> [] \<and> too_big cf input then throw (ValueErr ''input_files exceeds max_upload_bytes'')
      else (case with_env argv env of
        Inl e \<Rightarrow> throw e
      | Inr argv' \<Rightarrow>
          andThen (reads (k_now kb)) (\<lambda>t0.
          andThen (if clean then clean_workspace kb cf w t else ret ()) (\<lambda>_.
          andThen (if input \<noteq> [] then upload kb w input t else ret ()) (\<lambda>_.
          andThen (run_command kb w (Argv argv') t) (\<lambda>(out, err, code).
          andThen (if collects k then collect kb cf w k t else ret ([], [])) (\<lambda>(fs, trunc).
          andThen (reads (k_now kb)) (\<lambda>t1.
          ret \<lparr>stdout = out, stderr = err, exit_code = Some code, timed_out = False,
               duration_s = round3 (t1 - t0), sandbox_id = w_name w,
               files = fs, files_truncated = trunc\<rparr>))))))))"

section \<open>Running\<close>

definition timeout_of :: "sandbox_config \<Rightarrow> rat option \<Rightarrow> rat" where
  "timeout_of cf t = (case t of None \<Rightarrow> default_timeout_s cf | Some x \<Rightarrow> x)"

text \<open>The result of a run that was cut off.\<close>

definition timeout_result :: "rat \<Rightarrow> string \<Rightarrow> json run_result" where
  "timeout_result d nm = \<lparr>stdout = [], stderr = [], exit_code = None, timed_out = True,
     duration_s = round3 d, sandbox_id = nm, files = [], files_truncated = []\<rparr>"

text \<open>
  What the handlers around a run make of its outcome: what the caller sees, and whether the worker is to
  be retired. The pool, a session and the start of a stream use the same handlers.
\<close>

definition run_outcome :: "rat \<Rightarrow> string \<Rightarrow> exn + json run_result \<Rightarrow> (exn + json run_result) \<times> bool" where
  "run_outcome d nm r =
     (case r of
        Inr res \<Rightarrow> (Inr res, False)
      | Inl ExecTimeout \<Rightarrow> (Inr (timeout_result d nm), True)
      | Inl (UploadErr m) \<Rightarrow> (Inl (SandboxErr ''failed to upload input files''), True)
      | Inl e \<Rightarrow> (Inl e, True))"

definition held_run :: "'c kube \<Rightarrow> worker \<Rightarrow> string list \<Rightarrow> rat \<Rightarrow> collect_arg \<Rightarrow> env_vars option \<Rightarrow>
    (string, byte list) dict \<Rightarrow> ('c pool, (exn + json run_result) \<times> bool) py" where
  "held_run kb w argv t k env input = (\<lambda>s.
     case exec_on_worker kb (cfg s) w argv t k env input False (cluster s) of
       (r, c) \<Rightarrow> (Inr (run_outcome (k_now kb c - k_now kb (cluster s)) (w_name w) r), s\<lparr>cluster := c\<rparr>))"

definition dispatch :: "'c kube \<Rightarrow> string list \<Rightarrow> rat option \<Rightarrow> collect_arg \<Rightarrow> env_vars option \<Rightarrow>
    (string, byte list) dict \<Rightarrow> ('c pool, json run_result) py" where
  "dispatch kb argv t k env input = andThen (reads (\<lambda>s. (is_closed s, is_started s, cfg s))) (\<lambda>(cl, st, cf).
     if cl then throw (SandboxPoolClosed ''run() called on a closed pool'')
     else
       andThen (if st then ret None else start kb) (\<lambda>_.
       andThen (lease kb) (\<lambda>w.
       andThen (held_run kb w argv (timeout_of cf t) k env input) (\<lambda>(r, retire).
       andThen (release kb w retire None) (\<lambda>_.
       case r of Inl e \<Rightarrow> throw e | Inr res \<Rightarrow> ret res)))))"

definition run :: "'c kube \<Rightarrow> string \<Rightarrow> rat option \<Rightarrow> collect_arg \<Rightarrow> env_vars option \<Rightarrow>
    (string, byte list) dict \<Rightarrow> ('c pool, json run_result) py" where
  "run kb code t k env input = andThen (reads cfg) (\<lambda>cf. dispatch kb (interpreter cf @ [code]) t k env input)"

definition shell :: "'c kube \<Rightarrow> string \<Rightarrow> rat option \<Rightarrow> collect_arg \<Rightarrow> env_vars option \<Rightarrow>
    (string, byte list) dict \<Rightarrow> ('c pool, json run_result) py" where
  "shell kb cmd = dispatch kb [''sh'', ''-c'', cmd]"

definition exec :: "'c kube \<Rightarrow> string list \<Rightarrow> rat option \<Rightarrow> collect_arg \<Rightarrow> env_vars option \<Rightarrow>
    (string, byte list) dict \<Rightarrow> ('c pool, json run_result) py" where
  "exec kb argv t k env input =
     (if argv = [] then throw (ValueErr ''argv must be a non-empty list'') else dispatch kb argv t k env input)"

text \<open>The upload of a project: the tree with the extra files laid over it.\<close>

definition project_files :: "sandbox_config \<Rightarrow> host option \<Rightarrow> string list \<Rightarrow> bool \<Rightarrow> (string, byte list) dict \<Rightarrow>
    exn + (string, byte list) dict" where
  "project_files cf dir excl follow extra =
     (case read_project_tree dir excl (max_upload_bytes cf) follow of
        Inl e \<Rightarrow> Inl e
      | Inr fs \<Rightarrow> Inr (dict_update fs extra))"

definition run_project :: "'c kube \<Rightarrow> host option \<Rightarrow> string list \<Rightarrow> rat option \<Rightarrow> collect_arg \<Rightarrow> env_vars option \<Rightarrow>
    string list \<Rightarrow> bool \<Rightarrow> (string, byte list) dict \<Rightarrow> ('c pool, json run_result) py" where
  "run_project kb dir entry t k env excl follow extra = andThen (reads cfg) (\<lambda>cf.
     if entry = [] then throw (ValueErr ''entrypoint must be a non-empty argv list'')
     else (case project_files cf dir excl follow extra of
         Inl e \<Rightarrow> throw e
       | Inr fs \<Rightarrow> dispatch kb entry t k env fs))"

record pool_stats =
  st_pool_size :: int
  st_requested :: int
  st_placed :: int
  st_shortfall :: int
  st_free :: nat
  st_spawned :: nat
  st_retired :: nat
  st_started :: bool
  st_closed :: bool

definition stats :: "'c pool \<Rightarrow> pool_stats" where
  "stats s = \<lparr>st_pool_size = pool_size (cfg s),
     st_requested = (case start_rep s of None \<Rightarrow> pool_size (cfg s) | Some r \<Rightarrow> requested r),
     st_placed = (case start_rep s of None \<Rightarrow> 0 | Some r \<Rightarrow> placed r),
     st_shortfall = (case start_rep s of None \<Rightarrow> 0 | Some r \<Rightarrow> shortfall r),
     st_free = length (free_q s), st_spawned = spawned_n s, st_retired = retired_n s,
     st_started = is_started s, st_closed = is_closed s\<rparr>"

section \<open>Background threads\<close>

text \<open>
  The threads in pieces, each from one point where other threads may act to the next; a piece gives what is left of
  the thread, or \<open>None\<close>. First \<^verbatim>\<open>_clean_and_return\<close>: look at \<^verbatim>\<open>_closed\<close>, then wipe; a failed wipe retires.
\<close>

definition clean_check :: "worker \<Rightarrow> ('c pool, task option) py" where
  "clean_check w = andThen (reads is_closed) (\<lambda>cl. ret (if cl then None else Some (Cleaning w)))"

definition clean_wipe :: "'c kube \<Rightarrow> worker \<Rightarrow> ('c pool, task option) py" where
  "clean_wipe kb w = andThen (reads cfg) (\<lambda>cf.
     tryExcept
       (andThen (on_cluster (clean_workspace kb cf w (max (default_timeout_s cf) 15))) (\<lambda>_. ret (Some (PutBack w))))
       (\<lambda>_. andThen (retire_worker w) (\<lambda>_. ret None)))"

text \<open>
  \<^verbatim>\<open>_replace\<close>: it deletes the old pod outside any handler, so an exception there ends the thread; then up to three
  attempts, each looking at \<^verbatim>\<open>_closed\<close> before it spawns, with a pause after a failed one.
\<close>

definition replace_delete :: "'c kube \<Rightarrow> worker \<Rightarrow> ('c pool, task option) py" where
  "replace_delete kb w =
     andThen (on_cluster (delete_pod kb (w_name w))) (\<lambda>_.
     andThen (updates (\<lambda>s. s\<lparr>retired_n := retired_n s + 1\<rparr>)) (\<lambda>_.
     ret (Some (Attempt 0))))"

definition replace_check :: "nat \<Rightarrow> ('c pool, task option) py" where
  "replace_check n = andThen (reads is_closed) (\<lambda>cl. ret (if cl then None else Some (Spawning n)))"

definition replace_spawn :: "'c kube \<Rightarrow> nat \<Rightarrow> ('c pool, task option) py" where
  "replace_spawn kb n =
     tryExcept (andThen (spawn kb) (\<lambda>w. ret (Some (PutBack w))))
       (\<lambda>_. if n = 2 then ret None
           else andThen (updates (\<lambda>s. s\<lparr>cluster := k_sleep kb (min (2 * 2 ^ n) 8) (cluster s)\<rparr>))
                  (\<lambda>_. ret (Some (Attempt (n + 1)))))"

text \<open>One step of any thread; both kinds end by putting a worker on the queue.\<close>

definition task_step :: "'c kube \<Rightarrow> task \<Rightarrow> ('c pool, task option) py" where
  "task_step kb t =
     (case t of
        CleanTask w \<Rightarrow> clean_check w
      | Cleaning w \<Rightarrow> clean_wipe kb w
      | PutBack w \<Rightarrow> andThen (put_free w) (\<lambda>_. ret None)
      | ReplaceTask w \<Rightarrow> replace_delete kb w
      | Attempt n \<Rightarrow> replace_check n
      | Spawning n \<Rightarrow> replace_spawn kb n)"

lemmas task_step_defs = task_step_def clean_check_def clean_wipe_def replace_delete_def replace_check_def replace_spawn_def

text \<open>A whole thread run alone, as far as the fuel goes.\<close>

fun run_task :: "'c kube \<Rightarrow> nat \<Rightarrow> task \<Rightarrow> ('c pool, unit) py" where
  "run_task kb 0 t = throw WouldBlock"
| "run_task kb (Suc n) t = andThen (task_step kb t) (\<lambda>r. case r of None \<Rightarrow> ret () | Some t' \<Rightarrow> run_task kb n t')"

text \<open>One background step of the pool: the task at a position moves on; a thread that raises is gone.\<close>

definition thread_step :: "'c kube \<Rightarrow> nat \<Rightarrow> 'c pool \<Rightarrow> 'c pool" where
  "thread_step kb i s =
     (let s' = s\<lparr>tasks := take i (tasks s) @ drop (Suc i) (tasks s)\<rparr>
      in case task_step kb (tasks s ! i) s' of
           (Inr (Some t), s'') \<Rightarrow> s''\<lparr>tasks := tasks s'' @ [t]\<rparr>
         | (_, s'') \<Rightarrow> s'')"

definition new_pool :: "sandbox_config \<Rightarrow> 'c \<Rightarrow> exn + 'c pool" where
  "new_pool cf c =
     (case validate cf of
        Inl e \<Rightarrow> Inl e
      | Inr _ \<Rightarrow> Inr \<lparr>cfg = cf, free_q = [], serial = 0, spawned_n = 0, retired_n = 0,
          is_started = False, is_closed = False, start_rep = None, hooks_on = False,
          prev_sigterm = None, tasks = [], cluster = c\<rparr>)"

end
