(* ===== verification/PoolInv.thy ===== *)
theory PoolInv
  imports Pool
begin

text \<open>
  What the operations of the pool keep. The frame lemmas say which fields an operation can change; on
  top of them the concurrent behaviour of the pool is a step relation (callers that lease and release,
  background threads, a closing thread and an environment that changes on its own) with the
  ownership, capacity, use and cleanliness invariants of its reachable states.
\<close>

section \<open>Frames\<close>

lemma andThen_assoc: "andThen (andThen m f) g = andThen m (\<lambda>x. andThen (f x) g)"
  by (auto simp: andThen_def fun_eq_iff split: prod.splits sum.splits)

lemma ret_andThen: "andThen (ret x) f = f x"
  by (simp add: andThen_def ret_def fun_eq_iff)

lemma reads_andThen: "andThen (reads g) f s = f (g s) s"
  by (simp add: andThen_def reads_def)

lemma andThen_cases:
  assumes "andThen m f s = (r, s')"
  obtains (raised) e where "m s = (Inl e, s')" "r = Inl e"
    | (cont) x t where "m s = (Inr x, t)" "f x t = (r, s')"
  using assms by (auto simp: andThen_def split: prod.splits sum.splits)

lemma on_cluster_frame:
  assumes "on_cluster m s = (r, s')"
  obtains c where "s' = s\<lparr>cluster := c\<rparr>" "m (cluster s) = (r, c)"
  using assms by (auto simp: on_cluster_def split: prod.splits)

lemma place_worker_result:
  assumes "place_worker kb cf nm c = (Inr (Inl w), c')"
  shows "w_name w = nm \<and> w_uses w = 0"
  using assms
  by (auto simp: place_worker_def elim!: andThen_cases split: option.splits if_splits)
    (auto simp: ret_def reads_def)

text \<open>A spawn changes the counters and the cluster only; a new worker has the next name.\<close>

lemma try_spawn_frame:
  assumes "try_spawn kb s = (r, s')"
  obtains c where "s' = s\<lparr>serial := serial s + 1, spawned_n := spawned_n s + 1, cluster := c\<rparr>"
    and "\<And>w. r = Inr (Inl w) \<Longrightarrow> w_name w = worker_name (cfg s) (serial s + 1) \<and> w_uses w = 0"
proof -
  let ?t = "s\<lparr>serial := serial s + 1, spawned_n := spawned_n s + 1\<rparr>"
  from assms have run: "on_cluster (place_worker kb (cfg s) (worker_name (cfg s) (serial s + 1))) ?t = (r, s')"
    by (simp add: try_spawn_def andThen_def updates_def reads_def)
  from on_cluster_frame [OF this] obtain c where c: "s' = ?t\<lparr>cluster := c\<rparr>"
    "place_worker kb (cfg s) (worker_name (cfg s) (serial s + 1)) (cluster ?t) = (r, c)"
    by blast
  show thesis
  proof (rule that [of c])
    show "s' = s\<lparr>serial := serial s + 1, spawned_n := spawned_n s + 1, cluster := c\<rparr>" using c(1) by simp
    show "w_name w = worker_name (cfg s) (serial s + 1) \<and> w_uses w = 0" if "r = Inr (Inl w)" for w
      using place_worker_result [OF c(2) [unfolded that]] .
  qed
qed

lemma spawn_frame:
  assumes "spawn kb s = (r, s')"
  obtains c where "s' = s\<lparr>serial := serial s + 1, spawned_n := spawned_n s + 1, cluster := c\<rparr>"
    and "\<And>w. r = Inr w \<Longrightarrow> w_name w = worker_name (cfg s) (serial s + 1) \<and> w_uses w = 0"
proof -
  from assms obtain r' where t: "try_spawn kb s = (r', s')" and r: "\<And>w. r = Inr w \<Longrightarrow> r' = Inr (Inl w)"
    by (auto simp: spawn_def andThen_def ret_def throw_def split: prod.splits sum.splits)
  show thesis by (rule try_spawn_frame [OF t]) (use that r in blast)
qed

text \<open>The workers a start places have consecutive names.\<close>

lemma spawn_loop_frame:
  "spawn_loop kb n ws s = (r, s') \<Longrightarrow>
    \<exists>k sp c. s' = s\<lparr>serial := serial s + k, spawned_n := sp, cluster := c\<rparr> \<and>
      (\<forall>ws' whys. r = Inr (ws', whys) \<longrightarrow>
        (\<exists>new. ws' = ws @ new \<and> length new \<le> n \<and> length new \<le> k \<and>
          map w_name new = map (\<lambda>i. worker_name (cfg s) (serial s + i + 1)) [0..<length new] \<and>
          (\<forall>w \<in> set new. w_uses w = 0)))"
proof (induction n arbitrary: ws s)
  case 0
  then have "s' = s\<lparr>serial := serial s + 0, spawned_n := spawned_n s, cluster := cluster s\<rparr>"
    and "r = Inr (ws, [])" by (auto simp: ret_def)
  then show ?case by (intro exI [of _ 0] exI [of _ "spawned_n s"] exI [of _ "cluster s"]) auto
next
  case (Suc n)
  from Suc.prems [unfolded spawn_loop.simps] show ?case
  proof (cases rule: andThen_cases)
    case (raised e)
    obtain c where "s' = s\<lparr>serial := serial s + 1, spawned_n := spawned_n s + 1, cluster := c\<rparr>"
      by (rule try_spawn_frame [OF raised(1)]) blast
    with raised(2) show ?thesis by blast
  next
    case (cont x t)
    obtain c where t: "t = s\<lparr>serial := serial s + 1, spawned_n := spawned_n s + 1, cluster := c\<rparr>"
      and new: "\<And>w. x = Inl w \<Longrightarrow> w_name w = worker_name (cfg s) (serial s + 1) \<and> w_uses w = 0"
      by (rule try_spawn_frame [OF cont(1)]) blast
    show ?thesis
    proof (cases x)
      case (Inl w)
      with cont(2) have "spawn_loop kb n (ws @ [w]) t = (r, s')" by simp
      from Suc.IH [OF this] obtain k sp c' where
        s': "s' = t\<lparr>serial := serial t + k, spawned_n := sp, cluster := c'\<rparr>"
        and res: "\<And>ws' whys. r = Inr (ws', whys) \<Longrightarrow>
          (\<exists>new. ws' = (ws @ [w]) @ new \<and> length new \<le> n \<and> length new \<le> k \<and>
            map w_name new = map (\<lambda>i. worker_name (cfg t) (serial t + i + 1)) [0..<length new] \<and>
            (\<forall>w \<in> set new. w_uses w = 0))" by blast
      have "s' = s\<lparr>serial := serial s + Suc k, spawned_n := sp, cluster := c'\<rparr>"
        using s' t by simp
      moreover have "\<exists>new. ws' = ws @ new \<and> length new \<le> Suc n \<and> length new \<le> Suc k \<and>
          map w_name new = map (\<lambda>i. worker_name (cfg s) (serial s + i + 1)) [0..<length new] \<and>
          (\<forall>w \<in> set new. w_uses w = 0)" if r: "r = Inr (ws', whys)" for ws' whys
      proof -
        from res [OF r] obtain new where n: "ws' = (ws @ [w]) @ new" "length new \<le> n" "length new \<le> k"
          "map w_name new = map (\<lambda>i. worker_name (cfg t) (serial t + i + 1)) [0..<length new]"
          "\<forall>w \<in> set new. w_uses w = 0" by blast
        have "map w_name (w # new) = map (\<lambda>i. worker_name (cfg s) (serial s + i + 1)) [0..<length (w # new)]"
          using n(4) new [OF Inl] t by (simp add: upt_conv_Cons map_Suc_upt [symmetric] del: upt_Suc)
        with n new [OF Inl] show ?thesis by (intro exI [of _ "w # new"]) auto
      qed
      ultimately show ?thesis by blast
    next
      case (Inr why)
      with cont(2) have "r = Inr (ws, [why])" "s' = t" by (simp_all add: ret_def)
      moreover from t have "t = s\<lparr>serial := serial s + 1, spawned_n := spawned_n s + 1, cluster := c\<rparr>" .
      ultimately show ?thesis by (intro exI [of _ 1] exI [of _ "spawned_n s + 1"] exI [of _ c]) simp
    qed
  qed
qed

text \<open>What a step of a background thread does, case by case.\<close>

lemma task_step_CleanTask:
  "task_step kb (CleanTask w) s = (Inr (if is_closed s then None else Some (Cleaning w)), s)"
  and task_step_PutBack:
  "task_step kb (PutBack w) s = (Inr None, s\<lparr>free_q := free_q s @ [w]\<rparr>)"
  and task_step_Attempt:
  "task_step kb (Attempt n) s = (Inr (if is_closed s then None else Some (Spawning n)), s)"
  by (simp_all add: task_step_defs put_free_def py_defs)

lemma task_step_Cleaning:
  assumes "task_step kb (Cleaning w) s = (r, s')"
  obtains (clean) c where "r = Inr (Some (PutBack w))" "s' = s\<lparr>cluster := c\<rparr>"
      "clean_workspace kb (cfg s) w (max (default_timeout_s (cfg s)) 15) (cluster s) = (Inr (), c)"
    | (dirty) c e where "r = Inr None" "s' = s\<lparr>cluster := c, tasks := tasks s @ [ReplaceTask w]\<rparr>"
      "clean_workspace kb (cfg s) w (max (default_timeout_s (cfg s)) 15) (cluster s) = (Inl e, c)"
proof -
  obtain q c where q: "clean_workspace kb (cfg s) w (max (default_timeout_s (cfg s)) 15) (cluster s) = (q, c)"
    by fastforce
  show thesis
  proof (cases q)
    case (Inl e)
    with q assms show thesis
      by (intro dirty [of c e]) (auto simp: task_step_defs py_defs on_cluster_def retire_worker_def start_task_def)
  next
    case (Inr u)
    with q assms show thesis
      by (intro clean [of c]) (auto simp: task_step_defs py_defs on_cluster_def)
  qed
qed

lemma task_step_ReplaceTask:
  assumes "task_step kb (ReplaceTask w) s = (r, s')"
  obtains (raised) c e where "r = Inl e" "s' = s\<lparr>cluster := c\<rparr>" "delete_pod kb (w_name w) (cluster s) = (Inl e, c)"
    | (deleted) c where "r = Inr (Some (Attempt 0))" "s' = s\<lparr>cluster := c, retired_n := retired_n s + 1\<rparr>"
      "delete_pod kb (w_name w) (cluster s) = (Inr (), c)"
proof -
  obtain q c where q: "delete_pod kb (w_name w) (cluster s) = (q, c)" by fastforce
  show thesis
  proof (cases q)
    case (Inl e)
    with q assms show thesis
      by (intro raised [of e c]) (auto simp: task_step_defs py_defs on_cluster_def)
  next
    case (Inr u)
    with q assms show thesis
      by (intro deleted [of c]) (auto simp: task_step_defs py_defs on_cluster_def)
  qed
qed

lemma task_step_Spawning:
  assumes "task_step kb (Spawning n) s = (r, s')"
  obtains (placed) w c where "r = Inr (Some (PutBack w))" "w_name w = worker_name (cfg s) (serial s + 1)" "w_uses w = 0"
      "s' = s\<lparr>serial := serial s + 1, spawned_n := spawned_n s + 1, cluster := c\<rparr>"
    | (failed) t c where "r = Inr t" "t = None \<and> n = 2 \<or> t = Some (Attempt (n + 1)) \<and> n \<noteq> 2"
      "s' = s\<lparr>serial := serial s + 1, spawned_n := spawned_n s + 1, cluster := c\<rparr>"
proof -
  obtain q s1 where q: "spawn kb s = (q, s1)" by fastforce
  from spawn_frame [OF q] obtain c where
    s1: "s1 = s\<lparr>serial := serial s + 1, spawned_n := spawned_n s + 1, cluster := c\<rparr>"
    and new: "\<And>w. q = Inr w \<Longrightarrow> w_name w = worker_name (cfg s) (serial s + 1) \<and> w_uses w = 0" by blast
  show thesis
  proof (cases q)
    case (Inr w)
    with q assms new s1 show thesis
      by (intro placed [of w c]) (auto simp: task_step_defs py_defs)
  next
    case (Inl e)
    show thesis
    proof (cases "n = 2")
      case True
      with q assms s1 Inl show thesis
        by (intro failed [of None c]) (auto simp: task_step_defs py_defs)
    next
      case False
      with q assms s1 Inl show thesis
        by (intro failed [of "Some (Attempt (n + 1))" "k_sleep kb (min (2 * 2 ^ n) 8) c"])
          (auto simp: task_step_defs py_defs)
    qed
  qed
qed

section \<open>The concurrent pool\<close>

text \<open>
  A state is the pool, the workers held by callers, and the names of the workers used since their
  last wipe (a history variable). Callers, threads, the closing thread and the environment interleave.
\<close>

type_synonym 'c sys = "'c pool \<times> worker list \<times> string set"

definition wiped :: "'c kube \<Rightarrow> nat \<Rightarrow> 'c pool \<Rightarrow> string set" where
  "wiped kb i s =
     (case tasks s ! i of
        Cleaning w \<Rightarrow>
          (case clean_workspace kb (cfg s) w (max (default_timeout_s (cfg s)) 15) (cluster s) of
             (Inr _, _) \<Rightarrow> {w_name w}
           | _ \<Rightarrow> {})
      | _ \<Rightarrow> {})"

inductive pool_step :: "'c kube \<Rightarrow> 'c sys \<Rightarrow> 'c sys \<Rightarrow> bool" for kb where
  step_start: "start kb p = (r, p') \<Longrightarrow> pool_step kb (p, h, d) (p', h, d)"
| step_lease: "lease kb p = (Inr w, p') \<Longrightarrow> pool_step kb (p, h, d) (p', w # h, insert (w_name w) d)"
| step_no_worker: "lease kb p = (Inl e, p') \<Longrightarrow> pool_step kb (p, h, d) (p', h, d)"
| step_environment: "pool_step kb (p, h, d) (p\<lparr>cluster := c\<rparr>, h, d)"
| step_release: "w \<in> set h \<Longrightarrow> clean \<noteq> Some False \<Longrightarrow> release kb w retire clean p = (r, p') \<Longrightarrow>
    pool_step kb (p, h, d) (p', remove1 w h, d)"
| step_retire: "w \<in> set h \<Longrightarrow> retire_worker w p = (r, p') \<Longrightarrow> pool_step kb (p, h, d) (p', remove1 w h, d)"
| step_thread: "i < length (tasks p) \<Longrightarrow> pool_step kb (p, h, d) (thread_step kb i p, h, d - wiped kb i p)"
| step_close: "close_pool kb p = (r, p') \<Longrightarrow> pool_step kb (p, h, d) (p', h, d)"

text \<open>The states a pool reaches from its construction.\<close>

definition reachable :: "'c kube \<Rightarrow> sandbox_config \<Rightarrow> 'c sys \<Rightarrow> bool" where
  "reachable kb cf s \<longleftrightarrow> (\<exists>c p. new_pool cf c = Inr p \<and> (pool_step kb)\<^sup>*\<^sup>* (p, [], {}) s)"

fun task_worker :: "task \<Rightarrow> worker list" where
  "task_worker (CleanTask w) = [w]"
| "task_worker (Cleaning w) = [w]"
| "task_worker (PutBack w) = [w]"
| "task_worker (ReplaceTask w) = [w]"
| "task_worker (Attempt n) = []"
| "task_worker (Spawning n) = []"

definition owned :: "'c pool \<Rightarrow> worker list \<Rightarrow> worker list" where
  "owned p h = free_q p @ h @ concat (map task_worker (tasks p))"

section \<open>Operations that leave the queue alone\<close>

definition frame :: "'c pool \<Rightarrow> 'c pool \<Rightarrow> bool" where
  "frame s s' \<longleftrightarrow> cfg s' = cfg s \<and> free_q s' = free_q s \<and> tasks s' = tasks s \<and>
     start_rep s' = start_rep s \<and> is_started s' = is_started s \<and> serial s \<le> serial s'"

lemma frame_refl [simp]: "frame s s"
  by (simp add: frame_def)

lemma frame_cluster [py_intros]: "keeps (frame s0) (on_cluster m)"
  by (auto simp: keeps_def on_cluster_def frame_def split: prod.splits)

lemma frame_delete_workers [py_intros]: "keeps (frame s0) (delete_workers kb)"
  and frame_namespace [py_intros]: "keeps (frame s0) (ensure_namespace kb)"
  and frame_policy [py_intros]: "keeps (frame s0) (ensure_network_policy kb)"
  unfolding delete_workers_def ensure_namespace_def ensure_network_policy_def
  by (intro py_intros)+

lemma frame_hooks [py_intros]: "keeps (frame s0) (install_cleanup_hooks kb)"
  by (auto simp: keeps_def install_cleanup_hooks_def frame_def split: prod.splits sum.splits exn.splits)

lemma frame_close:
  assumes "close_pool kb s = (r, s')"
  shows "cfg s' = cfg s \<and> tasks s' = tasks s \<and> start_rep s' = start_rep s \<and> is_started s' = is_started s \<and>
    serial s \<le> serial s' \<and> (free_q s' = free_q s \<or> free_q s' = []) \<and> is_closed s'"
proof -
  let ?t = "s\<lparr>is_closed := True\<rparr>"
  obtain q u where q: "delete_workers kb ?t = (q, u)" by fastforce
  have "frame ?t u" using keepsD [OF frame_delete_workers _ q, of ?t] by simp
  moreover have "is_closed u"
    using q by (auto simp: delete_workers_def andThen_def reads_def on_cluster_def split: prod.splits)
  ultimately show ?thesis
    using assms q by (cases q) (auto simp: close_pool_def andThen_def updates_def frame_def)
qed

text \<open>Starting: nothing happens to the queue, or the pool is warm with new workers.\<close>

definition warmed :: "'c pool \<Rightarrow> 'c pool \<Rightarrow> bool" where
  "warmed s s' \<longleftrightarrow>
    (\<exists>new whys. cfg s' = cfg s \<and> tasks s' = tasks s \<and> is_started s' \<and> free_q s' = free_q s @ new \<and>
      start_rep s' = Some \<lparr>requested = pool_size (cfg s), placed = int (length new), reasons = whys\<rparr> \<and>
      int (length new) \<ge> pool_floor (cfg s) \<and> length new \<le> nat (pool_size (cfg s)) \<and>
      serial s + length new \<le> serial s' \<and> (\<forall>w \<in> set new. w_uses w = 0) \<and>
      map w_name new = map (\<lambda>i. worker_name (cfg s) (serial s + i + 1)) [0..<length new])"

lemma warm_result:
  assumes "warm kb s = (r, s')"
  shows "frame s s' \<or> warmed s s'"
proof -
  obtain q t where q: "spawn_loop kb (nat (pool_size (cfg s))) [] s = (q, t)" by fastforce
  from spawn_loop_frame [OF this] obtain k sp c where
    t: "t = s\<lparr>serial := serial s + k, spawned_n := sp, cluster := c\<rparr>"
    and new: "\<And>ws' whys. q = Inr (ws', whys) \<Longrightarrow> length ws' \<le> nat (pool_size (cfg s)) \<and> length ws' \<le> k \<and>
        map w_name ws' = map (\<lambda>i. worker_name (cfg s) (serial s + i + 1)) [0..<length ws'] \<and>
        (\<forall>w \<in> set ws'. w_uses w = 0)" by auto
  have ft: "frame s t" using t by (simp add: frame_def)
  show ?thesis
  proof (cases q)
    case (Inl e)
    with q assms ft show ?thesis by (simp add: warm_def andThen_def reads_def)
  next
    case (Inr x)
    obtain ws whys where x: "x = (ws, whys)" by (cases x)
    show ?thesis
    proof (cases "int (length ws) < pool_floor (cfg s)")
      case True
      let ?undo = "andThen (on_cluster (delete_pods kb (map w_name ws)))
          (\<lambda>_. throw (SandboxStartupErr ''below min_pool_size'')) :: ('a pool, pool_start_report option) py"
      from True q Inr x assms have "?undo t = (r, s')"
        by (simp add: warm_def andThen_def [of "reads cfg"] andThen_def [of "spawn_loop _ _ _"] reads_def)
      moreover have "keeps (frame s) ?undo" by (intro py_intros)
      ultimately show ?thesis using ft keepsD [of "frame s" ?undo t] by blast
    next
      case False
      with q Inr x assms have "s' = t\<lparr>free_q := free_q t @ ws,
          start_rep := Some \<lparr>requested = pool_size (cfg s), placed = int (length ws), reasons = whys\<rparr>,
          is_started := True\<rparr>"
        by (auto simp: warm_def andThen_def reads_def updates_def)
      with False new [of ws whys] Inr x t show ?thesis
        unfolding warmed_def by (intro disjI2 exI [of _ ws] exI [of _ whys]) auto
    qed
  qed
qed

lemma start_result:
  assumes "start kb s = (r, s')"
  shows "frame s s' \<or> \<not> is_started s \<and> (\<exists>t. frame s t \<and> warmed t s')"
proof (cases "is_started s")
  case True
  with assms show ?thesis by (auto simp: start_def andThen_def reads_def)
next
  case False
  define prep where "prep = andThen (install_cleanup_hooks kb) (\<lambda>_.
       andThen (if manage_namespace (cfg s) then ensure_namespace kb else ret ()) (\<lambda>_.
       andThen (if reclaim_on_start (cfg s) then delete_workers kb else ret ()) (\<lambda>_.
       (if manage_network_policy (cfg s) then ensure_network_policy kb else ret ()))))"
  have keep: "keeps (frame s) prep" unfolding prep_def by (intro py_intros)
  obtain q t where q: "prep s = (q, t)" by fastforce
  from keepsD [OF keep _ q] have ft: "frame s t" by simp
  have "start kb s = andThen prep (\<lambda>_. warm kb) s"
    using False by (simp only: start_def prep_def reads_andThen andThen_assoc prod.case if_False)
  with q have "start kb s = (case q of Inl e \<Rightarrow> (Inl e, t) | Inr _ \<Rightarrow> warm kb t)"
    by (simp add: andThen_def)
  with assms consider "s' = t" | "warm kb t = (r, s')" by (cases q) auto
  then show ?thesis
  proof cases
    case 2
    from warm_result [OF this] ft False show ?thesis by (auto simp: frame_def)
  qed (use ft in simp)
qed

end
