(* ===== verification/PoolSafety.thy ===== *)
theory PoolSafety
  imports PoolInv "HOL-Library.Multiset"
begin

text \<open>
  The invariant of the concurrent pool and what follows from it: no worker is in two hands, the number of
  workers in circulation never grows beyond what was placed, no worker is used more often than allowed, and
  no used workspace is handed out unwiped.
\<close>

section \<open>The effect of a background step\<close>

definition moved :: "'c kube \<Rightarrow> nat \<Rightarrow> 'c pool \<Rightarrow> worker list \<Rightarrow> task list \<Rightarrow> nat \<Rightarrow> bool" where
  "moved kb i s fq ts n \<longleftrightarrow>
     (case tasks s ! i of
        CleanTask w \<Rightarrow> fq = [] \<and> n = 0 \<and> (ts = [] \<or> ts = [Cleaning w])
      | Cleaning w \<Rightarrow> fq = [] \<and> n = 0 \<and> (ts = [PutBack w] \<and> w_name w \<in> wiped kb i s \<or> ts = [ReplaceTask w])
      | PutBack w \<Rightarrow> fq = [w] \<and> n = 0 \<and> ts = []
      | ReplaceTask w \<Rightarrow> fq = [] \<and> n = 0 \<and> (ts = [] \<or> ts = [Attempt 0])
      | Attempt k \<Rightarrow> fq = [] \<and> n = 0 \<and> (ts = [] \<or> ts = [Spawning k])
      | Spawning k \<Rightarrow> fq = [] \<and> n = 1 \<and> (ts = [] \<or> ts = [Attempt (k + 1)] \<or>
          (\<exists>w. ts = [PutBack w] \<and> w_name w = worker_name (cfg s) (serial s + 1) \<and> w_uses w = 0)))"

definition after_step :: "nat \<Rightarrow> 'c pool \<Rightarrow> worker list \<Rightarrow> task list \<Rightarrow> nat \<Rightarrow> nat \<Rightarrow> nat \<Rightarrow> 'c \<Rightarrow> 'c pool" where
  "after_step i s fq ts n sp rt c =
     s\<lparr>free_q := free_q s @ fq, tasks := take i (tasks s) @ drop (Suc i) (tasks s) @ ts,
       serial := serial s + n, spawned_n := sp, retired_n := rt, cluster := c\<rparr>"

lemma thread_step_effect:
  "\<exists>fq ts n sp rt c. thread_step kb i s = after_step i s fq ts n sp rt c \<and> moved kb i s fq ts n"
proof -
  define s0 where "s0 = s\<lparr>tasks := take i (tasks s) @ drop (Suc i) (tasks s)\<rparr>"
  obtain r s1 where run: "task_step kb (tasks s ! i) s0 = (r, s1)" by fastforce
  have ts: "thread_step kb i s = (case r of Inr (Some t) \<Rightarrow> s1\<lparr>tasks := tasks s1 @ [t]\<rparr> | _ \<Rightarrow> s1)"
    using run by (simp add: thread_step_def Let_def s0_def split: sum.splits option.splits)
  have s0: "cfg s0 = cfg s" "cluster s0 = cluster s" "serial s0 = serial s" "is_closed s0 = is_closed s"
    by (simp_all add: s0_def)
  have form: "thread_step kb i s = after_step i s fq tl n (spawned_n s1) (retired_n s1) (cluster s1)"
    if "thread_step kb i s = s1\<lparr>tasks := tasks s0 @ tl\<rparr>" "free_q s1 = free_q s @ fq" "serial s1 = serial s + n"
      "s1 = s0\<lparr>free_q := free_q s1, tasks := tasks s1, serial := serial s1, spawned_n := spawned_n s1,
        retired_n := retired_n s1, cluster := cluster s1\<rparr>" for fq tl n
  proof -
    have "s1\<lparr>tasks := tasks s0 @ tl\<rparr> = s\<lparr>free_q := free_q s1, tasks := tasks s0 @ tl, serial := serial s1,
        spawned_n := spawned_n s1, retired_n := retired_n s1, cluster := cluster s1\<rparr>"
      by (subst that(4)) (simp add: s0_def)
    with that show ?thesis by (simp add: after_step_def s0_def)
  qed
  have result: ?thesis
    if "thread_step kb i s = s1\<lparr>tasks := tasks s0 @ tl\<rparr>" "free_q s1 = free_q s @ fq" "serial s1 = serial s + n"
      "s1 = s0\<lparr>free_q := free_q s1, tasks := tasks s1, serial := serial s1, spawned_n := spawned_n s1,
        retired_n := retired_n s1, cluster := cluster s1\<rparr>" "moved kb i s fq tl n" for fq tl n
    using form [OF that(1-4)] that(5) by blast
  show ?thesis
  proof (cases "tasks s ! i")
    case (CleanTask w)
    with run task_step_CleanTask [of kb w s0]
    have "r = Inr (if is_closed s0 then None else Some (Cleaning w))" "s1 = s0" by auto
    with ts CleanTask show ?thesis
      by (intro result [of "if is_closed s0 then [] else [Cleaning w]" "[]" 0])
        (auto simp: moved_def s0_def)
  next
    case (PutBack w)
    with run task_step_PutBack [of kb w s0]
    have "r = Inr None" "s1 = s0\<lparr>free_q := free_q s0 @ [w]\<rparr>" by auto
    with ts PutBack show ?thesis
      by (intro result [of "[]" "[w]" 0]) (auto simp: moved_def s0_def)
  next
    case (Attempt k)
    with run task_step_Attempt [of kb k s0]
    have "r = Inr (if is_closed s0 then None else Some (Spawning k))" "s1 = s0" by auto
    with ts Attempt show ?thesis
      by (intro result [of "if is_closed s0 then [] else [Spawning k]" "[]" 0])
        (auto simp: moved_def s0_def)
  next
    case (Cleaning w)
    from run [unfolded Cleaning] show ?thesis
    proof (cases rule: task_step_Cleaning)
      case (clean c)
      then have "w_name w \<in> wiped kb i s" using Cleaning s0 by (simp add: wiped_def)
      with clean ts Cleaning show ?thesis
        by (intro result [of "[PutBack w]" "[]" 0]) (auto simp: moved_def s0_def)
    next
      case (dirty c e)
      with ts Cleaning show ?thesis
        by (intro result [of "[ReplaceTask w]" "[]" 0]) (auto simp: moved_def s0_def)
    qed
  next
    case (ReplaceTask w)
    from run [unfolded ReplaceTask] show ?thesis
    proof (cases rule: task_step_ReplaceTask)
      case (raised c e)
      with ts ReplaceTask show ?thesis
        by (intro result [of "[]" "[]" 0]) (auto simp: moved_def s0_def)
    next
      case (deleted c)
      with ts ReplaceTask show ?thesis
        by (intro result [of "[Attempt 0]" "[]" 0]) (auto simp: moved_def s0_def)
    qed
  next
    case (Spawning k)
    from run [unfolded Spawning] show ?thesis
    proof (cases rule: task_step_Spawning)
      case (placed w c)
      with ts Spawning show ?thesis
        by (intro result [of "[PutBack w]" "[]" 1]) (auto simp: moved_def s0_def)
    next
      case (failed t c)
      with ts Spawning show ?thesis
        by (intro result [of "case t of None \<Rightarrow> [] | Some u \<Rightarrow> [u]" "[]" 1])
          (auto simp: moved_def s0_def)
    qed
  qed
qed

section \<open>The invariant\<close>

definition ledger :: "sandbox_config \<Rightarrow> nat \<Rightarrow> string multiset" where
  "ledger cf n = mset (map (worker_name cf) [1..<Suc n])"

definition names :: "'c pool \<Rightarrow> worker list \<Rightarrow> string multiset" where
  "names p h = mset (map w_name (owned p h))"

fun live_worker :: "task \<Rightarrow> worker list" where
  "live_worker (ReplaceTask w) = []"
| "live_worker t = task_worker t"

fun ready_worker :: "task \<Rightarrow> worker list" where
  "ready_worker (PutBack w) = [w]"
| "ready_worker t = []"

definition inv_names :: "'c sys \<Rightarrow> bool" where
  "inv_names = (\<lambda>(p, h, d). names p h \<subseteq># ledger (cfg p) (serial p) \<and> d \<subseteq> set_mset (ledger (cfg p) (serial p)))"

definition inv_uses :: "'c sys \<Rightarrow> bool" where
  "inv_uses = (\<lambda>(p, h, d). \<forall>w \<in> set (free_q p) \<union> set h \<union> set (concat (map live_worker (tasks p))).
     w_uses w < max_uses (cfg p))"

definition inv_slots :: "'c sys \<Rightarrow> bool" where
  "inv_slots = (\<lambda>(p, h, d).
     if is_started p then
       (\<exists>rep. start_rep p = Some rep \<and> int (length (free_q p) + length h + length (tasks p)) \<le> placed rep \<and>
          pool_floor (cfg p) \<le> placed rep \<and> placed rep \<le> pool_size (cfg p) \<and> requested rep = pool_size (cfg p))
     else free_q p = [] \<and> h = [] \<and> tasks p = [])"

definition inv_wiped :: "'c sys \<Rightarrow> bool" where
  "inv_wiped = (\<lambda>(p, h, d). fresh_workdir_per_run (cfg p) \<longrightarrow>
     (\<forall>w \<in> set (free_q p) \<union> set (concat (map ready_worker (tasks p))). w_name w \<notin> d))"

section \<open>Preservation\<close>

lemma worker_name_inject [simp]: "worker_name cf i = worker_name cf j \<longleftrightarrow> i = j"
  by (simp add: worker_name_def)

lemma ledger_mono: "m \<le> n \<Longrightarrow> ledger cf m \<subseteq># ledger cf n"
proof -
  assume "m \<le> n"
  then have "[1..<Suc n] = [1..<Suc m] @ [Suc m..<Suc n]"
    using upt_add_eq_append [of 1 "Suc m" "n - m"] by simp
  then have "ledger cf n = ledger cf m + mset (map (worker_name cf) [Suc m..<Suc n])"
    unfolding ledger_def by (simp only: map_append mset_append)
  then show ?thesis by simp
qed

lemma ledger_Suc: "ledger cf (Suc n) = add_mset (worker_name cf (Suc n)) (ledger cf n)"
  by (simp add: ledger_def)

lemma in_ledger: "worker_name cf k \<in># ledger cf n \<longleftrightarrow> 1 \<le> k \<and> k \<le> n"
  by (auto simp: ledger_def)

lemma ledger_distinct: "names p h \<subseteq># ledger (cfg p) n \<Longrightarrow> distinct (map w_name (owned p h))"
proof -
  assume "names p h \<subseteq># ledger (cfg p) n"
  moreover have "distinct (map (worker_name (cfg p)) [1..<Suc n])"
    by (simp add: distinct_map inj_on_def del: upt_Suc)
  then have "\<forall>x. count (ledger (cfg p) n) x \<le> 1"
    unfolding ledger_def distinct_count_atmost_1 by (metis order_refl zero_le)
  ultimately have "\<forall>x. count (mset (map w_name (owned p h))) x \<le> 1"
    unfolding names_def by (meson mset_subset_eq_count order_trans)
  then show ?thesis
    unfolding distinct_count_atmost_1 by (metis count_greater_zero_iff count_mset_0_iff le_antisym less_one linorder_not_le not_in_iff set_mset_mset)
qed

lemma names_eq:
  "names p h = image_mset w_name (mset (free_q p)) + image_mset w_name (mset h) +
    image_mset w_name (mset (concat (map task_worker (tasks p))))"
  by (simp add: names_def owned_def ac_simps)

lemma release_result:
  assumes "release kb w retire clean p = (r, p')"
  obtains w' where "w_name w' = w_name w"
    "p' = p\<lparr>tasks := tasks p @ [ReplaceTask w']\<rparr> \<or>
     (w_uses w' < max_uses (cfg p) \<and>
       (p' = p\<lparr>tasks := tasks p @ [CleanTask w']\<rparr> \<or>
        p' = p\<lparr>free_q := free_q p @ [w']\<rparr> \<and> (clean = Some False \<or> clean = None \<and> \<not> fresh_workdir_per_run (cfg p))))"
proof -
  let ?w = "w\<lparr>w_uses := w_uses w + 1\<rparr>"
  from assms show thesis
    by (intro that [of ?w])
      (auto simp: release_def clock_def andThen_def reads_def Let_def start_task_def put_free_def updates_def
        spent_def not_le split: if_splits option.splits)
qed

lemma lease_result:
  assumes "lease kb p = (r, p')"
  shows "(\<exists>w ws. free_q p = w # ws \<and> r = Inr w \<and> p' = p\<lparr>free_q := ws\<rparr>) \<or>
    (free_q p = [] \<and> (\<exists>e c. r = Inl e \<and> p' = p\<lparr>cluster := c\<rparr>))"
proof (cases "free_q p")
  case Nil
  have "\<exists>c. p = p\<lparr>cluster := c\<rparr>" by (rule exI [of _ "cluster p"]) simp
  with Nil assms show ?thesis by (auto simp: lease_def split: option.splits)
next
  case (Cons w ws)
  with assms show ?thesis by (simp add: lease_def)
qed

text \<open>Names: every step keeps them within the ledger.\<close>

lemma warmed_names: "warmed t s' \<Longrightarrow> mset (map w_name (free_q s')) \<subseteq>#
    mset (map w_name (free_q t)) + mset (map (worker_name (cfg t)) [Suc (serial t)..<Suc (serial s')])"
proof -
  assume "warmed t s'"
  then obtain new where n: "free_q s' = free_q t @ new" "serial t + length new \<le> serial s'"
    "map w_name new = map (\<lambda>i. worker_name (cfg t) (serial t + i + 1)) [0..<length new]"
    by (auto simp: warmed_def)
  have "map (\<lambda>i. worker_name (cfg t) (serial t + i + 1)) [0..<length new] =
      map (worker_name (cfg t)) [Suc (serial t)..<Suc (serial t + length new)]"
    by (rule nth_equalityI) (simp_all del: upt_Suc)
  moreover have "[Suc (serial t)..<Suc (serial s')] = [Suc (serial t)..<Suc (serial t + length new)] @
      [Suc (serial t + length new)..<Suc (serial s')]"
    using n(2) upt_add_eq_append [of "Suc (serial t)" "Suc (serial t + length new)" "serial s' - (serial t + length new)"]
    by simp
  ultimately show ?thesis using n(1,3) by (simp del: upt_Suc)
qed

lemma ledger_add: "m \<le> n \<Longrightarrow> ledger cf m + mset (map (worker_name cf) [Suc m..<Suc n]) = ledger cf n"
proof -
  assume "m \<le> n"
  then have "[1..<Suc n] = [1..<Suc m] @ [Suc m..<Suc n]"
    using upt_add_eq_append [of 1 "Suc m" "n - m"] by simp
  then show ?thesis unfolding ledger_def by (simp only: map_append mset_append)
qed

lemma moved_size: "moved kb i p fq ts n \<Longrightarrow> length fq + length ts \<le> 1"
  by (cases "tasks p ! i") (auto simp: moved_def)

lemma moved_live:
  "moved kb i p fq ts n \<Longrightarrow>
    set fq \<union> set (concat (map live_worker ts)) \<subseteq> set (live_worker (tasks p ! i)) \<union> {w. w_uses w = 0}"
  by (cases "tasks p ! i") (auto simp: moved_def)

lemma moved_names:
  "moved kb i p fq ts n \<Longrightarrow>
    image_mset w_name (mset fq) + image_mset w_name (mset (concat (map task_worker ts))) \<subseteq>#
      image_mset w_name (mset (task_worker (tasks p ! i))) + mset (map (worker_name (cfg p)) [Suc (serial p)..<Suc (serial p + n)])"
  by (cases "tasks p ! i") (auto simp: moved_def)

lemma step_names:
  assumes "pool_step kb (p, h, d) (p', h', d')"
  shows "cfg p' = cfg p \<and> serial p \<le> serial p' \<and>
    (names p h \<subseteq># ledger (cfg p) (serial p) \<longrightarrow> names p' h' \<subseteq># ledger (cfg p) (serial p'))"
  using assms
proof cases
  case (step_start r)
  from start_result [OF step_start(3)] show ?thesis
  proof (elim disjE conjE exE)
    assume "frame p p'"
    with step_start show ?thesis
      by (auto simp: frame_def names_eq intro: subset_mset.order_trans ledger_mono)
  next
    fix t assume t: "frame p t" "warmed t p'"
    have eqs: "cfg p' = cfg p" "tasks p' = tasks p" "cfg t = cfg p" "serial p \<le> serial t" "serial t \<le> serial p'"
      "free_q t = free_q p"
      using t by (auto simp: frame_def warmed_def)
    show ?thesis
    proof (intro conjI impI)
      assume "names p h \<subseteq># ledger (cfg p) (serial p)"
      then have le: "names p h \<subseteq># ledger (cfg p) (serial t)"
        using ledger_mono [OF eqs(4)] by (rule subset_mset.order_trans)
      have "names p' h' \<subseteq># names p h + mset (map (worker_name (cfg p)) [Suc (serial t)..<Suc (serial p')])"
        using warmed_names [OF t(2)] eqs step_start by (simp add: names_eq ac_simps del: upt_Suc)
      also have "\<dots> \<subseteq># ledger (cfg p) (serial t) + mset (map (worker_name (cfg p)) [Suc (serial t)..<Suc (serial p')])"
        using le by simp
      also have "\<dots> = ledger (cfg p) (serial p')" using eqs(5) by (rule ledger_add)
      finally show "names p' h' \<subseteq># ledger (cfg p) (serial p')" .
    qed (use eqs in auto)
  qed
next
  case (step_lease w)
  with lease_result [OF step_lease(3)] show ?thesis by (auto simp: names_eq ac_simps)
next
  case (step_no_worker e)
  with lease_result [OF step_no_worker(3)] show ?thesis by (auto simp: names_eq)
next
  case (step_environment c)
  then show ?thesis by (simp add: names_eq)
next
  case (step_release w clean r)
  from step_release have h: "mset h = add_mset w (mset h')" by simp
  obtain w' where "w_name w' = w_name w"
    "p' = p\<lparr>tasks := tasks p @ [ReplaceTask w']\<rparr> \<or> p' = p\<lparr>tasks := tasks p @ [CleanTask w']\<rparr> \<or>
      p' = p\<lparr>free_q := free_q p @ [w']\<rparr>"
    by (rule release_result [OF step_release(5)]) blast
  with h show ?thesis by (auto simp: names_eq)
next
  case (step_retire w r)
  then have "mset h = add_mset w (mset h')" "p' = p\<lparr>tasks := tasks p @ [ReplaceTask w]\<rparr>"
    by (simp_all add: retire_worker_def start_task_def updates_def)
  then show ?thesis by (simp add: names_eq)
next
  case (step_thread i)
  obtain fq ts n sp rt c where p': "p' = after_step i p fq ts n sp rt c" and mv: "moved kb i p fq ts n"
    using thread_step_effect [of kb i p] step_thread(1) by blast
  have "mset (concat (map task_worker (tasks p))) = mset (task_worker (tasks p ! i)) +
      mset (concat (map task_worker (take i (tasks p) @ drop (Suc i) (tasks p))))"
    by (subst id_take_nth_drop [OF step_thread(4)]) (simp del: append_take_drop_id)
  then have own: "names p h = image_mset w_name (mset (free_q p)) + image_mset w_name (mset h) +
      (image_mset w_name (mset (task_worker (tasks p ! i))) +
      image_mset w_name (mset (concat (map task_worker (take i (tasks p) @ drop (Suc i) (tasks p))))))"
    by (simp only: names_eq image_mset_union)
  have "image_mset w_name (mset fq) + image_mset w_name (mset (concat (map task_worker ts))) \<subseteq>#
      image_mset w_name (mset (task_worker (tasks p ! i))) + mset (map (worker_name (cfg p)) [Suc (serial p)..<Suc (serial p + n)])"
    using mv by (rule moved_names)
  then have "names p' h' \<subseteq># names p h + mset (map (worker_name (cfg p)) [Suc (serial p)..<Suc (serial p')])"
    using step_thread(2) unfolding own p' by (simp add: names_eq after_step_def ac_simps del: upt_Suc)
  note grow = this
  have same: "cfg p' = cfg p" "serial p \<le> serial p'" by (simp_all add: p' after_step_def)
  show ?thesis
  proof (intro conjI impI same)
    assume "names p h \<subseteq># ledger (cfg p) (serial p)"
    then have "names p h + mset (map (worker_name (cfg p)) [Suc (serial p)..<Suc (serial p')]) \<subseteq>#
        ledger (cfg p) (serial p')"
      unfolding ledger_add [OF same(2), symmetric] by (simp only: subset_mset.add_le_cancel_right)
    with grow show "names p' h' \<subseteq># ledger (cfg p) (serial p')" by (rule subset_mset.order_trans)
  qed
next
  case (step_close r)
  note closing = frame_close [OF step_close(3)]
  then have "names p' h' \<subseteq># names p h" using step_close(1) by (auto simp: names_eq add.assoc)
  with closing show ?thesis using ledger_mono [of "serial p" "serial p'" "cfg p"]
    by (blast intro: subset_mset.order_trans)
qed

text \<open>The other invariants, one lemma each.\<close>

lemma set_concat_after:
  "i < length xs \<Longrightarrow> set (concat (map f xs)) = set (f (xs ! i)) \<union> set (concat (map f (take i xs @ drop (Suc i) xs)))"
proof -
  assume "i < length xs"
  then have "concat (map f xs) = concat (map f (take i xs)) @ f (xs ! i) @ concat (map f (drop (Suc i) xs))"
  proof -
    have "concat (map f (as @ b # bs)) = concat (map f as) @ f b @ concat (map f bs)" for as b bs by simp
    from this [of "take i xs" "xs ! i" "drop (Suc i) xs"] id_take_nth_drop [OF \<open>i < length xs\<close>]
    show ?thesis by (simp del: concat_append)
  qed
  then show ?thesis by auto
qed

lemma step_uses:
  assumes "pool_step kb (p, h, d) (p', h', d')" "inv_uses (p, h, d)" "0 < max_uses (cfg p)"
  shows "inv_uses (p', h', d')"
  using assms(1)
proof cases
  case (step_start r)
  from start_result [OF step_start(3)] show ?thesis
    using assms(2,3) step_start by (auto simp: frame_def warmed_def inv_uses_def)
next
  case (step_lease w)
  with lease_result [OF step_lease(3)] assms(2) show ?thesis by (auto simp: inv_uses_def ball_Un)
next
  case (step_no_worker e)
  with lease_result [OF step_no_worker(3)] assms(2) show ?thesis by (auto simp: inv_uses_def ball_Un)
next
  case (step_environment c)
  with assms(2) show ?thesis by (simp add: inv_uses_def)
next
  case (step_release w clean r)
  have "set h' \<subseteq> set h" using step_release by (simp add: set_remove1_subset)
  with assms(2) show ?thesis
    by (rule_tac release_result [OF step_release(5)]) (auto simp: inv_uses_def ball_Un)
next
  case (step_retire w r)
  then have "set h' \<subseteq> set h" "p' = p\<lparr>tasks := tasks p @ [ReplaceTask w]\<rparr>"
    by (simp_all add: retire_worker_def start_task_def updates_def set_remove1_subset)
  with assms(2) show ?thesis by (auto simp: inv_uses_def ball_Un)
next
  case (step_thread i)
  obtain fq ts n sp rt c where p': "p' = after_step i p fq ts n sp rt c" and mv: "moved kb i p fq ts n"
    using thread_step_effect [of kb i p] step_thread(1) by blast
  have "set fq \<union> set (concat (map live_worker ts)) \<subseteq> set (live_worker (tasks p ! i)) \<union> {w. w_uses w = 0}"
    using mv by (rule moved_live)
  moreover have "set (free_q p') \<union> set h' \<union> set (concat (map live_worker (tasks p'))) =
      set (free_q p) \<union> set h \<union> (set fq \<union> set (concat (map live_worker ts))) \<union>
      set (concat (map live_worker (take i (tasks p) @ drop (Suc i) (tasks p))))"
    using step_thread(2) unfolding p' after_step_def by auto
  ultimately have "set (free_q p') \<union> set h' \<union> set (concat (map live_worker (tasks p'))) \<subseteq>
      set (free_q p) \<union> set h \<union> set (concat (map live_worker (tasks p))) \<union> {w. w_uses w = 0}"
    unfolding set_concat_after [OF step_thread(4), of live_worker] by blast
  moreover have "cfg p' = cfg p" by (simp add: p' after_step_def)
  ultimately show ?thesis
    using assms(2,3) unfolding inv_uses_def prod.case by (metis (mono_tags, lifting) Un_iff mem_Collect_eq subsetD)
next
  case (step_close r)
  with frame_close [OF step_close(3)] assms(2) show ?thesis by (auto simp: inv_uses_def ball_Un)
qed

lemma step_slots:
  assumes "pool_step kb (p, h, d) (p', h', d')" "inv_slots (p, h, d)" "0 < pool_size (cfg p)"
  shows "inv_slots (p', h', d')"
  using assms(1)
proof cases
  case (step_start r)
  from start_result [OF step_start(3)] show ?thesis
  proof (elim disjE conjE exE)
    assume "frame p p'"
    with assms(2) step_start show ?thesis by (auto simp: frame_def inv_slots_def)
  next
    fix t assume "\<not> is_started p" "frame p t" "warmed t p'"
    with assms(2,3) step_start show ?thesis by (auto simp: frame_def warmed_def inv_slots_def)
  qed
next
  case (step_lease w)
  with lease_result [OF step_lease(3)] assms(2) show ?thesis by (auto simp: inv_slots_def split: if_splits)
next
  case (step_no_worker e)
  with lease_result [OF step_no_worker(3)] assms(2) show ?thesis by (auto simp: inv_slots_def)
next
  case (step_environment c)
  with assms(2) show ?thesis by (auto simp: inv_slots_def)
next
  case (step_release w clean r)
  then have h: "Suc (length h') = length h" using length_pos_if_in_set [of w h] by (simp add: length_remove1)
  with assms(2) have "is_started p" by (auto simp: inv_slots_def split: if_splits)
  with h assms(2) show ?thesis
    by (rule_tac release_result [OF step_release(5)]) (auto simp: inv_slots_def)
next
  case (step_retire w r)
  then have h: "Suc (length h') = length h" "p' = p\<lparr>tasks := tasks p @ [ReplaceTask w]\<rparr>"
    using length_pos_if_in_set [of w h]
    by (simp_all add: retire_worker_def start_task_def updates_def length_remove1)
  with assms(2) have "is_started p" by (auto simp: inv_slots_def split: if_splits)
  with h assms(2) show ?thesis by (auto simp: inv_slots_def)
next
  case (step_thread i)
  obtain fq ts n sp rt c where p': "p' = after_step i p fq ts n sp rt c" and mv: "moved kb i p fq ts n"
    using thread_step_effect [of kb i p] step_thread(1) by blast
  have "length fq + length ts \<le> 1" using mv by (rule moved_size)
  moreover from assms(2) step_thread(4) have "is_started p" by (auto simp: inv_slots_def split: if_splits)
  ultimately show ?thesis
    using assms(2) step_thread(2,4) by (auto simp: inv_slots_def p' after_step_def min_def)
next
  case (step_close r)
  with frame_close [OF step_close(3)] assms(2) show ?thesis by (auto simp: inv_slots_def split: if_splits)
qed

text \<open>Once the pool is started, the number of places that can hold a worker never grows again.\<close>

definition slots :: "'c sys \<Rightarrow> nat" where
  "slots = (\<lambda>(p, h, d). length (free_q p) + length h + length (tasks p))"

definition at_most :: "nat \<Rightarrow> 'c sys \<Rightarrow> bool" where
  "at_most n s \<longleftrightarrow> is_started (fst s) \<and> slots s \<le> n"

lemma release_slots:
  assumes "release kb w retire clean p = (r, p')"
  shows "length (free_q p') + length (tasks p') = Suc (length (free_q p) + length (tasks p)) \<and> is_started p' = is_started p"
  by (rule release_result [OF assms]) auto

lemma step_stays_started:
  assumes "pool_step kb (p, h, d) (p', h', d')" "is_started p"
  shows "is_started p'"
  using assms(1)
proof cases
  case (step_start r)
  with start_result [OF step_start(3)] assms(2) show ?thesis by (auto simp: frame_def)
next
  case (step_release w clean r)
  with release_slots [OF step_release(5)] assms(2) show ?thesis by simp
next
  case (step_thread i)
  obtain fq ts n sp rt c where "p' = after_step i p fq ts n sp rt c" "moved kb i p fq ts n"
    using thread_step_effect [of kb i p] step_thread(1) by blast
  with assms(2) show ?thesis by (simp add: after_step_def)
qed (use assms(2) in \<open>auto dest: lease_result frame_close simp: retire_worker_def start_task_def updates_def\<close>)

lemma step_slots_le:
  assumes "pool_step kb (p, h, d) (p', h', d')" "is_started p' = is_started p"
  shows "slots (p', h', d') \<le> slots (p, h, d)"
  using assms(1)
proof cases
  case (step_start r)
  with start_result [OF step_start(3)] assms(2) show ?thesis by (auto simp: frame_def slots_def warmed_def)
next
  case (step_lease w)
  with lease_result [OF step_lease(3)] show ?thesis by (auto simp: slots_def)
next
  case (step_no_worker e)
  with lease_result [OF step_no_worker(3)] show ?thesis by (auto simp: slots_def)
next
  case (step_environment c)
  then show ?thesis by (simp add: slots_def)
next
  case (step_release w clean r)
  then have "Suc (length h') = length h" using length_pos_if_in_set [of w h] by (simp add: length_remove1)
  with release_slots [OF step_release(5)] show ?thesis by (simp add: slots_def)
next
  case (step_retire w r)
  then have "Suc (length h') = length h" "p' = p\<lparr>tasks := tasks p @ [ReplaceTask w]\<rparr>"
    using length_pos_if_in_set [of w h] by (simp_all add: retire_worker_def start_task_def updates_def length_remove1)
  then show ?thesis by (simp add: slots_def)
next
  case (step_thread i)
  obtain fq ts n sp rt c where p': "p' = after_step i p fq ts n sp rt c" and mv: "moved kb i p fq ts n"
    using thread_step_effect [of kb i p] step_thread(1) by blast
  from moved_size [OF mv] step_thread(2,4) show ?thesis by (auto simp: slots_def p' after_step_def min_def)
next
  case (step_close r)
  with frame_close [OF step_close(3)] show ?thesis by (auto simp: slots_def)
qed

lemma step_shrinks:
  assumes "pool_step kb (p, h, d) (p', h', d')" "is_started p"
  shows "is_started p' \<and> slots (p', h', d') \<le> slots (p, h, d)"
  using step_slots_le [OF assms(1)] step_stays_started [OF assms] assms(2) by simp

interpretation pool_places: invariant_system "pool_step kb" "at_most n" for kb n
proof unfold_locales
  fix s t :: "'a sys"
  obtain p h d p' h' d' where "s = (p, h, d)" "t = (p', h', d')" by (metis prod_cases3)
  moreover assume "at_most n s" "pool_step kb s t"
  ultimately show "at_most n t" using step_shrinks [of kb p h d p' h' d'] by (simp add: at_most_def)
qed

lemma step_wiped:
  assumes "pool_step kb (p, h, d) (p', h', d')" "inv_wiped (p, h, d)" "inv_names (p, h, d)"
  shows "inv_wiped (p', h', d')"
  using assms(1)
proof cases
  case (step_start r)
  have known: "d \<subseteq> set_mset (ledger (cfg p) (serial p))" using assms(3) by (simp add: inv_names_def)
  from start_result [OF step_start(3)] show ?thesis
  proof (elim disjE conjE exE)
    assume "frame p p'"
    with assms(2) step_start show ?thesis by (auto simp: frame_def inv_wiped_def)
  next
    fix t assume t: "frame p t" "warmed t p'"
    then obtain new where n: "free_q p' = free_q p @ new" "tasks p' = tasks p" "cfg p' = cfg p"
      "map w_name new = map (\<lambda>i. worker_name (cfg p) (serial t + i + 1)) [0..<length new]" "serial p \<le> serial t"
      by (auto simp: frame_def warmed_def)
    have "w_name w \<notin> d" if "w \<in> set new" for w
    proof -
      from that have "w_name w \<in> set (map w_name new)" by simp
      with n(4) obtain k where "w_name w = worker_name (cfg p) (serial t + k + 1)" by auto
      with n(5) have "w_name w \<notin># ledger (cfg p) (serial p)" by (simp add: in_ledger)
      with known show ?thesis by blast
    qed
    with assms(2) n step_start show ?thesis by (auto simp: inv_wiped_def ball_Un)
  qed
next
  case (step_lease w)
  with lease_result [OF step_lease(3)] obtain ws where q: "free_q p = w # ws" "p' = p\<lparr>free_q := ws\<rparr>" by auto
  have "distinct (map w_name (owned p h))"
    using assms(3) by (auto simp: inv_names_def intro: ledger_distinct)
  then have "w_name v \<noteq> w_name w" if "v \<in> set ws \<union> set (concat (map ready_worker (tasks p)))" for v
  proof -
    have "set (concat (map ready_worker ts)) \<subseteq> set (concat (map task_worker ts))" for ts
    proof (induction ts)
      case (Cons t ts)
      then show ?case by (cases t) auto
    qed simp
    with that have "v \<in> set (ws @ h @ concat (map task_worker (tasks p)))" by auto
    then have "w_name v \<in> set (map w_name (ws @ h @ concat (map task_worker (tasks p))))"
      unfolding set_map by (rule imageI)
    moreover have "w_name w \<notin> set (map w_name (ws @ h @ concat (map task_worker (tasks p))))"
      using \<open>distinct (map w_name (owned p h))\<close> by (simp add: owned_def q)
    ultimately show ?thesis by metis
  qed
  with assms(2) q step_lease show ?thesis by (auto simp: inv_wiped_def ball_Un)
next
  case (step_no_worker e)
  with lease_result [OF step_no_worker(3)] assms(2) show ?thesis by (auto simp: inv_wiped_def ball_Un)
next
  case (step_environment c)
  with assms(2) show ?thesis by (auto simp: inv_wiped_def ball_Un)
next
  case (step_release w clean r)
  with assms(2) show ?thesis
    by (rule_tac release_result [OF step_release(5)]) (auto simp: inv_wiped_def ball_Un)
next
  case (step_retire w r)
  then have "p' = p\<lparr>tasks := tasks p @ [ReplaceTask w]\<rparr>"
    by (simp add: retire_worker_def start_task_def updates_def)
  with step_retire assms(2) show ?thesis by (auto simp: inv_wiped_def ball_Un)
next
  case (step_thread i)
  have known: "d \<subseteq> set_mset (ledger (cfg p) (serial p))" using assms(3) by (simp add: inv_names_def)
  obtain fq ts n sp rt c where p': "p' = after_step i p fq ts n sp rt c" and mv: "moved kb i p fq ts n"
    using thread_step_effect [of kb i p] step_thread(1) by blast
  have "worker_name (cfg p) (serial p + 1) \<notin># ledger (cfg p) (serial p)" by (simp add: in_ledger)
  with known have new: "worker_name (cfg p) (serial p + 1) \<notin> d" by blast
  have fresh: "w_name w \<notin> d'" if "fresh_workdir_per_run (cfg p)" "w \<in> set fq \<union> set (concat (map ready_worker ts))" for w
  proof (cases "w \<in> set (ready_worker (tasks p ! i))")
    case True
    with set_concat_after [OF step_thread(4), of ready_worker] assms(2) that(1) step_thread(3)
    show ?thesis by (auto simp: inv_wiped_def ball_Un)
  next
    case False
    have "w_name w \<in> wiped kb i p \<or> w_name w = worker_name (cfg p) (serial p + 1)"
      using mv False that(2) by (cases "tasks p ! i") (auto simp: moved_def)
    with new step_thread(3) show ?thesis by auto
  qed
  have sub: "set (free_q p') \<union> set (concat (map ready_worker (tasks p'))) \<subseteq>
      set (free_q p) \<union> set (concat (map ready_worker (tasks p))) \<union> (set fq \<union> set (concat (map ready_worker ts)))"
    unfolding set_concat_after [OF step_thread(4), of ready_worker] p' after_step_def by auto
  have cf: "cfg p' = cfg p" by (simp add: p' after_step_def)
  show ?thesis
    unfolding inv_wiped_def prod.case
  proof (intro impI ballI)
    fix w assume fr: "fresh_workdir_per_run (cfg p')"
      and "w \<in> set (free_q p') \<union> set (concat (map ready_worker (tasks p')))"
    with sub consider "w \<in> set (free_q p) \<union> set (concat (map ready_worker (tasks p)))"
      | "w \<in> set fq \<union> set (concat (map ready_worker ts))" by blast
    then show "w_name w \<notin> d'"
    proof cases
      case 1
      with assms(2) fr cf have "w_name w \<notin> d" unfolding inv_wiped_def prod.case by simp
      with step_thread(3) show ?thesis by simp
    next
      case 2
      with fresh fr cf show ?thesis by simp
    qed
  qed
next
  case (step_close r)
  with frame_close [OF step_close(3)] assms(2) show ?thesis by (auto simp: inv_wiped_def ball_Un)
qed

lemma step_dirty_known:
  assumes "pool_step kb (p, h, d) (p', h', d')" "inv_names (p, h, d)"
  shows "d' \<subseteq> set_mset (ledger (cfg p') (serial p'))"
proof -
  from step_names [OF assms(1)] have c: "cfg p' = cfg p" "serial p \<le> serial p'" by auto
  have "set_mset (ledger (cfg p) (serial p)) \<subseteq> set_mset (ledger (cfg p) (serial p'))"
    using ledger_mono [OF c(2)] by (rule set_mset_mono)
  moreover have "d' \<subseteq> d \<union> set_mset (names p h)"
    using assms(1)
  proof cases
    case (step_lease w)
    with lease_result [OF step_lease(3)] show ?thesis by (auto simp: names_eq)
  qed auto
  moreover have "set_mset (names p h) \<subseteq> set_mset (ledger (cfg p) (serial p))" "d \<subseteq> set_mset (ledger (cfg p) (serial p))"
    using assms(2) by (auto simp: inv_names_def dest: set_mset_mono)
  ultimately show ?thesis unfolding c(1) by blast
qed

section \<open>Reachable states\<close>

definition valid_bounds :: "'c sys \<Rightarrow> bool" where
  "valid_bounds = (\<lambda>(p, h, d). 0 < max_uses (cfg p) \<and> 0 < pool_size (cfg p))"

definition pool_inv :: "sandbox_config \<Rightarrow> 'c sys \<Rightarrow> bool" where
  "pool_inv cf s \<longleftrightarrow> cfg (fst s) = cf \<and> valid_bounds s \<and> inv_names s \<and> inv_uses s \<and> inv_slots s \<and> inv_wiped s"

lemma pool_inv_step:
  assumes "pool_inv cf s" "pool_step kb s s'"
  shows "pool_inv cf s'"
proof -
  obtain p h d p' h' d' where s: "s = (p, h, d)" "s' = (p', h', d')" by (metis prod_cases3)
  from assms s have st: "pool_step kb (p, h, d) (p', h', d')" by simp
  from assms(1) s have old: "cfg p = cf" "0 < max_uses (cfg p)" "0 < pool_size (cfg p)" "inv_names (p, h, d)"
    "inv_uses (p, h, d)" "inv_slots (p, h, d)" "inv_wiped (p, h, d)" by (auto simp: pool_inv_def valid_bounds_def)
  from step_names [OF st] old(4) have "cfg p' = cfg p" "names p' h' \<subseteq># ledger (cfg p) (serial p')"
    by (auto simp: inv_names_def)
  with step_dirty_known [OF st old(4)] step_uses [OF st old(5,2)] step_slots [OF st old(6,3)]
    step_wiped [OF st old(7,4)] old
  show ?thesis by (simp add: s pool_inv_def valid_bounds_def inv_names_def)
qed

interpretation pool_system: invariant_system "pool_step kb" "pool_inv cf" for kb cf
  by unfold_locales (rule pool_inv_step)

lemma pool_inv_initial:
  assumes "new_pool cf c = Inr p"
  shows "pool_inv cf (p, [], {})"
proof -
  from assms have val: "\<exists>ws. validate cf = Inr ws"
    and p: "p = \<lparr>cfg = cf, free_q = [], serial = 0, spawned_n = 0, retired_n = 0,
          is_started = False, is_closed = False, start_rep = None, hooks_on = False,
          prev_sigterm = None, tasks = [], cluster = c\<rparr>"
    by (cases "validate cf"; simp add: new_pool_def)+
  from val have "1 \<le> pool_size cf" "1 \<le> max_uses cf"
    unfolding validate_def by (metis Inl_Inr_False not_less)+
  then show ?thesis
    by (simp add: p pool_inv_def valid_bounds_def inv_names_def inv_uses_def inv_slots_def inv_wiped_def names_eq)
qed

lemma reachable_inv: "reachable kb cf s \<Longrightarrow> pool_inv cf s"
proof -
  assume "reachable kb cf s"
  then obtain c p where "new_pool cf c = Inr p" "(pool_step kb)\<^sup>*\<^sup>* (p, [], {}) s"
    by (auto simp: reachable_def)
  then show ?thesis using pool_system.inv_steps pool_inv_initial by metis
qed

end
