(* ===== verification/ToyCluster.thy ===== *)
theory ToyCluster
  imports Pool
begin

text \<open>
  A small executable cluster on which the properties of the pool are exercised: the names of the pods that
  exist, the clock, and a script of what the coming watches, deletions and commands do.
\<close>

record toy =
  live :: "string list"
  time_now :: rat
  watches :: "(pod_status list \<times> exn option) list"  \<comment> \<open>then every pod runs at once\<close>
  failing :: "string list"  \<comment> \<open>pods whose deletion is answered with status 500\<close>
  quota :: nat

definition running :: "pod_status list \<times> exn option" where
  "running = ([\<lparr>phase = ''Running'', conditions = [], waiting = []\<rparr>], None)"

definition answer :: "string \<Rightarrow> conversation" where
  "answer out = \<lparr>c_connect = None, c_opened = 0, c_stdin_err = None,
     c_polls = [\<lparr>p_now = 1, p_err = None, p_out = out, p_errout = []\<rparr>], c_status = []\<rparr>"

definition toy_kube :: "toy kube" where
  "toy_kube = \<lparr>
     k_now = time_now,
     k_sleep = \<lambda>d c. c\<lparr>time_now := time_now c + d\<rparr>,
     k_create_pod = \<lambda>p c. if length (live c) < quota c then (Inr (), c\<lparr>live := live c @ [pod_name p]\<rparr>) else (Inl (ApiErr 403), c),
     k_delete_pod = \<lambda>n c. if n \<in> set (failing c) then (Inl (ApiErr 500), c)
       else if n \<in> set (live c) then (Inr (), c\<lparr>live := removeAll n (live c)\<rparr>) else (Inl (ApiErr 404), c),
     k_read_pod = \<lambda>n c. if n \<in> set (live c) then (Inr (), c) else (Inl (ApiErr 404), c),
     k_list_pods = \<lambda>sel c. (Inr (live c), c),
     k_watch = \<lambda>n t c. (case watches c of [] \<Rightarrow> (Inr running, c) | w # ws \<Rightarrow> (Inr w, c\<lparr>watches := ws\<rparr>)),
     k_exec = \<lambda>n cmd c. (answer (case cmd of CleanerScript r \<Rightarrow> ''CLEAN_OK'' | _ \<Rightarrow> ''hello''), c),
     k_upload = \<lambda>n fs c. (answer ''UPLOAD_OK'', c),
     k_list_ns = \<lambda>c. (Inr [''sandbox''], c),
     k_create_ns = \<lambda>n c. (Inr (), c),
     k_create_np = \<lambda>np c. (Inr (), c),
     k_replace_np = \<lambda>np c. (Inr (), c),
     k_hook_sigterm = \<lambda>c. (Inr SigDefault, c)\<rparr>"

definition toy_start :: toy where
  "toy_start = \<lparr>live = [], time_now = 100, watches = [], failing = [], quota = 10\<rparr>"

definition toy_config :: sandbox_config where
  "toy_config = default_config\<lparr>pool_size := 2, app_label := ''box''\<rparr>"

definition toy_pool :: "toy pool" where
  "toy_pool = \<lparr>cfg = toy_config, free_q = [], serial = 0, spawned_n = 0, retired_n = 0,
     is_started = False, is_closed = False, start_rep = None, hooks_on = False,
     prev_sigterm = None, tasks = [], cluster = toy_start\<rparr>"

lemma toy_names [simp]: "worker_name toy_config 0 = ''box-0''" "worker_name toy_config 1 = ''box-1''"
  "worker_name toy_config (Suc 0) = ''box-1''" "worker_name toy_config 2 = ''box-2''" "worker_name toy_config (Suc (Suc 0)) = ''box-2''"
  "worker_name toy_config 3 = ''box-3''"
  by code_simp+

lemma toy_settings [simp]:
  "app_label toy_config = ''box''" "pool_size toy_config = 2" "min_pool_size toy_config = None"
  "max_uses toy_config = 25" "max_age_s toy_config = 600" "fresh_workdir_per_run toy_config"
  "auto_cleanup toy_config" "manage_namespace toy_config" "\<not> reclaim_on_start toy_config"
  "manage_network_policy toy_config" "namespace toy_config = ''sandbox''" "default_timeout_s toy_config = 30"
  "acquire_timeout_s toy_config = None" "interpreter toy_config = [''python'', ''-c'']"
  by (simp_all add: toy_config_def default_config_def)

lemma toy_pod_name [simp]: "pod_name (build_worker_pod cf n) = n"
  by (simp add: build_worker_pod_def)

text \<open>The state after a start on the empty cluster.\<close>

definition toy_worker :: "string \<Rightarrow> worker" where
  "toy_worker n = \<lparr>w_name = n, w_created = 100, w_uses = 0\<rparr>"

lemma toy_placed:
  "place_worker toy_kube cf nm c = (Inr (Inl \<lparr>w_name = nm, w_created = time_now c, w_uses = 0\<rparr>),
     c\<lparr>live := live c @ [nm]\<rparr>)"
  if "nm \<notin> set (live c)" "nm \<notin> set (failing c)" "watches c = []" "length (live c) < quota c"
  using that
  by (simp add: place_worker_def delete_pod_def wait_placed_def toy_kube_def py_defs running_def)

definition toy_warm :: "toy pool" where
  "toy_warm = toy_pool\<lparr>free_q := [toy_worker ''box-1'', toy_worker ''box-2''], serial := 2, spawned_n := 2,
     is_started := True, start_rep := Some \<lparr>requested = 2, placed = 2, reasons = []\<rparr>, hooks_on := True,
     prev_sigterm := Some SigDefault, cluster := toy_start\<lparr>live := [''box-1'', ''box-2'']\<rparr>\<rparr>"

lemma toy_starts: "start toy_kube toy_pool = (Inr (Some \<lparr>requested = 2, placed = 2, reasons = []\<rparr>), toy_warm)"
  by code_simp

end
