(* ===== verification/PoolLaws.thy ===== *)
theory PoolLaws
  imports PoolSafety ToyCluster
begin

text \<open>
  The properties of the concurrent pool that follow from its invariant, with a concrete reachable state on
  the toy cluster, and the result that a whole run is a sequence of the pool's steps.
\<close>

section \<open>A concrete reachable state\<close>

lemma toy_built: "new_pool toy_config toy_start = Inr toy_pool"
proof -
  have "cpu_request toy_config = cpu_request default_config" "cpu_limit toy_config = cpu_limit default_config"
    "memory_request toy_config = memory_request default_config" "memory_limit toy_config = memory_limit default_config"
    by (simp_all add: toy_config_def)
  then have "check_resources toy_config = check_resources default_config"
    by (simp only: check_resources_def)
  then have "check_resources toy_config = Inr []" by (simp only: default_resources)
  then have "validate toy_config = Inr []"
    by (simp add: validate_def toy_config_def default_config_def)
  then show ?thesis by (simp add: new_pool_def toy_pool_def)
qed

definition toy_leased :: "toy pool" where
  "toy_leased = toy_warm\<lparr>free_q := [toy_worker ''box-2'']\<rparr>"

lemma toy_reachable: "reachable toy_kube toy_config (toy_leased, [toy_worker ''box-1''], {''box-1''})"
proof -
  have "pool_step toy_kube (toy_pool, [], {}) (toy_warm, [], {})"
    using toy_starts by (rule step_start)
  moreover have "lease toy_kube toy_warm = (Inr (toy_worker ''box-1''), toy_leased)"
    by (simp add: lease_def toy_warm_def toy_leased_def)
  from step_lease [OF this, of "[]" "{}"]
  have "pool_step toy_kube (toy_warm, [], {}) (toy_leased, [toy_worker ''box-1''], {''box-1''})"
    by (simp add: toy_worker_def)
  ultimately show ?thesis
    using toy_built unfolding reachable_def by (meson converse_rtranclp_into_rtranclp rtranclp.rtrancl_refl)
qed

section \<open>Ownership, capacity, use and isolation\<close>

text \<open>
  C1: a worker is in one hand at a time: in every state the pool can reach, however callers, background
  threads and a closing thread interleave, no worker name occurs twice among the free queue, the
  workers held by callers and the workers of the threads.
\<close>

theorem worker_in_one_hand:
  assumes "reachable kb cf (p, h, d)"
  shows "distinct (map w_name (free_q p @ h @ concat (map task_worker (tasks p))))"
proof -
  from reachable_inv [OF assms] have "names p h \<subseteq># ledger (cfg p) (serial p)"
    by (auto simp: pool_inv_def inv_names_def)
  from ledger_distinct [OF this] show ?thesis by (simp add: owned_def)
qed

text \<open>
  C6: the pool never grows: once started, the free workers, the workers held by callers and the background
  threads together are never more than the workers the start report says were placed, which lie between the
  floor and \<^verbatim>\<open>pool_size\<close>; so no more than \<^verbatim>\<open>pool_size\<close> runs are in progress at once.
\<close>

theorem pool_never_grows:
  assumes "reachable kb cf (p, h, d)" "is_started p"
  shows "\<exists>rep. start_rep p = Some rep \<and> int (length (free_q p) + length h + length (tasks p)) \<le> placed rep \<and>
    pool_floor cf \<le> placed rep \<and> placed rep \<le> pool_size cf"
  using reachable_inv [OF assms(1)] assms(2) by (auto simp: pool_inv_def inv_slots_def)

text \<open>
  No worker is used too often: every worker on the queue or held by a caller has completed
  fewer than \<^verbatim>\<open>max_uses\<close> runs.
\<close>

lemma no_worker_overused:
  assumes "reachable kb cf (p, h, d)" "w \<in> set (free_q p) \<union> set h"
  shows "w_uses w < max_uses cf"
proof -
  from reachable_inv [OF assms(1)] have "cfg p = cf" "inv_uses (p, h, d)" by (simp_all add: pool_inv_def)
  with assms(2) show ?thesis unfolding inv_uses_def prod.case by blast
qed

text \<open>
  Isolation between runs: with \<^verbatim>\<open>fresh_workdir_per_run\<close>, a worker that was held by a caller is
  on the queue again only if the cleaner has reported success in it since: no free worker is among those
  used since their last wipe.
\<close>

lemma free_workers_wiped:
  assumes "reachable kb cf (p, h, d)" "fresh_workdir_per_run cf" "w \<in> set (free_q p)"
  shows "w_name w \<notin> d"
proof -
  from reachable_inv [OF assms(1)] have "cfg p = cf" "inv_wiped (p, h, d)" by (simp_all add: pool_inv_def)
  with assms(2,3) show ?thesis unfolding inv_wiped_def prod.case by blast
qed

section \<open>A run as steps\<close>

lemma held_run_cluster:
  "held_run kb w argv t k env input s = (r, s') \<Longrightarrow> \<exists>x c. r = Inr x \<and> s' = s\<lparr>cluster := c\<rparr>"
  by (auto simp: held_run_def split: prod.splits)

lemma start_steps: "start kb p = (r, p') \<Longrightarrow> (pool_step kb)\<^sup>*\<^sup>* (p, h, d) (p', h, d)"
  by (blast intro: step_start)

text \<open>
  A run is made of the pool's steps: whatever \<^verbatim>\<open>_dispatch\<close> returns or raises, the state it leaves
  is one the step relation reaches from the state it found, with nothing held in the end; so everything
  proved of reachable states holds after every run.
\<close>

lemma dispatch_refines_steps:
  assumes "dispatch kb argv t k env input p = (r, p')"
  shows "\<exists>d'. (pool_step kb)\<^sup>*\<^sup>* (p, h, d) (p', h, d')"
proof (cases "is_closed p")
  case True
  with assms have "p' = p" by (simp add: dispatch_def reads_andThen throw_def)
  then show ?thesis by blast
next
  case False
  define go where "go = (\<lambda>_ :: pool_start_report option. andThen (lease kb) (\<lambda>w.
       andThen (held_run kb w argv (timeout_of (cfg p) t) k env input) (\<lambda>(r, retire).
       andThen (release kb w retire None) (\<lambda>_.
       case r of Inl e \<Rightarrow> throw e | Inr res \<Rightarrow> ret res))))"
  have run: "andThen (if is_started p then ret None else start kb) go p = (r, p')"
    using assms False by (simp add: dispatch_def reads_andThen go_def)
  from run have "\<exists>q x. (pool_step kb)\<^sup>*\<^sup>* (p, h, d) (q, h, d) \<and> (p' = q \<or> go x q = (r, p'))"
  proof (cases rule: andThen_cases)
    case (raised e)
    then show ?thesis by (auto simp: ret_def split: if_splits intro: start_steps)
  next
    case (cont x q)
    then show ?thesis by (auto simp: ret_def split: if_splits intro: start_steps)
  qed
  then obtain q x where first: "(pool_step kb)\<^sup>*\<^sup>* (p, h, d) (q, h, d)" and "p' = q \<or> go x q = (r, p')" by blast
  then consider "p' = q" | "go x q = (r, p')" by blast
  then show ?thesis
  proof cases
    case 2
    from this [unfolded go_def] show ?thesis
    proof (cases rule: andThen_cases)
      case (raised e)
      from step_no_worker [OF raised(1)] first show ?thesis by (meson rtranclp.rtrancl_into_rtrancl)
    next
      case (cont w u)
      obtain res retire c where held: "held_run kb w argv (timeout_of (cfg p) t) k env input u = (Inr (res, retire), u\<lparr>cluster := c\<rparr>)"
        using held_run_cluster by (metis prod.exhaust_sel)
      obtain y v where rel: "release kb w retire None (u\<lparr>cluster := c\<rparr>) = (y, v)" by fastforce
      have "y = Inr ()"
        using rel by (auto simp: release_def clock_def andThen_def reads_def Let_def start_task_def put_free_def updates_def split: if_splits)
      with cont(2) held rel have "p' = v"
        by (auto simp: andThen_def ret_def throw_def split: sum.splits)
      moreover have "pool_step kb (q, h, d) (u, w # h, insert (w_name w) d)" by (rule step_lease [OF cont(1)])
      moreover have "pool_step kb (u, w # h, insert (w_name w) d) (u\<lparr>cluster := c\<rparr>, w # h, insert (w_name w) d)"
        by (rule step_environment)
      moreover have "pool_step kb (u\<lparr>cluster := c\<rparr>, w # h, insert (w_name w) d) (v, h, insert (w_name w) d)"
        using step_release [OF _ _ rel, of "w # h" "insert (w_name w) d"] by simp
      ultimately show ?thesis using first by (meson rtranclp.rtrancl_into_rtrancl)
    qed
  qed (use first in blast)
qed

section \<open>On the toy cluster\<close>

theorem worker_in_one_hand_witness:
  "distinct (map w_name (free_q toy_leased @ [toy_worker ''box-1''] @ concat (map task_worker (tasks toy_leased))))"
  by (rule worker_in_one_hand [OF toy_reachable])

theorem pool_never_grows_witness:
  "\<exists>rep. start_rep toy_leased = Some rep \<and>
    int (length (free_q toy_leased) + length [toy_worker ''box-1''] + length (tasks toy_leased)) \<le> placed rep \<and>
    pool_floor toy_config \<le> placed rep \<and> placed rep \<le> pool_size toy_config"
  by (rule pool_never_grows [OF toy_reachable]) (simp add: toy_leased_def toy_warm_def)

lemma no_worker_overused_example: "w_uses (toy_worker ''box-2'') < max_uses toy_config"
  by (rule no_worker_overused [OF toy_reachable]) (simp add: toy_leased_def)

lemma free_workers_wiped_example: "w_name (toy_worker ''box-2'') \<notin> {''box-1''}"
  by (rule free_workers_wiped [OF toy_reachable]) (simp_all add: toy_leased_def)

lemma dispatch_refines_steps_example:
  "\<exists>d'. (pool_step toy_kube)\<^sup>*\<^sup>* (toy_pool, [], {})
    (snd (dispatch toy_kube [''id''] None CollectNone None [] toy_pool), [], d')"
  by (rule dispatch_refines_steps) (rule prod.collapse [symmetric])

end
