(* ===== verification/PoolRuns.thy ===== *)
theory PoolRuns
  imports PoolLaws
begin

text \<open>
  What single operations of the pool do: a run on a warm pool, the environment prefix, deleting and
  replacing workers, and the ways in which starting, closing and replacing fall short of what
  their documentation says.
\<close>

section \<open>A run on a warm pool\<close>

lemma andThen_Inr: "m s = (Inr x, t) \<Longrightarrow> andThen m f s = f x t"
  and andThen_Inl: "m s = (Inl e, t) \<Longrightarrow> andThen m f s = (Inl e, t)"
  by (simp_all add: andThen_def)

text \<open>
  C9: a run uses the worker at the head of the queue and decides its fate: the caller gets the result, or
  the timed-out result, or the exception; a worker whose run raised or timed out, or that is spent, goes to a
  replacement thread and never back to the queue; a healthy one goes to the cleaner, or, without
  \<^verbatim>\<open>fresh_workdir_per_run\<close>, to the end of the queue; nothing else of the pool changes.
\<close>

theorem dispatch_exact:
  assumes "is_started p" "\<not> is_closed p" "free_q p = w # ws"
    and "exec_on_worker kb (cfg p) w argv (timeout_of (cfg p) t) k env input False (cluster p) = (r, c)"
  defines "w' \<equiv> w\<lparr>w_uses := w_uses w + 1\<rparr>"
  defines "unhealthy \<equiv> (\<exists>e. r = Inl e) \<or> spent (k_now kb c) w' (max_uses (cfg p)) (max_age_s (cfg p))"
  shows "dispatch kb argv t k env input p =
    (fst (run_outcome (k_now kb c - k_now kb (cluster p)) (w_name w) r),
     p\<lparr>free_q := ws @ (if \<not> unhealthy \<and> \<not> fresh_workdir_per_run (cfg p) then [w'] else []),
       tasks := tasks p @ (if unhealthy then [ReplaceTask w'] else if fresh_workdir_per_run (cfg p) then [CleanTask w'] else []),
       cluster := c\<rparr>)"
proof -
  obtain x retire where out: "run_outcome (k_now kb c - k_now kb (cluster p)) (w_name w) r = (x, retire)" by fastforce
  have retire: "retire \<longleftrightarrow> (\<exists>e. r = Inl e)"
    using out by (auto simp: run_outcome_def split: sum.splits exn.splits)
  have held: "held_run kb w argv (timeout_of (cfg p) t) k env input (p\<lparr>free_q := ws\<rparr>) =
      (Inr (x, retire), p\<lparr>free_q := ws, cluster := c\<rparr>)"
    using assms(4) out by (simp add: held_run_def)
  have "dispatch kb argv t k env input p =
      andThen (release kb w retire None) (\<lambda>_. case x of Inl e \<Rightarrow> throw e | Inr res \<Rightarrow> ret res) (p\<lparr>free_q := ws, cluster := c\<rparr>)"
  proof -
    have "lease kb p = (Inr w, p\<lparr>free_q := ws\<rparr>)" using assms(3) by (simp add: lease_def)
    with assms(1,2) held show ?thesis
      by (simp add: dispatch_def reads_andThen ret_andThen andThen_Inr)
  qed
  also have "\<dots> = (x, p\<lparr>free_q := ws @ (if \<not> unhealthy \<and> \<not> fresh_workdir_per_run (cfg p) then [w'] else []),
       tasks := tasks p @ (if unhealthy then [ReplaceTask w'] else if fresh_workdir_per_run (cfg p) then [CleanTask w'] else []),
       cluster := c\<rparr>)"
    by (cases x) (auto simp: release_def clock_def andThen_def reads_def Let_def start_task_def put_free_def updates_def
        ret_def throw_def retire unhealthy_def w'_def)
  finally show ?thesis by (simp add: out)
qed

section \<open>The environment prefix\<close>

definition split_pair :: "string \<Rightarrow> string \<times> string" where
  "split_pair s = (takeWhile (\<lambda>c. c \<noteq> CHR ''='') s, tl (dropWhile (\<lambda>c. c \<noteq> CHR ''='') s))"

lemma split_pair_join: "CHR ''='' \<notin> set k \<Longrightarrow> split_pair (k @ CHR ''='' # v) = (k, v)"
  by (induction k) (auto simp: split_pair_def)

lemma env_pairs_split: "env_pairs e = Inr ps \<Longrightarrow> map split_pair ps = e \<and> (\<forall>kv \<in> set e. fst kv \<noteq> [])"
  by (induction e arbitrary: ps rule: env_pairs.induct) (auto simp: split_pair_join split: if_splits sum.splits)

text \<open>
  Per-run variables arrive verbatim: when the environment is accepted, the command is \<^verbatim>\<open>env\<close>, one
  argument per variable that splits at its first equals sign into exactly that name and value, and the
  caller's argument vector unchanged.
\<close>

lemma with_env_verbatim:
  assumes "with_env argv (Some e) = Inr out" "e \<noteq> []"
  shows "\<exists>ps. out = ''env'' # ps @ argv \<and> map split_pair ps = e"
  using assms by (auto simp: with_env_def dest: env_pairs_split split: sum.splits)

section \<open>Deleting\<close>

text \<open>What deleting relies on: time does not run backwards and a sleep lasts as long as asked.\<close>

definition honest_clock :: "'c kube \<Rightarrow> bool" where
  "honest_clock kb \<longleftrightarrow>
     (\<forall>c d. k_now kb c + d \<le> k_now kb (k_sleep kb d c)) \<and>
     (\<forall>c n. k_now kb c \<le> k_now kb (snd (k_read_pod kb n c))) \<and>
     (\<forall>c n. fst (k_read_pod kb n c) \<noteq> Inl WouldBlock) \<and> (\<forall>c n. fst (k_delete_pod kb n c) \<noteq> Inl WouldBlock)"

lemma delete_poll_ends:
  "honest_clock kb \<Longrightarrow> deadline \<le> k_now kb c + of_nat n / 5 \<Longrightarrow>
    fst (delete_poll kb nm deadline (Suc n) c) \<noteq> Inl WouldBlock"
proof (induction n arbitrary: c)
  case 0
  then show ?case by simp
next
  case (Suc n)
  obtain q c' where read: "k_read_pod kb nm c = (q, c')" by fastforce
  have later: "k_now kb c \<le> k_now kb c'" and real: "q \<noteq> Inl WouldBlock"
    using Suc.prems(1) read by (auto simp: honest_clock_def dest: spec [of _ c]) (metis fst_conv snd_conv)+
  have "k_now kb c' + 1 / 5 \<le> k_now kb (k_sleep kb (1 / 5) c')"
    using Suc.prems(1) by (auto simp: honest_clock_def)
  with later Suc.prems(2) have "deadline \<le> k_now kb (k_sleep kb (1 / 5) c') + of_nat n / 5"
    by (simp add: add_divide_distrib)
  from Suc.IH [OF Suc.prems(1) this] read real show ?case
    by (auto simp del: delete_poll.simps(2) simp: delete_poll.simps(2) [of kb nm deadline "Suc n"] split: sum.splits exn.splits)
qed

text \<open>
  C33: deleting a pod ends: with a clock that advances, the polling loop of \<^verbatim>\<open>_delete\<close> is over after at most
  301 rounds, whatever the cluster answers.
\<close>

theorem delete_terminates:
  assumes "honest_clock kb"
  shows "fst (delete_pod kb nm c) \<noteq> Inl WouldBlock"
proof -
  obtain q c' where q: "k_delete_pod kb nm c = (q, c')" by fastforce
  with assms have "q \<noteq> Inl WouldBlock" unfolding honest_clock_def by (metis fst_conv)
  moreover have "fst (delete_poll kb nm (k_now kb c' + 60) (Suc 300) c') \<noteq> Inl WouldBlock"
    by (rule delete_poll_ends [OF assms]) simp
  ultimately show ?thesis
    using q by (auto simp: delete_pod_def delete_fuel_def split: sum.splits exn.splits)
qed

section \<open>Replacing\<close>

lemma run_task_next: "task_step kb t s = (Inr (Some t'), s') \<Longrightarrow> run_task kb (Suc n) t s = run_task kb n t' s'"
  and run_task_done: "task_step kb t s = (Inr None, s') \<Longrightarrow> run_task kb (Suc n) t s = (Inr (), s')"
  by (simp_all add: andThen_def ret_def)

lemma attempts_end:
  "k \<le> 2 \<Longrightarrow> \<exists>s'. run_task kb (2 * (3 - k) + 1) (Attempt k) s = (Inr (), s') \<and> serial s \<le> serial s' \<and>
    serial s' \<le> serial s + (3 - k) \<and> (free_q s' = free_q s \<or> (\<exists>w. free_q s' = free_q s @ [w])) \<and>
    (is_closed s \<longrightarrow> s' = s)"
proof (induction "2 - k" arbitrary: k s rule: less_induct)
  case less
  show ?case
  proof (cases "is_closed s")
    case True
    then have "task_step kb (Attempt k) s = (Inr None, s)" by (simp add: task_step_Attempt)
    from run_task_done [OF this, of "2 * (3 - k)"] show ?thesis by simp
  next
    case False
    then have "task_step kb (Attempt k) s = (Inr (Some (Spawning k)), s)" by (simp add: task_step_Attempt)
    from run_task_next [OF this] have one: "run_task kb (2 * (3 - k) + 1) (Attempt k) s = run_task kb (2 * (3 - k)) (Spawning k) s"
      by simp
    obtain m where m: "2 * (3 - k) = Suc m" "m = 2 * (3 - Suc k) + 1" using less.prems by (cases "3 - k") auto
    obtain r s1 where sp: "task_step kb (Spawning k) s = (r, s1)" by fastforce
    then show ?thesis
    proof (cases rule: task_step_Spawning)
      case (placed w c)
      obtain m' where "m = Suc m'" using m(2) by simp
      moreover have "task_step kb (PutBack w) s1 = (Inr None, s1\<lparr>free_q := free_q s1 @ [w]\<rparr>)"
        by (rule task_step_PutBack)
      ultimately have "run_task kb (Suc m) (Spawning k) s = (Inr (), s1\<lparr>free_q := free_q s1 @ [w]\<rparr>)"
        using sp placed(1) run_task_next run_task_done by metis
      with one m(1) placed(4) False less.prems show ?thesis by auto
    next
      case (failed t c)
      show ?thesis
      proof (cases t)
        case None
        with sp failed(1) have "run_task kb (Suc m) (Spawning k) s = (Inr (), s1)" using run_task_done by metis
        with one m(1) failed(3) False less.prems show ?thesis by auto
      next
        case (Some u)
        with failed(2) have u: "u = Attempt (Suc k)" "k \<noteq> 2" by auto
        with less.prems have "2 - Suc k < 2 - k" "Suc k \<le> 2" by auto
        from less.hyps [OF this, of s1] m(2) obtain s' where
          "run_task kb m (Attempt (Suc k)) s1 = (Inr (), s')" "serial s1 \<le> serial s'" "serial s' \<le> serial s1 + (3 - Suc k)"
          "free_q s' = free_q s1 \<or> (\<exists>w. free_q s' = free_q s1 @ [w])" by auto
        moreover have "run_task kb (Suc m) (Spawning k) s = run_task kb m (Attempt (Suc k)) s1"
          using sp failed(1) Some u(1) run_task_next by metis
        ultimately show ?thesis using one m(1) failed(3) False less.prems u(2) by auto
      qed
    qed
  qed
qed

text \<open>
  Replacing a worker ends: once the old pod is deleted, the replacement thread finishes without an
  exception after at most three spawns (three names), with at most one new worker on the queue; on a closed pool
  it spawns nothing.
\<close>

lemma replacement_attempts:
  "\<exists>s'. run_task kb 7 (Attempt 0) s = (Inr (), s') \<and> serial s' \<le> serial s + 3 \<and>
    length (free_q s') \<le> length (free_q s) + 1 \<and> (is_closed s \<longrightarrow> s' = s)"
proof -
  obtain s' where "run_task kb 7 (Attempt 0) s = (Inr (), s')" "serial s' \<le> serial s + 3"
    "free_q s' = free_q s \<or> (\<exists>w. free_q s' = free_q s @ [w])" "is_closed s \<longrightarrow> s' = s"
    using attempts_end [of 0 kb s] by auto
  then show ?thesis by (intro exI [of _ s']) auto
qed

lemma replace_raises:
  assumes "i < length (tasks s)" "tasks s ! i = ReplaceTask w" "delete_pod kb (w_name w) (cluster s) = (Inl e, c)"
  shows "thread_step kb i s = s\<lparr>tasks := take i (tasks s) @ drop (Suc i) (tasks s), cluster := c\<rparr>"
  using assms by (simp add: thread_step_def Let_def task_step_defs andThen_def on_cluster_def)

text \<open>
  C40: a worker whose replacement fails at the start is lost for good: when deleting the old pod raises in the
  replacement thread, then in every state reached later, whatever callers, threads and cluster do, the free workers,
  the held ones and the threads together are fewer than before; nothing ever restores the size of the pool.
\<close>

theorem lost_worker_stays_lost:
  assumes "is_started s" "i < length (tasks s)" "tasks s ! i = ReplaceTask w" "delete_pod kb (w_name w) (cluster s) = (Inl e, c)"
    and "(pool_step kb)\<^sup>*\<^sup>* (thread_step kb i s, h, d) (s', h', d')"
  shows "length (free_q s') + length h' + length (tasks s') < length (free_q s) + length h + length (tasks s)"
proof -
  let ?n = "length (free_q s) + length h + (length (tasks s) - 1)"
  have "at_most ?n (thread_step kb i s, h, d)"
    using assms(1,2) by (simp add: replace_raises [OF assms(2-4)] at_most_def slots_def)
  from pool_places.inv_steps [OF assms(5) this] have "slots (s', h', d') \<le> ?n" by (simp add: at_most_def)
  with assms(2) show ?thesis by (simp add: slots_def)
qed

text \<open>Whether the cluster takes a worker of a name, whatever its state.\<close>

definition cluster_takes :: "'c kube \<Rightarrow> sandbox_config \<Rightarrow> string \<Rightarrow> bool" where
  "cluster_takes kb cf nm \<longleftrightarrow> (\<forall>c. \<exists>v. fst (place_worker kb cf nm c) = Inr (Inl v))"

definition cluster_refuses :: "'c kube \<Rightarrow> sandbox_config \<Rightarrow> string \<Rightarrow> bool" where
  "cluster_refuses kb cf nm \<longleftrightarrow> (\<forall>c v. fst (place_worker kb cf nm c) \<noteq> Inr (Inl v))"

lemma spawn_taken:
  assumes "cluster_takes kb (cfg s) (worker_name (cfg s) (serial s + 1))"
  obtains v c where "task_step kb (Spawning n) s =
    (Inr (Some (PutBack v)), s\<lparr>serial := serial s + 1, spawned_n := spawned_n s + 1, cluster := c\<rparr>)"
    "w_name v = worker_name (cfg s) (serial s + 1)"
proof -
  obtain v c where v: "place_worker kb (cfg s) (worker_name (cfg s) (serial s + 1)) (cluster s) = (Inr (Inl v), c)"
    using assms unfolding cluster_takes_def by (metis prod.collapse)
  with place_worker_result [OF v] show thesis
    by (intro that [of v c]) (auto simp: task_step_defs spawn_def try_spawn_def updates_def py_defs on_cluster_def)
qed

lemma spawn_refused:
  assumes "cluster_refuses kb (cfg s) (worker_name (cfg s) (serial s + 1))" "n \<noteq> 2"
  obtains c where "task_step kb (Spawning n) s =
    (Inr (Some (Attempt (n + 1))), s\<lparr>serial := serial s + 1, spawned_n := spawned_n s + 1, cluster := c\<rparr>)"
proof -
  obtain q c where q: "place_worker kb (cfg s) (worker_name (cfg s) (serial s + 1)) (cluster s) = (q, c)" by fastforce
  with assms(1) have "\<And>v. q \<noteq> Inr (Inl v)" unfolding cluster_refuses_def by (metis fst_conv)
  with q assms(2) show thesis
    by (intro that [of "k_sleep kb (min (2 * 2 ^ n) 8) c"], cases q)
      (auto simp: task_step_defs spawn_def try_spawn_def updates_def py_defs on_cluster_def split: sum.splits)
qed

lemma attempts_heal:
  "j + n < 3 \<Longrightarrow> \<not> is_closed s \<Longrightarrow> \<forall>m < n. cluster_refuses kb (cfg s) (worker_name (cfg s) (serial s + m + 1)) \<Longrightarrow>
    cluster_takes kb (cfg s) (worker_name (cfg s) (serial s + n + 1)) \<Longrightarrow>
    \<exists>v s'. run_task kb (2 * n + 3 + x) (Attempt j) s = (Inr (), s') \<and> free_q s' = free_q s @ [v] \<and>
      w_name v = worker_name (cfg s) (serial s + n + 1) \<and> tasks s' = tasks s \<and> retired_n s' = retired_n s"
proof (induction n arbitrary: j s)
  case 0
  then have "task_step kb (Attempt j) s = (Inr (Some (Spawning j)), s)" by (simp add: task_step_Attempt)
  moreover obtain v c where v: "task_step kb (Spawning j) s =
      (Inr (Some (PutBack v)), s\<lparr>serial := serial s + 1, spawned_n := spawned_n s + 1, cluster := c\<rparr>)"
    "w_name v = worker_name (cfg s) (serial s + 1)"
    using spawn_taken [of kb s j] 0 by auto
  ultimately have "run_task kb (Suc (Suc (Suc x))) (Attempt j) s =
      (Inr (), s\<lparr>serial := serial s + 1, spawned_n := spawned_n s + 1, cluster := c, free_q := free_q s @ [v]\<rparr>)"
    by (simp add: run_task_next run_task_done [OF task_step_PutBack] del: run_task.simps)
  with v(2) show ?case by (simp add: numeral_3_eq_3)
next
  case (Suc n)
  then have "task_step kb (Attempt j) s = (Inr (Some (Spawning j)), s)" by (simp add: task_step_Attempt)
  moreover obtain c where c: "task_step kb (Spawning j) s =
      (Inr (Some (Attempt (j + 1))), s\<lparr>serial := serial s + 1, spawned_n := spawned_n s + 1, cluster := c\<rparr>)"
    by (rule spawn_refused [of kb s j]) (use Suc.prems(1) spec [OF Suc.prems(3), of 0] in auto)
  moreover have "2 * Suc n + 3 + x = Suc (Suc (2 * n + 3 + x))" by simp
  ultimately have "run_task kb (2 * Suc n + 3 + x) (Attempt j) s =
      run_task kb (2 * n + 3 + x) (Attempt (j + 1)) (s\<lparr>serial := serial s + 1, spawned_n := spawned_n s + 1, cluster := c\<rparr>)"
    by (simp only: run_task_next)
  moreover have "cluster_refuses kb (cfg s) (worker_name (cfg s) (serial s + 1 + m + 1))" if "m < n" for m
    using spec [OF Suc.prems(3), of "Suc m"] that by simp
  ultimately show ?case
    using Suc.IH [of "j + 1" "s\<lparr>serial := serial s + 1, spawned_n := spawned_n s + 1, cluster := c\<rparr>"] Suc.prems
    by simp
qed

text \<open>
  C36: replacing a worker heals the pool: when the old pod can be deleted and the cluster refuses at most two of the next
  pods and takes the one after, the replacement thread of an open pool ends with exactly one new worker at the end of the
  queue, under the name of that pod, and nothing else of queue and threads has changed.
\<close>

theorem replacement_heals:
  assumes "\<not> is_closed s" "delete_pod kb (w_name w) (cluster s) = (Inr (), c)" "n < 3"
    and "\<forall>m < n. cluster_refuses kb (cfg s) (worker_name (cfg s) (serial s + m + 1))"
    and "cluster_takes kb (cfg s) (worker_name (cfg s) (serial s + n + 1))"
  shows "\<exists>v s'. run_task kb 8 (ReplaceTask w) s = (Inr (), s') \<and> free_q s' = free_q s @ [v] \<and>
    w_name v = worker_name (cfg s) (serial s + n + 1) \<and> tasks s' = tasks s \<and> retired_n s' = retired_n s + 1"
proof -
  let ?s = "s\<lparr>cluster := c, retired_n := retired_n s + 1\<rparr>"
  have "task_step kb (ReplaceTask w) s = (Inr (Some (Attempt 0)), ?s)"
    using assms(2) by (simp add: task_step_defs andThen_def on_cluster_def updates_def ret_def)
  then have "run_task kb 8 (ReplaceTask w) s = run_task kb (2 * n + 3 + (4 - 2 * n)) (Attempt 0) ?s"
    using run_task_next [of kb "ReplaceTask w" s "Attempt 0" ?s 7] assms(3) by (simp add: numeral_eq_Suc)
  with attempts_heal [of 0 n ?s kb "4 - 2 * n"] assms show ?thesis by simp
qed

section \<open>Where starting and closing fall short\<close>

definition failing_start :: "toy pool" where
  "failing_start = toy_pool\<lparr>cluster := toy_start\<lparr>watches :=
     [running, ([\<lparr>phase = ''Failed'', conditions = [], waiting = []\<rparr>], None)]\<rparr>\<rparr>"

text \<open>
  A start that fails leaks: when the first worker runs and the second one fails, \<^verbatim>\<open>start\<close>
  raises, but the pod of the first worker stays on the cluster, and no queue or thread knows it.
\<close>

lemma start_leaks_placed:
  "\<exists>p'. start toy_kube failing_start = (Inl (SandboxStartupErr ''failed to start''), p') \<and>
    live (cluster p') = [''box-1''] \<and> owned p' [] = [] \<and> \<not> is_started p'"
proof -
  have "start toy_kube failing_start = (Inl (SandboxStartupErr ''failed to start''),
      failing_start\<lparr>serial := 2, spawned_n := 2, hooks_on := True, prev_sigterm := Some SigDefault,
        cluster := toy_start\<lparr>live := [''box-1'']\<rparr>\<rparr>)"
    by code_simp
  then show ?thesis
    by (simp add: owned_def failing_start_def toy_pool_def toy_start_def)
qed

text \<open>
  A close that meets one API error stops: when the first deletion is answered with status 500, \<^verbatim>\<open>close\<close>
  returns normally, the pool is closed and its queue empty, and every pod is still on the cluster.
\<close>

lemma close_stops_at_error:
  "\<exists>p'. close_pool toy_kube (toy_warm\<lparr>cluster := (cluster toy_warm)\<lparr>failing := [''box-1'']\<rparr>\<rparr>) = (Inr (), p') \<and>
    is_closed p' \<and> free_q p' = [] \<and> live (cluster p') = [''box-1'', ''box-2'']"
  by (simp add: close_pool_def delete_workers_def delete_pod_def toy_kube_def toy_warm_def toy_pool_def toy_start_def
      py_defs on_cluster_def)

text \<open>
  Two pools that share a label take each other's workers: a second pool of the same configuration
  started on the cluster of the first deletes and re-creates the pods under the names the first one holds.
\<close>

lemma shared_label_collides:
  "\<exists>p' rep. start toy_kube (toy_pool\<lparr>cluster := cluster toy_warm\<rparr>) = (Inr rep, p') \<and>
    map w_name (free_q p') = map w_name (free_q toy_warm) \<and> live (cluster p') = [''box-1'', ''box-2'']"
proof -
  have "case start toy_kube (toy_pool\<lparr>cluster := cluster toy_warm\<rparr>) of (r, p') \<Rightarrow>
      (case r of Inl _ \<Rightarrow> False | Inr _ \<Rightarrow> True) \<and> map w_name (free_q p') = [''box-1'', ''box-2''] \<and> live (cluster p') = [''box-1'', ''box-2'']"
    by code_simp
  moreover have "map w_name (free_q toy_warm) = [''box-1'', ''box-2'']" by code_simp
  ultimately show ?thesis by (auto split: prod.splits sum.splits)
qed

text \<open>
  Closing does not stop a replacement under way: a thread that has looked at \<^verbatim>\<open>_closed\<close> before the pool
  was closed still creates its pod afterwards and goes on to put the worker on the queue of the closed pool, where nobody
  deletes it.
\<close>

lemma closed_pool_still_spawns:
  assumes "i < length (tasks s)" "tasks s ! i = Spawning n" "is_closed s"
    and "place_worker kb (cfg s) (worker_name (cfg s) (serial s + 1)) (cluster s) = (Inr (Inl w), c)"
  shows "thread_step kb i s = s\<lparr>serial := serial s + 1, spawned_n := spawned_n s + 1, cluster := c,
    tasks := take i (tasks s) @ drop (Suc i) (tasks s) @ [PutBack w]\<rparr>"
  using assms by (simp add: thread_step_def Let_def task_step_defs spawn_def try_spawn_def updates_def py_defs on_cluster_def)

section \<open>On the toy cluster\<close>

theorem dispatch_exact_witness:
  "fst (dispatch toy_kube [''id''] None CollectNone None [] toy_warm) =
    Inr \<lparr>stdout = ''hello'', stderr = [], exit_code = Some 0, timed_out = False, duration_s = 0,
      sandbox_id = ''box-1'', files = [], files_truncated = []\<rparr>"
proof -
  let ?x = "exec_on_worker toy_kube (cfg toy_warm) (toy_worker ''box-1'') [''id''] (timeout_of (cfg toy_warm) None)
    CollectNone None [] False (cluster toy_warm)"
  have x: "?x = (Inr \<lparr>stdout = ''hello'', stderr = [], exit_code = Some 0, timed_out = False, duration_s = 0,
      sandbox_id = ''box-1'', files = [], files_truncated = []\<rparr>, cluster toy_warm)"
    by code_simp
  have "is_started toy_warm" "\<not> is_closed toy_warm" "free_q toy_warm = toy_worker ''box-1'' # [toy_worker ''box-2'']"
    by (simp_all add: toy_warm_def toy_pool_def)
  from dispatch_exact [OF this x] show ?thesis by (simp add: run_outcome_def)
qed

lemma with_env_verbatim_example:
  "\<exists>ps. [''env'', ''KEY=a=b c'', ''X='', ''prog'', ''-v''] = ''env'' # ps @ [''prog'', ''-v''] \<and>
    map split_pair ps = [(''KEY'', ''a=b c''), (''X'', '''')]"
  by (rule with_env_verbatim) (simp_all add: with_env_def)

lemma toy_honest: "honest_clock toy_kube"
  by (auto simp: honest_clock_def toy_kube_def)

theorem delete_terminates_witness: "fst (delete_pod toy_kube ''box-1'' (cluster toy_warm)) \<noteq> Inl WouldBlock"
  by (rule delete_terminates [OF toy_honest])

lemma replacement_attempts_example:
  "\<exists>s'. run_task toy_kube 7 (Attempt 0) toy_warm = (Inr (), s') \<and> serial s' \<le> serial toy_warm + 3"
  using replacement_attempts [of toy_kube toy_warm] by blast

lemma closed_pool_still_spawns_example:
  "live (cluster (thread_step toy_kube 0 (snd (close_pool toy_kube (toy_warm\<lparr>tasks := [Spawning 0]\<rparr>))))) = [''box-3'']"
proof -
  let ?s = "snd (close_pool toy_kube (toy_warm\<lparr>tasks := [Spawning 0]\<rparr>))"
  have s: "?s = toy_warm\<lparr>tasks := [Spawning 0], is_closed := True, free_q := [], cluster := toy_start\<rparr>" by code_simp
  have "place_worker toy_kube (cfg ?s) (worker_name (cfg ?s) (serial ?s + 1)) (cluster ?s) =
      (Inr (Inl (toy_worker ''box-3'')), toy_start\<lparr>live := [''box-3'']\<rparr>)"
    unfolding s by code_simp
  from closed_pool_still_spawns [OF _ _ _ this, of 0 0] s show ?thesis by simp
qed

definition stuck_pool :: "toy pool" where
  "stuck_pool = toy_warm\<lparr>tasks := [ReplaceTask (toy_worker ''box-3'')], cluster := (cluster toy_warm)\<lparr>failing := [''box-3'']\<rparr>\<rparr>"

theorem lost_worker_stays_lost_witness:
  "length (free_q (thread_step toy_kube 0 stuck_pool)) + length ([] :: worker list) + length (tasks (thread_step toy_kube 0 stuck_pool))
    < length (free_q stuck_pool) + length ([] :: worker list) + length (tasks stuck_pool)"
proof -
  have "delete_pod toy_kube (w_name (toy_worker ''box-3'')) (cluster stuck_pool) = (Inl (ApiErr 500), cluster stuck_pool)"
    by (simp add: delete_pod_def toy_kube_def toy_worker_def stuck_pool_def)
  from lost_worker_stays_lost [OF _ _ _ this rtranclp.rtrancl_refl, of 0] show ?thesis
    by (simp add: stuck_pool_def toy_warm_def)
qed

text \<open>A cluster on which \<^verbatim>\<open>box-3\<close> always fails and every other pod runs.\<close>

definition flaky_kube :: "toy kube" where
  "flaky_kube = toy_kube\<lparr>k_create_pod := \<lambda>p c. (Inr (), c), k_delete_pod := \<lambda>n c. (Inl (ApiErr 404), c),
     k_watch := \<lambda>n t c. (Inr (if n = ''box-3'' then ([\<lparr>phase = ''Failed'', conditions = [], waiting = []\<rparr>], None) else running), c)\<rparr>"

lemma flaky_takes: "nm \<noteq> ''box-3'' \<Longrightarrow> cluster_takes flaky_kube cf nm"
  and flaky_refuses: "cluster_refuses flaky_kube cf ''box-3''"
  by (simp_all add: cluster_takes_def cluster_refuses_def place_worker_def delete_pod_def wait_placed_def flaky_kube_def toy_kube_def
      py_defs running_def)

theorem replacement_heals_witness:
  "\<exists>v s'. run_task flaky_kube 8 (ReplaceTask (toy_worker ''box-1'')) toy_warm = (Inr (), s') \<and>
    free_q s' = free_q toy_warm @ [v] \<and> w_name v = ''box-4''"
proof -
  have cfg: "cfg toy_warm = toy_config" "serial toy_warm = 2" "\<not> is_closed toy_warm"
    by (simp_all add: toy_warm_def toy_pool_def)
  have names: "worker_name toy_config 3 = ''box-3''" "worker_name toy_config 4 = ''box-4''" by code_simp+
  have "delete_pod flaky_kube (w_name (toy_worker ''box-1'')) (cluster toy_warm) = (Inr (), cluster toy_warm)"
    by (simp add: delete_pod_def flaky_kube_def)
  from replacement_heals [OF cfg(3) this, of 1] flaky_takes [of "''box-4''" toy_config] flaky_refuses [of toy_config]
  show ?thesis by (auto simp: cfg names)
qed

end
