(* ===== verification/PoolCluster.thy ===== *)
theory PoolCluster
  imports PoolRuns
begin

text \<open>
  The pods a pool leaves on a cluster that keeps the documented contract of the Kubernetes API: what closing
  and a start that cannot meet its floor clean up.
\<close>

section \<open>The contract of the API\<close>

text \<open>
  \<open>pods\<close> gives the worker pods that exist. A pod deleted with grace period 0 is gone, a 404 says that it is, nothing
  comes back by itself, a pod exists after a successful creation only under its own name, and the list with
  the selector of the workers is complete.
\<close>

definition pod_contract :: "'c kube \<Rightarrow> ('c \<Rightarrow> string set) \<Rightarrow> bool" where
  "pod_contract kb pods \<longleftrightarrow>
     (\<forall>d c. pods (k_sleep kb d c) \<subseteq> pods c) \<and>
     (\<forall>n c. pods (snd (k_read_pod kb n c)) \<subseteq> pods c) \<and>
     (\<forall>n c. pods (snd (k_delete_pod kb n c)) \<subseteq> pods c) \<and>
     (\<forall>n c. fst (k_delete_pod kb n c) \<in> {Inr (), Inl (ApiErr 404)} \<longrightarrow> n \<notin> pods (snd (k_delete_pod kb n c))) \<and>
     (\<forall>s c. pods (snd (k_create_pod kb s c)) \<subseteq> (if isl (fst (k_create_pod kb s c)) then pods c else insert (pod_name s) (pods c))) \<and>
     (\<forall>n t c. pods (snd (k_watch kb n t c)) \<subseteq> pods c) \<and>
     (\<forall>l c ns. fst (k_list_pods kb l c) = Inr ns \<longrightarrow> pods (snd (k_list_pods kb l c)) \<subseteq> set ns)"

text \<open>The API answers: the only error of reading and deleting is that the pod is gone, and listing has none.\<close>

definition api_up :: "'c kube \<Rightarrow> bool" where
  "api_up kb \<longleftrightarrow>
     (\<forall>n c e. fst (k_read_pod kb n c) = Inl e \<longrightarrow> e = ApiErr 404) \<and>
     (\<forall>n c e. fst (k_delete_pod kb n c) = Inl e \<longrightarrow> e = ApiErr 404) \<and>
     (\<forall>l c. \<exists>ns. fst (k_list_pods kb l c) = Inr ns)"

section \<open>Deleting\<close>

lemma delete_poll_pods: "pod_contract kb pods \<Longrightarrow> pods (snd (delete_poll kb nm dl n c)) \<subseteq> pods c"
proof (induction n arbitrary: c)
  case 0
  then show ?case by (simp add: throw_def)
next
  case (Suc n)
  obtain q c' where read: "k_read_pod kb nm c = (q, c')" by fastforce
  from Suc.prems read have one: "pods c' \<subseteq> pods c" unfolding pod_contract_def by (metis snd_conv)
  moreover have "pods (k_sleep kb (1 / 5) c') \<subseteq> pods c'" using Suc.prems by (simp add: pod_contract_def)
  moreover have "pods (snd (delete_poll kb nm dl n (k_sleep kb (1 / 5) c'))) \<subseteq> pods (k_sleep kb (1 / 5) c')"
    by (rule Suc.IH [OF Suc.prems])
  ultimately show ?case using read by (auto split: sum.splits exn.splits)
qed

lemma delete_pod_pods:
  assumes "pod_contract kb pods" "delete_pod kb nm c = (r, c')"
  shows "pods c' \<subseteq> pods c" and "r = Inr () \<Longrightarrow> nm \<notin> pods c'"
proof -
  obtain q d where q: "k_delete_pod kb nm c = (q, d)" by fastforce
  from assms(1) q have sub: "pods d \<subseteq> pods c" unfolding pod_contract_def by (metis snd_conv)
  from assms(1) q have gone: "q \<in> {Inr (), Inl (ApiErr 404)} \<Longrightarrow> nm \<notin> pods d"
    unfolding pod_contract_def by (metis fst_conv snd_conv)
  have poll: "pods (snd (delete_poll kb nm (k_now kb d + 60) delete_fuel d)) \<subseteq> pods d" by (rule delete_poll_pods [OF assms(1)])
  show "pods c' \<subseteq> pods c"
    using assms(2) q sub poll by (auto simp: delete_pod_def split: sum.splits exn.splits if_splits)
  show "nm \<notin> pods c'" if "r = Inr ()"
    using assms(2) q gone poll that by (auto simp: delete_pod_def split: sum.splits exn.splits if_splits)
qed

lemma delete_pods_pods:
  "pod_contract kb pods \<Longrightarrow> delete_pods kb nms c = (r, c') \<Longrightarrow> pods c' \<subseteq> pods c \<and> (r = Inr () \<longrightarrow> pods c' \<inter> set nms = {})"
proof (induction nms arbitrary: c)
  case Nil
  then show ?case by (simp add: ret_def)
next
  case (Cons nm nms)
  from Cons.prems(2) have "andThen (delete_pod kb nm) (\<lambda>_. delete_pods kb nms) c = (r, c')" by simp
  then show ?case
  proof (cases rule: andThen_cases)
    case (raised e)
    with delete_pod_pods(1) [OF Cons.prems(1) raised(1)] show ?thesis by simp
  next
    case (cont x d)
    with delete_pod_pods [OF Cons.prems(1) cont(1)] Cons.IH [OF Cons.prems(1) cont(2)] show ?thesis by auto
  qed
qed

lemma delete_pod_succeeds:
  assumes "honest_clock kb" "api_up kb"
  shows "fst (delete_pod kb nm c) = Inr ()"
proof -
  have poll: "fst (delete_poll kb nm dl n c) \<in> {Inr (), Inl WouldBlock}" for dl n c
  proof (induction n arbitrary: c)
    case 0
    then show ?case by (simp add: throw_def)
  next
    case (Suc n)
    obtain q c' where q: "k_read_pod kb nm c = (q, c')" by fastforce
    then have "\<And>e. q = Inl e \<Longrightarrow> e = ApiErr 404" using assms(2) unfolding api_up_def by (metis fst_conv)
    with q Suc.IH show ?case by (auto split: sum.splits exn.splits)
  qed
  obtain q d where q: "k_delete_pod kb nm c = (q, d)" by fastforce
  then have "\<And>e. q = Inl e \<Longrightarrow> e = ApiErr 404" using assms(2) unfolding api_up_def by (metis fst_conv)
  moreover have "fst (delete_poll kb nm (k_now kb d + 60) (Suc 300) d) \<noteq> Inl WouldBlock"
    by (rule delete_poll_ends [OF assms(1)]) simp
  ultimately show ?thesis
    using q poll [of "k_now kb d + 60" "Suc 300" d]
    by (auto simp: delete_pod_def delete_fuel_def split: sum.splits exn.splits simp del: delete_poll.simps)
qed

lemma delete_pods_succeeds:
  assumes "honest_clock kb" "api_up kb"
  shows "fst (delete_pods kb nms c) = Inr ()"
proof (induction nms arbitrary: c)
  case (Cons nm nms)
  obtain d where "delete_pod kb nm c = (Inr (), d)" using delete_pod_succeeds [OF assms] by (metis prod.collapse)
  with Cons.IH [of d] show ?case by (simp add: andThen_Inr)
qed (simp add: ret_def)

section \<open>What closing and a failed start leave behind\<close>

lemma delete_workers_all:
  assumes "pod_contract kb pods" "api_up kb" "honest_clock kb"
  obtains c where "delete_workers kb p = (Inr (), p\<lparr>cluster := c\<rparr>)" "pods c = {}"
proof -
  let ?sel = "[(''app'', app_label (cfg p)), (''role'', worker_role)]"
  obtain ns c where list: "k_list_pods kb ?sel (cluster p) = (Inr ns, c)"
    using assms(2) unfolding api_up_def by (metis prod.collapse)
  then have all: "pods c \<subseteq> set ns" using assms(1) unfolding pod_contract_def by (metis fst_conv snd_conv)
  obtain c' where del: "delete_pods kb ns c = (Inr (), c')" using delete_pods_succeeds [OF assms(3,2)] by (metis prod.collapse)
  have "delete_workers kb p = (Inr (), p\<lparr>cluster := c'\<rparr>)"
    using list del by (simp add: delete_workers_def andThen_def reads_def on_cluster_def tryExcept_def)
  with that delete_pods_pods [OF assms(1) del] all show thesis by blast
qed

lemma close_leaves_none:
  assumes "pod_contract kb pods" "api_up kb" "honest_clock kb"
  obtains c where "close_pool kb p = (Inr (), p\<lparr>is_closed := True, cluster := c, free_q := []\<rparr>)" "pods c = {}"
proof -
  obtain c where del: "delete_workers kb (p\<lparr>is_closed := True\<rparr>) = (Inr (), p\<lparr>is_closed := True, cluster := c\<rparr>)" "pods c = {}"
    by (rule delete_workers_all [OF assms])
  with that show thesis by (simp add: close_pool_def andThen_def updates_def)
qed

text \<open>
  Closing leaves nothing behind: on a cluster whose API answers, with a clock that advances, \<^verbatim>\<open>close\<close> returns
  and no worker pod of the pool is left, neither free, nor held, nor orphaned; the queue is empty and the
  pool refuses further runs.
\<close>

lemma close_deletes_all:
  assumes "pod_contract kb pods" "api_up kb" "honest_clock kb"
  shows "\<exists>p'. close_pool kb p = (Inr (), p') \<and> pods (cluster p') = {} \<and> free_q p' = [] \<and>
    dispatch kb argv t k env input p' = (Inl (SandboxPoolClosed ''run() called on a closed pool''), p')"
proof -
  obtain c where "close_pool kb p = (Inr (), p\<lparr>is_closed := True, cluster := c, free_q := []\<rparr>)" "pods c = {}"
    by (rule close_leaves_none [OF assms])
  then show ?thesis by (simp add: dispatch_def reads_andThen throw_def)
qed

lemma place_worker_pods:
  assumes laws: "pod_contract kb pods" and run: "place_worker kb cf nm c = (Inr x, c')"
  shows "pods c' \<subseteq> (case x of Inl w \<Rightarrow> insert nm (pods c) | Inr why \<Rightarrow> pods c)"
proof -
  have named: "pod_name (build_worker_pod cf nm) = nm" by (simp add: build_worker_pod_def)
  from run [unfolded place_worker_def] show ?thesis
  proof (cases rule: andThen_cases)
    case (cont u d)
    note sub1 = delete_pod_pods(1) [OF laws cont(1)]
    obtain q e where q: "k_create_pod kb (build_worker_pod cf nm) d = (q, e)" by fastforce
    then have made: "pods e \<subseteq> (if isl q then pods d else insert nm (pods d))"
      using laws named unfolding pod_contract_def by (metis fst_conv snd_conv)
    show ?thesis
    proof (cases q)
      case (Inl err)
      with cont(2) q have "x = Inr ''admission rejected (quota exhausted)'' \<and> c' = e"
        by (auto simp: py_defs split: if_splits)
      with made sub1 Inl show ?thesis by auto
    next
      case (Inr v)
      obtain r f where r: "wait_placed kb cf nm e = (r, f)" by fastforce
      have watch: "pods f \<subseteq> pods e"
      proof -
        obtain y z where "k_watch kb nm (py_trunc (startup_timeout_s cf)) e = (y, z)" by fastforce
        moreover from this have "pods z \<subseteq> pods e" using laws unfolding pod_contract_def by (metis snd_conv)
        ultimately show ?thesis using r by (auto simp: wait_placed_def py_defs split: sum.splits prod.splits)
      qed
      from made Inr sub1 watch have into: "pods f \<subseteq> insert nm (pods c)" by (simp, blast)
      obtain b where b: "r = Inr b"
        using cont(2) q Inr r by (cases r) (auto simp: py_defs split: prod.splits sum.splits)
      show ?thesis
      proof (cases b)
        case True
        with cont(2) q Inr r b have "(\<exists>w. x = Inl w) \<and> c' = f" by (auto simp: py_defs)
        with into show ?thesis by auto
      next
        case False
        obtain y g where y: "delete_pod kb nm f = (y, g)" by fastforce
        with cont(2) q Inr r b False have "y = Inr ()" "x = Inr ''unschedulable''" "c' = g"
          by (auto simp: py_defs split: sum.splits)
        with delete_pod_pods [OF laws y] into show ?thesis by auto
      qed
    qed
  qed simp
qed

lemma spawn_loop_pods:
  "pod_contract kb pods \<Longrightarrow> spawn_loop kb n ws s = (Inr (ws', whys), s') \<Longrightarrow>
    pods (cluster s) \<subseteq> base \<union> w_name ` set ws \<Longrightarrow> pods (cluster s') \<subseteq> base \<union> w_name ` set ws'"
proof (induction n arbitrary: ws s)
  case 0
  then show ?case by (simp add: ret_def)
next
  case (Suc n)
  from Suc.prems(2) [unfolded spawn_loop.simps] show ?case
  proof (cases rule: andThen_cases)
    case (cont x t)
    let ?nm = "worker_name (cfg s) (serial s + 1)"
    from cont(1) have place: "place_worker kb (cfg s) ?nm (cluster s) = (Inr x, cluster t)"
      by (auto simp: try_spawn_def andThen_def updates_def reads_def on_cluster_def split: prod.splits)
    note sub = place_worker_pods [OF Suc.prems(1) place]
    show ?thesis
    proof (cases x)
      case (Inl w)
      with place place_worker_result have "w_name w = ?nm" by metis
      with sub Suc.prems(3) Inl have "pods (cluster t) \<subseteq> base \<union> w_name ` set (ws @ [w])" by auto
      with Suc.IH [OF Suc.prems(1)] cont(2) Inl show ?thesis by simp
    next
      case (Inr why)
      with cont(2) have "ws' = ws" "s' = t" by (simp_all add: ret_def)
      with sub Suc.prems(3) Inr show ?thesis by auto
    qed
  qed simp
qed


section \<open>On the toy cluster\<close>

definition calm_kube :: "toy kube" where
  "calm_kube = toy_kube\<lparr>k_delete_pod := \<lambda>n c.
     if n \<in> set (live c) then (Inr (), c\<lparr>live := removeAll n (live c)\<rparr>) else (Inl (ApiErr 404), c)\<rparr>"

lemma calm_contract: "pod_contract calm_kube (\<lambda>c. set (live c))"
  by (auto simp: pod_contract_def calm_kube_def toy_kube_def split: list.splits)

lemma calm_up: "api_up calm_kube"
  by (auto simp: api_up_def calm_kube_def toy_kube_def split: if_splits)

lemma calm_clock: "honest_clock calm_kube"
  by (auto simp: honest_clock_def calm_kube_def toy_kube_def)

lemma close_deletes_all_example:
  "\<exists>p'. close_pool calm_kube toy_warm = (Inr (), p') \<and> set (live (cluster p')) = {} \<and> free_q p' = [] \<and>
    dispatch calm_kube [''id''] None CollectNone None [] p' = (Inl (SandboxPoolClosed ''run() called on a closed pool''), p')"
  by (rule close_deletes_all [OF calm_contract calm_up calm_clock])

definition tight_pool :: "toy pool" where
  "tight_pool = toy_pool\<lparr>cluster := toy_start\<lparr>live := [''other''], quota := 2\<rparr>\<rparr>"


end
