(* ===== verification/StartRace.thy ===== *)
theory StartRace
  imports PoolRuns
begin

text \<open>
  Starting a pool from several threads at once. \<^verbatim>\<open>start\<close> looks at \<^verbatim>\<open>_started\<close>, takes \<^verbatim>\<open>_start_lock\<close>, looks again
  and provisions the pool; \<open>run_piece\<close> is one piece of it, from one point where other threads may act to the next.
  Any number of callers of \<^verbatim>\<open>start\<close> and \<^verbatim>\<open>close\<close> interleave with the other steps of the pool. The theory
  shows that the lock does its work, that the pieces of a caller that is left alone make up \<open>start\<close>, and what
  a \<^verbatim>\<open>close\<close> during a start leaves behind.
\<close>

section \<open>The pieces of a start and of a close\<close>

datatype point =
    Arriving                        \<comment> \<open>about to look at \<^verbatim>\<open>_started\<close> without the lock\<close>
  | Queued                          \<comment> \<open>about to take the lock\<close>
  | Rechecking                      \<comment> \<open>holds the lock, about to look again\<close>
  | Hooking
  | Namespacing
  | Reclaiming
  | Policing
  | Placing nat "worker list"       \<comment> \<open>workers still wanted, workers placed\<close>
  | Judging "worker list" "string list"
  | Undoing "string list"           \<comment> \<open>pods still to delete, below the floor\<close>
  | Queueing "worker list" nat "string list"  \<comment> \<open>workers still to queue, workers placed\<close>
  | Finished "exn + pool_start_report option"
  | Marking                         \<comment> \<open>\<^verbatim>\<open>close\<close>: about to set \<^verbatim>\<open>_closed\<close>\<close>
  | Sweeping
  | Draining
  | Closed "exn + unit"

definition attempt :: "('c pool, 'a) py \<Rightarrow> ('a \<Rightarrow> point) \<Rightarrow> (exn \<Rightarrow> point) \<Rightarrow> 'c pool \<Rightarrow> point \<times> 'c pool" where
  "attempt m f g p = (case m p of (Inr x, p') \<Rightarrow> (f x, p') | (Inl e, p') \<Rightarrow> (g e, p'))"

definition give_up :: "exn \<Rightarrow> point" where
  "give_up e = Finished (Inl e)"

fun run_piece :: "'c kube \<Rightarrow> point \<Rightarrow> 'c pool \<Rightarrow> point \<times> 'c pool" where
  "run_piece kb Arriving p = (if is_started p then Finished (Inr (start_rep p)) else Queued, p)"
| "run_piece kb Rechecking p = (if is_started p then Finished (Inr (start_rep p)) else Hooking, p)"
| "run_piece kb Hooking p = attempt (install_cleanup_hooks kb) (\<lambda>_. Namespacing) give_up p"
| "run_piece kb Namespacing p =
     attempt (if manage_namespace (cfg p) then ensure_namespace kb else ret ()) (\<lambda>_. Reclaiming) give_up p"
| "run_piece kb Reclaiming p =
     attempt (if reclaim_on_start (cfg p) then delete_workers kb else ret ()) (\<lambda>_. Policing) give_up p"
| "run_piece kb Policing p =
     attempt (if manage_network_policy (cfg p) then ensure_network_policy kb else ret ())
       (\<lambda>_. Placing (nat (pool_size (cfg p))) []) give_up p"
| "run_piece kb (Placing 0 ws) p = (Judging ws [], p)"
| "run_piece kb (Placing (Suc n) ws) p =
     attempt (try_spawn kb) (\<lambda>r. case r of Inl w \<Rightarrow> Placing n (ws @ [w]) | Inr why \<Rightarrow> Judging ws [why]) give_up p"
| "run_piece kb (Judging ws whys) p =
     (if int (length ws) < pool_floor (cfg p) then Undoing (map w_name ws) else Queueing ws (length ws) whys, p)"
| "run_piece kb (Undoing []) p = (give_up (SandboxStartupErr ''below min_pool_size''), p)"
| "run_piece kb (Undoing (nm # nms)) p = attempt (on_cluster (delete_pod kb nm)) (\<lambda>_. Undoing nms) give_up p"
| "run_piece kb (Queueing (w # ws) k whys) p = (Queueing ws k whys, p\<lparr>free_q := free_q p @ [w]\<rparr>)"
| "run_piece kb (Queueing [] k whys) p =
     (let rep = Some \<lparr>requested = pool_size (cfg p), placed = int k, reasons = whys\<rparr>
      in (Finished (Inr rep), p\<lparr>start_rep := rep, is_started := True\<rparr>))"
| "run_piece kb Marking p = (Sweeping, p\<lparr>is_closed := True\<rparr>)"
| "run_piece kb Sweeping p = attempt (delete_workers kb) (\<lambda>_. Draining) (\<lambda>e. Closed (Inl e)) p"
| "run_piece kb Draining p =
     (case free_q p of [] \<Rightarrow> (Closed (Inr ()), p) | w # ws \<Rightarrow> (Draining, p\<lparr>free_q := ws\<rparr>))"
| "run_piece kb c p = (c, p)"

text \<open>Between taking the lock and giving it back.\<close>

fun inside :: "point \<Rightarrow> bool" where
  "inside Arriving = False"
| "inside Queued = False"
| "inside (Finished r) = False"
| "inside Marking = False"
| "inside Sweeping = False"
| "inside Draining = False"
| "inside (Closed r) = False"
| "inside c = True"

fun at_rest :: "point \<Rightarrow> bool" where
  "at_rest Queued = True"
| "at_rest (Finished r) = True"
| "at_rest (Closed r) = True"
| "at_rest c = False"

section \<open>All threads together\<close>

record 'c arena =
  a_pool :: "'c pool"
  a_held :: "worker list"     \<comment> \<open>workers leased by callers\<close>
  a_used :: "string set"      \<comment> \<open>used since their last wipe\<close>
  start_lock :: "nat option"
  points :: "point list"      \<comment> \<open>the callers of \<^verbatim>\<open>start\<close> and \<^verbatim>\<open>close\<close>\<close>

text \<open>The steps of everyone else, as in \<open>pool_step\<close>.\<close>

inductive other_step :: "'c kube \<Rightarrow> 'c sys \<Rightarrow> 'c sys \<Rightarrow> bool" for kb where
  other_lease: "lease kb p = (Inr w, p') \<Longrightarrow> other_step kb (p, h, d) (p', w # h, insert (w_name w) d)"
| other_no_worker: "lease kb p = (Inl e, p') \<Longrightarrow> other_step kb (p, h, d) (p', h, d)"
| other_environment: "other_step kb (p, h, d) (p\<lparr>cluster := c\<rparr>, h, d)"
| other_release: "w \<in> set h \<Longrightarrow> clean \<noteq> Some False \<Longrightarrow> release kb w retire clean p = (r, p') \<Longrightarrow>
    other_step kb (p, h, d) (p', remove1 w h, d)"
| other_retire: "w \<in> set h \<Longrightarrow> retire_worker w p = (r, p') \<Longrightarrow> other_step kb (p, h, d) (p', remove1 w h, d)"
| other_thread: "i < length (tasks p) \<Longrightarrow> other_step kb (p, h, d) (thread_step kb i p, h, d - wiped kb i p)"

text \<open>A step, labelled with the caller that moves. The lock is given back with the piece that leaves the block.\<close>

inductive arena_step :: "'c kube \<Rightarrow> nat option \<Rightarrow> 'c arena \<Rightarrow> 'c arena \<Rightarrow> bool" for kb where
  arena_move: "i < length (points a) \<Longrightarrow> \<not> at_rest (points a ! i) \<Longrightarrow> run_piece kb (points a ! i) (a_pool a) = (c, p) \<Longrightarrow>
    arena_step kb (Some i) a (a\<lparr>a_pool := p, points := (points a)[i := c],
      start_lock := if inside (points a ! i) \<and> \<not> inside c then None else start_lock a\<rparr>)"
| arena_acquire: "i < length (points a) \<Longrightarrow> points a ! i = Queued \<Longrightarrow> start_lock a = None \<Longrightarrow>
    arena_step kb (Some i) a (a\<lparr>points := (points a)[i := Rechecking], start_lock := Some i\<rparr>)"
| arena_arrive: "c \<in> {Arriving, Marking} \<Longrightarrow> arena_step kb None a (a\<lparr>points := points a @ [c]\<rparr>)"
| arena_other: "other_step kb (a_pool a, a_held a, a_used a) (p, h, d) \<Longrightarrow>
    arena_step kb None a (a\<lparr>a_pool := p, a_held := h, a_used := d\<rparr>)"

definition any_step :: "'c kube \<Rightarrow> 'c arena \<Rightarrow> 'c arena \<Rightarrow> bool" where
  "any_step kb a b \<longleftrightarrow> (\<exists>l. arena_step kb l a b)"

definition arena_of :: "'c pool \<Rightarrow> 'c arena" where
  "arena_of p = \<lparr>a_pool = p, a_held = [], a_used = {}, start_lock = None, points = []\<rparr>"

definition arena_reachable :: "'c kube \<Rightarrow> sandbox_config \<Rightarrow> 'c arena \<Rightarrow> bool" where
  "arena_reachable kb cf a \<longleftrightarrow> (\<exists>c p. new_pool cf c = Inr p \<and> (any_step kb)\<^sup>*\<^sup>* (arena_of p) a)"

section \<open>A caller left alone\<close>

fun run_alone :: "'c kube \<Rightarrow> nat \<Rightarrow> point \<Rightarrow> 'c pool \<Rightarrow> point \<times> 'c pool" where
  "run_alone kb 0 c p = (c, p)"
| "run_alone kb (Suc n) c p =
     (case c of
        Finished r \<Rightarrow> (c, p)
      | Closed r \<Rightarrow> (c, p)
      | Queued \<Rightarrow> run_alone kb n Rechecking p
      | _ \<Rightarrow> (case run_piece kb c p of (c', p') \<Rightarrow> run_alone kb n c' p'))"

text \<open>How many pieces a caller of \<^verbatim>\<open>start\<close> has left at most.\<close>

fun pieces_left :: "nat \<Rightarrow> point \<Rightarrow> nat" where
  "pieces_left N Arriving = 2 * N + 10"
| "pieces_left N Queued = 2 * N + 9"
| "pieces_left N Rechecking = 2 * N + 8"
| "pieces_left N Hooking = 2 * N + 7"
| "pieces_left N Namespacing = 2 * N + 6"
| "pieces_left N Reclaiming = 2 * N + 5"
| "pieces_left N Policing = 2 * N + 4"
| "pieces_left N (Placing n ws) = 2 * n + length ws + 3"
| "pieces_left N (Judging ws whys) = length ws + 2"
| "pieces_left N (Undoing nms) = length nms + 1"
| "pieces_left N (Queueing ws k whys) = length ws + 1"
| "pieces_left N c = 0"

definition finished :: "(exn + pool_start_report option) \<times> 'c pool \<Rightarrow> point \<times> 'c pool" where
  "finished x = (Finished (fst x), snd x)"

definition judge :: "'c kube \<Rightarrow> worker list \<Rightarrow> string list \<Rightarrow> ('c pool, pool_start_report option) py" where
  "judge kb ws whys = andThen (reads cfg) (\<lambda>cf.
     if int (length ws) < pool_floor cf then
       andThen (on_cluster (delete_pods kb (map w_name ws))) (\<lambda>_. throw (SandboxStartupErr ''below min_pool_size''))
     else andThen (updates (\<lambda>s. s\<lparr>free_q := free_q s @ ws,
         start_rep := Some \<lparr>requested = pool_size cf, placed = int (length ws), reasons = whys\<rparr>,
         is_started := True\<rparr>)) (\<lambda>_. reads start_rep))"

lemma warm_judge: "warm kb p = andThen (spawn_loop kb (nat (pool_size (cfg p))) []) (\<lambda>(ws, whys). judge kb ws whys) p"
proof -
  obtain r q where r: "spawn_loop kb (nat (pool_size (cfg p))) [] p = (r, q)" by fastforce
  from spawn_loop_frame [OF this] have "cfg q = cfg p" by auto
  with r show ?thesis
    by (cases r) (simp_all add: warm_def judge_def reads_andThen andThen_Inr [of "spawn_loop _ _ _"]
      andThen_Inl [of "spawn_loop _ _ _"] split: prod.split)
qed

lemma updates_andThen: "andThen (updates g) f s = f () (g s)"
  by (simp add: andThen_def updates_def)

lemma alone_finished [simp]: "run_alone kb n (Finished r) p = (Finished r, p)"
  by (cases n) simp_all

lemma alone_queueing:
  "length ws < n \<Longrightarrow> run_alone kb n (Queueing ws k whys) p =
    (let rep = Some \<lparr>requested = pool_size (cfg p), placed = int k, reasons = whys\<rparr>
     in (Finished (Inr rep), p\<lparr>free_q := free_q p @ ws, start_rep := rep, is_started := True\<rparr>))"
proof (induction ws arbitrary: n p)
  case Nil
  then show ?case by (cases n) (simp_all add: Let_def)
next
  case (Cons w ws)
  then obtain m where "n = Suc m" "length ws < m" by (cases n) auto
  with Cons.IH [of m "p\<lparr>free_q := free_q p @ [w]\<rparr>"] show ?case by (simp add: Let_def)
qed

lemma alone_undoing:
  "length nms < n \<Longrightarrow> run_alone kb n (Undoing nms) p =
    finished (andThen (on_cluster (delete_pods kb nms)) (\<lambda>_. throw (SandboxStartupErr ''below min_pool_size'')) p)"
proof (induction nms arbitrary: n p)
  case Nil
  then show ?case by (cases n) (simp_all add: finished_def on_cluster_def py_defs give_up_def)
next
  case (Cons nm nms)
  then obtain m where m: "n = Suc m" "length nms < m" by (cases n) auto
  obtain r c where r: "delete_pod kb nm (cluster p) = (r, c)" by fastforce
  show ?case
  proof (cases r)
    case (Inl e)
    with m r show ?thesis by (simp add: attempt_def give_up_def finished_def on_cluster_def py_defs)
  next
    case (Inr u)
    with m r Cons.IH [OF m(2), of "p\<lparr>cluster := c\<rparr>"] show ?thesis
      by (simp add: attempt_def on_cluster_def andThen_def split: prod.splits)
  qed
qed

lemma alone_judging:
  "Suc (length ws) < n \<Longrightarrow> run_alone kb n (Judging ws whys) p = finished (judge kb ws whys p)"
proof -
  assume "Suc (length ws) < n"
  then obtain m where "n = Suc m" "length ws < m" by (cases n) auto
  then show ?thesis
    by (simp add: alone_queueing alone_undoing judge_def reads_andThen finished_def Let_def updates_andThen reads_def)
qed

lemma alone_placing:
  "2 * k + length ws + 2 < n \<Longrightarrow> run_alone kb n (Placing k ws) p =
    finished (andThen (spawn_loop kb k ws) (\<lambda>(ws, whys). judge kb ws whys) p)"
proof (induction k arbitrary: n ws p)
  case 0
  then obtain m where "n = Suc m" "Suc (length ws) < m" by (cases n) auto
  then show ?case by (simp add: alone_judging ret_andThen)
next
  case (Suc k)
  then obtain m where m: "n = Suc m" "2 * k + length ws + 3 < m" by (cases n) auto
  obtain r q where r: "try_spawn kb p = (r, q)" by fastforce
  show ?case
  proof (cases r)
    case (Inl e)
    with m r show ?thesis by (simp add: attempt_def give_up_def finished_def andThen_def)
  next
    case (Inr x)
    show ?thesis
    proof (cases x)
      case (Inl w)
      with Suc.IH [of "ws @ [w]" m q] m r Inr show ?thesis
        by (simp add: attempt_def andThen_assoc andThen_Inr [of "try_spawn kb"])
    next
      case (Inr why)
      with m r \<open>r = Inr x\<close> show ?thesis
        by (simp add: attempt_def andThen_assoc andThen_Inr [of "try_spawn kb"] ret_andThen alone_judging)
    qed
  qed
qed

lemma finished_attempt:
  assumes "keeps (frame s) m" "frame s p" "\<And>q. frame s q \<Longrightarrow> run_alone kb n c q = finished (f q)"
  shows "(case attempt m (\<lambda>_. c) give_up p of (c', q) \<Rightarrow> run_alone kb n c' q) = finished (andThen m (\<lambda>_. f) p)"
proof -
  obtain r q where r: "m p = (r, q)" by fastforce
  from keepsD [OF assms(1,2) r] have "frame s q" .
  with r assms(3) show ?thesis
    by (cases r) (simp_all add: attempt_def give_up_def finished_def andThen_def)
qed

lemma alone_provisions:
  assumes "\<not> is_started p" "2 * nat (pool_size (cfg p)) + 8 \<le> n"
  shows "run_alone kb n Rechecking p = finished (start kb p)"
proof -
  let ?N = "nat (pool_size (cfg p))"
  define m where "m = n - 5"
  from assms(2) have n: "n = Suc (Suc (Suc (Suc (Suc m))))" and m: "2 * ?N + 2 < m"
    by (simp_all add: m_def)
  note keeping = keeps_if frame_hooks frame_namespace frame_policy frame_delete_workers keeps_ret
  note unfold = run_alone.simps(2) point.case run_piece.simps
  define ns where "ns = (if manage_namespace (cfg p) then ensure_namespace kb else ret ())"
  define rc where "rc = (if reclaim_on_start (cfg p) then delete_workers kb else ret ())"
  define np where "np = (if manage_network_policy (cfg p) then ensure_network_policy kb else ret ())"
  have same: "cfg q = cfg p" if "frame p q" for q using that by (simp add: frame_def)
  have keep: "keeps (frame p) (install_cleanup_hooks kb)" "keeps (frame p) ns" "keeps (frame p) rc" "keeps (frame p) np"
    unfolding ns_def rc_def np_def by (intro keeping)+
  have warming: "run_alone kb m (Placing ?N []) q = finished (warm kb q)" if "frame p q" for q
    using m by (simp add: warm_judge alone_placing same [OF that])
  have policing: "run_alone kb (Suc m) Policing q = finished (andThen np (\<lambda>_. warm kb) q)" if q: "frame p q" for q
    unfolding unfold same [OF q] np_def [symmetric] by (rule finished_attempt [OF keep(4) q warming])
  have reclaiming: "run_alone kb (Suc (Suc m)) Reclaiming q = finished (andThen rc (\<lambda>_. andThen np (\<lambda>_. warm kb)) q)"
    if q: "frame p q" for q
    unfolding unfold(1)[of _ "Suc m"] unfold(2-) same [OF q] rc_def [symmetric] by (rule finished_attempt [OF keep(3) q policing])
  have naming: "run_alone kb (Suc (Suc (Suc m))) Namespacing q =
      finished (andThen ns (\<lambda>_. andThen rc (\<lambda>_. andThen np (\<lambda>_. warm kb))) q)" if q: "frame p q" for q
    unfolding unfold(1)[of _ "Suc (Suc m)"] unfold(2-) same [OF q] ns_def [symmetric] by (rule finished_attempt [OF keep(2) q reclaiming])
  have "run_alone kb (Suc (Suc (Suc (Suc m)))) Hooking p =
      finished (andThen (install_cleanup_hooks kb) (\<lambda>_. andThen ns (\<lambda>_. andThen rc (\<lambda>_. andThen np (\<lambda>_. warm kb)))) p)"
    unfolding unfold(1)[of _ "Suc (Suc (Suc m))"] unfold(2-) by (rule finished_attempt [OF keep(1) frame_refl naming])
  then show ?thesis
    using assms(1) unfolding n by (simp add: start_def reads_andThen ns_def rc_def np_def split del: if_split)
qed



section \<open>What the workers in the hands of a start look like\<close>

fun in_hand :: "point \<Rightarrow> worker list" where
  "in_hand (Placing n ws) = ws"
| "in_hand (Judging ws whys) = ws"
| "in_hand (Queueing ws k whys) = ws"
| "in_hand c = []"

definition hold_inv :: "'c pool \<Rightarrow> worker list \<Rightarrow> worker list \<Rightarrow> string set \<Rightarrow> bool" where
  "hold_inv p h hs d \<longleftrightarrow> 0 < max_uses (cfg p) \<and> inv_names (p, h @ hs, d) \<and> inv_uses (p, h @ hs, d) \<and>
     inv_wiped (p, h, d) \<and> (\<forall>w \<in> set hs. w_name w \<notin> d)"

lemma names_Cons: "names p (h @ hs) = names p h + image_mset w_name (mset hs)"
  by (simp add: names_eq)

lemma inv_names_mono:
  assumes "inv_names (p, h, d)" "cfg p' = cfg p" "serial p \<le> serial p'" "names p' h' \<subseteq># names p h" "d' \<subseteq> d"
  shows "inv_names (p', h', d')"
proof -
  have "ledger (cfg p) (serial p) \<subseteq># ledger (cfg p) (serial p')" by (rule ledger_mono [OF assms(3)])
  with assms show ?thesis
    by (auto simp: inv_names_def intro: subset_mset.order_trans dest: set_mset_mono)
qed

lemma hold_frame:
  assumes "hold_inv p h hs d" "frame p p'"
  shows "hold_inv p' h hs d"
proof -
  from assms(2) have "names p' (h @ hs) = names p (h @ hs)" by (simp add: frame_def names_eq)
  with assms inv_names_mono [of p "h @ hs" d p' "h @ hs" d] show ?thesis
    by (auto simp: hold_inv_def frame_def inv_uses_def inv_wiped_def)
qed

lemma hold_drop: "hold_inv p h hs d \<Longrightarrow> hold_inv p h [] d"
  using inv_names_mono [of p "h @ hs" d p h d] by (auto simp: hold_inv_def names_Cons inv_uses_def)

lemma hold_pop: "hold_inv p h hs d \<Longrightarrow> free_q p = w # ws \<Longrightarrow> hold_inv (p\<lparr>free_q := ws\<rparr>) h hs d"
  using inv_names_mono [of p "h @ hs" d "p\<lparr>free_q := ws\<rparr>" "h @ hs" d]
  by (auto simp: hold_inv_def names_eq inv_uses_def inv_wiped_def)

lemma hold_new:
  assumes inv: "hold_inv p h hs d" and fr: "frame p p'" "serial p' = serial p + 1"
    and new: "w_name w = worker_name (cfg p) (serial p + 1)" "w_uses w = 0"
  shows "hold_inv p' h (hs @ [w]) d"
proof -
  from inv have old: "names p (h @ hs) \<subseteq># ledger (cfg p) (serial p)" "d \<subseteq> set_mset (ledger (cfg p) (serial p))"
    by (simp_all add: hold_inv_def inv_names_def)
  have "names p' (h @ hs @ [w]) = add_mset (worker_name (cfg p) (serial p + 1)) (names p (h @ hs))"
    using fr new by (simp add: frame_def names_eq)
  with old fr have "inv_names (p', h @ hs @ [w], d)"
    by (auto simp: inv_names_def frame_def ledger_Suc)
  moreover from old(2) new(1) have "w_name w \<notin> d" using in_ledger [of "cfg p" "serial p + 1" "serial p"] by auto
  ultimately show ?thesis
    using inv fr new(2) by (auto simp: hold_inv_def frame_def inv_uses_def inv_wiped_def)
qed

lemma hold_queue:
  assumes "hold_inv p h (w # hs) d"
  shows "hold_inv (p\<lparr>free_q := free_q p @ [w]\<rparr>) h hs d"
  using assms inv_names_mono [of p "h @ w # hs" d "p\<lparr>free_q := free_q p @ [w]\<rparr>" "h @ hs" d]
  by (auto simp: hold_inv_def names_eq inv_uses_def inv_wiped_def)

text \<open>The steps of the others are steps of the pool that know nothing of the workers being placed.\<close>

lemma other_pool:
  assumes "other_step kb (p, h, d) (p', h', d')"
  shows "pool_step kb (p, h @ x, d) (p', h' @ x, d')"
  using assms
proof cases
  case (other_release w clean retire r)
  then have "remove1 w (h @ x) = h' @ x" by (simp add: remove1_append)
  with other_release show ?thesis by (metis Un_iff set_append step_release)
next
  case (other_retire w r)
  then have "remove1 w (h @ x) = h' @ x" by (simp add: remove1_append)
  with other_retire show ?thesis by (metis Un_iff set_append step_retire)
qed (auto intro: pool_step.intros simp: step_lease)

lemma other_keeps:
  assumes "other_step kb (p, h, d) (p', h', d')"
  shows "is_started p' = is_started p \<and> start_rep p' = start_rep p \<and> cfg p' = cfg p"
  using assms
proof cases
  case (other_release w clean retire r)
  show ?thesis by (rule release_result [OF other_release(5)]) auto
next
  case (other_thread i)
  obtain fq ts n sp rt c where "p' = after_step i p fq ts n sp rt c" "moved kb i p fq ts n"
    using thread_step_effect [of kb i p] other_thread(1) by blast
  then show ?thesis by (simp add: after_step_def)
qed (auto dest: lease_result simp: retire_worker_def start_task_def updates_def)

lemma hold_other:
  assumes st: "other_step kb (p, h, d) (p', h', d')" and inv: "hold_inv p h hs d"
  shows "hold_inv p' h' hs d'"
proof -
  note big = other_pool [OF st, of hs]
  from inv have old: "0 < max_uses (cfg p)" "inv_names (p, h @ hs, d)" "inv_uses (p, h @ hs, d)"
    "inv_wiped (p, h @ hs, d)" "\<forall>w \<in> set hs. w_name w \<notin> d"
    by (simp_all add: hold_inv_def inv_wiped_def)
  from step_names [OF big] old(2) step_dirty_known [OF big old(2)] have "inv_names (p', h' @ hs, d')"
    by (simp add: inv_names_def)
  moreover from step_wiped [OF big old(4,2)] have "inv_wiped (p', h', d')" by (simp add: inv_wiped_def)
  moreover have "\<forall>w \<in> set hs. w_name w \<notin> d'"
    using st
  proof cases
    case (other_lease v)
    from lease_result [OF other_lease(3)] obtain ws where q: "free_q p = v # ws" by auto
    have "distinct (map w_name (owned p (h @ hs)))"
      using old(2) by (auto simp: inv_names_def intro: ledger_distinct)
    then have "w_name v \<notin> w_name ` set hs" by (auto simp: owned_def q)
    then have "w_name w \<noteq> w_name v" if "w \<in> set hs" for w using that by (metis imageI)
    with other_lease old(5) show ?thesis by auto
  qed (use old(5) in auto)
  ultimately show ?thesis
    using step_uses [OF big old(3,1)] old(1) other_keeps [OF st] by (simp add: hold_inv_def)
qed

section \<open>How far a start is\<close>

text \<open>What the caller that holds the lock knows of the pool; nobody else can change it.\<close>

fun stage :: "point \<Rightarrow> 'c pool \<Rightarrow> worker list \<Rightarrow> bool" where
  "stage (Placing n ws) p h \<longleftrightarrow> \<not> is_started p \<and> inv_slots (p, h, {}) \<and> int (n + length ws) \<le> pool_size (cfg p)"
| "stage (Judging ws whys) p h \<longleftrightarrow> \<not> is_started p \<and> inv_slots (p, h, {}) \<and> int (length ws) \<le> pool_size (cfg p)"
| "stage (Queueing ws k whys) p h \<longleftrightarrow> \<not> is_started p \<and> slots (p, h, {}) + length ws \<le> k \<and>
     pool_floor (cfg p) \<le> int k \<and> int k \<le> pool_size (cfg p)"
| "stage Rechecking p h \<longleftrightarrow> inv_slots (p, h, {})"
| "stage c p h \<longleftrightarrow> inv_slots (p, h, {}) \<and> \<not> is_started p"

lemma inv_slots_alt: "inv_slots (p, h, d) \<longleftrightarrow>
    (if is_started p then \<exists>rep. start_rep p = Some rep \<and> int (slots (p, h, {})) \<le> placed rep \<and>
       pool_floor (cfg p) \<le> placed rep \<and> placed rep \<le> pool_size (cfg p) \<and> requested rep = pool_size (cfg p)
     else slots (p, h, {}) = 0)"
  by (simp add: inv_slots_def slots_def)

text \<open>Whatever leaves the flags alone and does not add workers keeps the stage.\<close>

lemma stage_mono:
  assumes "cfg p' = cfg p" "is_started p' = is_started p" "start_rep p' = start_rep p"
    "slots (p', h', {}) \<le> slots (p, h, {})"
  shows "inv_slots (p, h, {}) \<Longrightarrow> inv_slots (p', h', {})" and "stage c p h \<Longrightarrow> stage c p' h'"
proof -
  have slots: "inv_slots (p, h, {}) \<Longrightarrow> inv_slots (p', h', {})"
    using assms unfolding inv_slots_alt by (auto split: if_splits)
  then show "inv_slots (p, h, {}) \<Longrightarrow> inv_slots (p', h', {})" .
  show "stage c p h \<Longrightarrow> stage c p' h'"
    using assms slots by (cases "(c, p, h)" rule: stage.cases) auto
qed

lemma slots_frame: "frame p p' \<Longrightarrow> slots (p', h, {}) = slots (p, h, {})"
  by (simp add: frame_def slots_def)

lemma stage_frame: "frame p p' \<Longrightarrow> stage c p h \<Longrightarrow> stage c p' h"
  using stage_mono [of p' p h h] slots_frame [of p p' h] by (auto simp: frame_def)

lemma stage_other:
  assumes "other_step kb (p, h, d) (p', h', d')"
  shows "inv_slots (p, h, {}) \<Longrightarrow> inv_slots (p', h', {})" and "stage c p h \<Longrightarrow> stage c p' h'"
proof -
  from other_pool [OF assms, of "[]"] other_keeps [OF assms] have "slots (p', h', d') \<le> slots (p, h, d)"
    using step_slots_le [of kb p h d p' h' d'] by simp
  then have "slots (p', h', {}) \<le> slots (p, h, {})" by (simp add: slots_def)
  with other_keeps [OF assms] stage_mono [of p' p h' h]
  show "inv_slots (p, h, {}) \<Longrightarrow> inv_slots (p', h', {})" and "stage c p h \<Longrightarrow> stage c p' h'" by auto
qed

text \<open>A piece of the caller that holds the lock: the workers it holds and what it knows afterwards.\<close>

lemma attempt_cases:
  assumes "attempt m f g p = (c, p')"
  obtains (returned) x where "m p = (Inr x, p')" "c = f x" | (raised) e where "m p = (Inl e, p')" "c = g e"
  using assms by (auto simp: attempt_def split: prod.splits sum.splits)

lemma attempt_frame:
  assumes "attempt m (\<lambda>_. c1) give_up p = (c, p')" "keeps (frame p) m"
  shows "frame p p' \<and> (c = c1 \<or> (\<exists>e. c = Finished (Inl e)))"
proof -
  obtain r where "m p = (r, p')" "c = c1 \<or> (\<exists>e. c = Finished (Inl e))"
    by (rule attempt_cases [OF assms(1)]) (auto simp: give_up_def)
  with keepsD [OF assms(2) frame_refl] show ?thesis by auto
qed

definition after_piece :: "point \<Rightarrow> 'c pool \<Rightarrow> worker list \<Rightarrow> bool" where
  "after_piece c p h \<longleftrightarrow>
     (if inside c then stage c p h
      else inv_slots (p, h, {}) \<and> (\<exists>r. c = Finished r \<and> (\<forall>x. r = Inr x \<longrightarrow> is_started p \<and> x = start_rep p \<and> x \<noteq> None)))"

lemma piece_framed:
  assumes "run_piece kb c p = attempt m (\<lambda>_. c1) give_up p" "keeps (frame p) m" "run_piece kb c p = (c', p')"
    and "hold_inv p h hs d" "stage c1 p h" "inside c1" "in_hand c1 = []" "inv_slots (p, h, {})"
  shows "frame p p' \<and> hold_inv p' h (in_hand c') d \<and> after_piece c' p' h"
proof -
  have fr: "frame p p'" and c': "c' = c1 \<or> (\<exists>e. c' = Finished (Inl e))"
    using attempt_frame [of m c1 p c' p'] assms(1-3) by auto
  have "hold_inv p' h [] d" using hold_drop [OF assms(4)] fr by (rule hold_frame)
  moreover have "inv_slots (p', h, {})"
    using stage_mono(1) [of p' p h h] slots_frame [OF fr] fr assms(8) by (auto simp: frame_def)
  ultimately show ?thesis
    using c' fr assms(6,7) stage_frame [OF fr assms(5)] by (auto simp: after_piece_def)
qed

lemma inside_piece:
  assumes run: "run_piece kb c p = (c', p')" and "inside c"
    and st: "stage c p h" and hold: "hold_inv p h (in_hand c) d" and size: "0 < pool_size (cfg p)"
  shows "cfg p' = cfg p \<and> hold_inv p' h (in_hand c') d \<and> after_piece c' p' h \<and>
    (is_started p \<longrightarrow> is_started p' \<and> start_rep p' = start_rep p)"
proof -
  note keeping = keeps_if frame_hooks frame_namespace frame_policy frame_delete_workers keeps_ret frame_cluster
  have framed: ?thesis if "frame p p' \<and> hold_inv p' h (in_hand c') d \<and> after_piece c' p' h"
    using that by (simp add: frame_def)
  show ?thesis
  proof (cases c)
    case Rechecking
    with run st hold show ?thesis
      by (cases "start_rep p") (auto simp: after_piece_def inv_slots_alt split: if_splits)
  next
    case Hooking
    show ?thesis
      by (rule framed, rule piece_framed [OF _ _ run hold, of "install_cleanup_hooks kb" Namespacing])
        (use Hooking st in \<open>auto intro: keeping\<close>)
  next
    case Namespacing
    show ?thesis
      by (rule framed, rule piece_framed [OF _ _ run hold, of "if manage_namespace (cfg p) then ensure_namespace kb else ret ()" Reclaiming])
        (use Namespacing st in \<open>auto intro: keeping\<close>)
  next
    case Reclaiming
    show ?thesis
      by (rule framed, rule piece_framed [OF _ _ run hold, of "if reclaim_on_start (cfg p) then delete_workers kb else ret ()" Policing])
        (use Reclaiming st in \<open>auto intro: keeping\<close>)
  next
    case Policing
    show ?thesis
      by (rule framed, rule piece_framed [OF _ _ run hold, of "if manage_network_policy (cfg p) then ensure_network_policy kb else ret ()"
          "Placing (nat (pool_size (cfg p))) []"])
        (use Policing st size in \<open>auto intro: keeping\<close>)
  next
    case (Placing n ws)
    show ?thesis
    proof (cases n)
      case 0
      with Placing run st hold show ?thesis by (auto simp: after_piece_def)
    next
      case (Suc m)
      obtain r q where r: "try_spawn kb p = (r, q)" by fastforce
      obtain cl where q: "q = p\<lparr>serial := serial p + 1, spawned_n := spawned_n p + 1, cluster := cl\<rparr>"
        and new: "\<And>w. r = Inr (Inl w) \<Longrightarrow> w_name w = worker_name (cfg p) (serial p + 1) \<and> w_uses w = 0"
        by (rule try_spawn_frame [OF r]) blast
      then have fr: "frame p q" "serial q = serial p + 1" by (simp_all add: frame_def)
      have same: "inv_slots (q, h, {})" using stage_mono(1) [of q p h h] slots_frame [OF fr(1)] fr(1) st Placing
        by (auto simp: frame_def)
      from hold Placing have hold': "hold_inv p h ws d" by simp
      note kept = hold_frame [OF hold' fr(1)]
      show ?thesis
      proof (cases r)
        case (Inl e)
        with r run Placing Suc have "c' = Finished (Inl e)" "p' = q" by (auto simp: attempt_def give_up_def)
        with hold_drop [OF kept] same fr(1) show ?thesis by (simp add: after_piece_def frame_def)
      next
        case (Inr x)
        show ?thesis
        proof (cases x)
          case (Inl w)
          with r run Placing Suc Inr have "c' = Placing m (ws @ [w])" "p' = q" by (auto simp: attempt_def)
          with hold_new [OF hold' fr, of w] new Inl Inr same fr(1) st Placing Suc
          show ?thesis by (simp add: after_piece_def frame_def)
        next
          case (Inr why)
          with r run Placing Suc \<open>r = Inr x\<close> have "c' = Judging ws [why]" "p' = q" by (auto simp: attempt_def)
          with kept same fr(1) st Placing show ?thesis by (simp add: after_piece_def frame_def)
        qed
      qed
    qed
  next
    case (Judging ws whys)
    with run st hold hold_drop [of p h ws d] show ?thesis
      by (auto simp: after_piece_def inv_slots_alt split: if_splits)
  next
    case (Undoing nms)
    show ?thesis
    proof (cases nms)
      case Nil
      with Undoing run st hold show ?thesis by (auto simp: after_piece_def give_up_def)
    next
      case (Cons nm rest)
      show ?thesis
        by (rule framed, rule piece_framed [OF _ _ run hold, of "on_cluster (delete_pod kb nm)" "Undoing rest"])
          (use Undoing Cons st in \<open>auto intro: keeping\<close>)
    qed
  next
    case (Queueing ws k whys)
    show ?thesis
    proof (cases ws)
      case Nil
      with Queueing run st hold show ?thesis
        by (auto simp: after_piece_def Let_def inv_slots_alt slots_def hold_inv_def inv_names_def names_eq inv_uses_def inv_wiped_def)
    next
      case (Cons w rest)
      with Queueing run st hold hold_queue [of p h w rest d] show ?thesis
        by (auto simp: after_piece_def slots_def)
    qed
  qed (use \<open>inside c\<close> in auto)
qed

lemma outside_piece:
  assumes run: "run_piece kb c p = (c', p')" and "\<not> inside c" "\<not> at_rest c" and hold: "hold_inv p h hs d"
  shows "hold_inv p' h hs d \<and> cfg p' = cfg p \<and> is_started p' = is_started p \<and> start_rep p' = start_rep p \<and>
    slots (p', h, {}) \<le> slots (p, h, {}) \<and> \<not> inside c' \<and> (\<forall>r. c' = Finished r \<longrightarrow> is_started p \<and> r = Inr (start_rep p))"
proof (cases c)
  case Marking
  with run hold show ?thesis
    by (auto simp: hold_inv_def inv_names_def names_eq inv_uses_def inv_wiped_def slots_def)
next
  case Sweeping
  then have "attempt (delete_workers kb) (\<lambda>_. Draining) (\<lambda>e. Closed (Inl e)) p = (c', p')" using run by simp
  then obtain r where r: "delete_workers kb p = (r, p')" "c' = Draining \<or> (\<exists>e. c' = Closed (Inl e))"
    by (cases rule: attempt_cases) auto
  from keepsD [OF frame_delete_workers frame_refl r(1)] have fr: "frame p p'" .
  with hold_frame [OF hold fr] slots_frame [OF fr, of h] r(2) show ?thesis by (auto simp: frame_def)
next
  case Draining
  show ?thesis
  proof (cases "free_q p")
    case Nil
    with Draining run hold show ?thesis by auto
  next
    case (Cons w ws)
    with Draining run hold_pop [OF hold] show ?thesis by (auto simp: slots_def)
  qed
qed (use assms in \<open>auto split: if_splits\<close>)

section \<open>The invariant of all threads together\<close>

definition hands :: "'c arena \<Rightarrow> worker list" where
  "hands a = (case start_lock a of None \<Rightarrow> [] | Some i \<Rightarrow> in_hand (points a ! i))"

definition lock_inv :: "'c arena \<Rightarrow> bool" where
  "lock_inv a \<longleftrightarrow> (\<forall>i < length (points a). inside (points a ! i) \<longleftrightarrow> start_lock a = Some i) \<and>
     (\<forall>i. start_lock a = Some i \<longrightarrow> i < length (points a))"

definition progress_inv :: "'c arena \<Rightarrow> bool" where
  "progress_inv a \<longleftrightarrow> (case start_lock a of
     None \<Rightarrow> inv_slots (a_pool a, a_held a, {})
   | Some i \<Rightarrow> stage (points a ! i) (a_pool a) (a_held a))"

definition report_inv :: "'c arena \<Rightarrow> bool" where
  "report_inv a \<longleftrightarrow> (\<forall>r. Finished (Inr r) \<in> set (points a) \<longrightarrow>
     is_started (a_pool a) \<and> r = start_rep (a_pool a) \<and> r \<noteq> None)"

definition arena_inv :: "sandbox_config \<Rightarrow> 'c arena \<Rightarrow> bool" where
  "arena_inv cf a \<longleftrightarrow> cfg (a_pool a) = cf \<and> 0 < pool_size cf \<and> lock_inv a \<and>
     hold_inv (a_pool a) (a_held a) (hands a) (a_used a) \<and> progress_inv a \<and> report_inv a"

lemma started_report: "progress_inv a \<Longrightarrow> is_started (a_pool a) \<Longrightarrow> start_rep (a_pool a) \<noteq> None"
proof -
  assume "progress_inv a" "is_started (a_pool a)"
  then have "inv_slots (a_pool a, a_held a, {})"
    unfolding progress_inv_def
    by (cases "start_lock a") (auto elim!: stage.elims)
  with \<open>is_started (a_pool a)\<close> show ?thesis by (auto simp: inv_slots_alt)
qed

text \<open>A caller that does not hold the lock changes nothing a holder relies on.\<close>

lemma arena_inv_outside:
  assumes inv: "arena_inv cf a" and i: "i < length (points a)" "\<not> inside (points a ! i)" "\<not> inside c"
    and pool: "cfg p = cf" "is_started p = is_started (a_pool a)" "start_rep p = start_rep (a_pool a)"
      "slots (p, a_held a, {}) \<le> slots (a_pool a, a_held a, {})" "hold_inv p (a_held a) (hands a) (a_used a)"
    and fin: "\<And>r. c = Finished r \<Longrightarrow> is_started p \<and> r = Inr (start_rep p)"
  shows "arena_inv cf (a\<lparr>a_pool := p, points := (points a)[i := c]\<rparr>)"
proof -
  let ?b = "a\<lparr>a_pool := p, points := (points a)[i := c]\<rparr>"
  have lock: "lock_inv a" and prog: "progress_inv a" and rep: "report_inv a" using inv by (simp_all add: arena_inv_def)
  from lock i have other: "start_lock a \<noteq> Some i" unfolding lock_inv_def by blast
  have "lock_inv ?b" using lock i other by (auto simp: lock_inv_def nth_list_update)
  moreover have "hands ?b = hands a" using other by (auto simp: hands_def split: option.split)
  moreover have "progress_inv ?b"
  proof (cases "start_lock a")
    case None
    with prog stage_mono(1) [of p "a_pool a" "a_held a" "a_held a"] pool inv show ?thesis
      by (simp add: progress_inv_def arena_inv_def)
  next
    case (Some j)
    with prog stage_mono(2) [of p "a_pool a" "a_held a" "a_held a"] pool inv other show ?thesis
      by (simp add: progress_inv_def arena_inv_def)
  qed
  moreover have "report_inv ?b"
    unfolding report_inv_def
  proof (intro allI impI)
    fix r assume "Finished (Inr r) \<in> set (points ?b)"
    then have "Finished (Inr r) \<in> insert c (set (points a))" using set_update_subset_insert by fastforce
    with rep fin pool(2,3) started_report [OF prog]
    show "is_started (a_pool ?b) \<and> r = start_rep (a_pool ?b) \<and> r \<noteq> None"
      by (auto simp: report_inv_def)
  qed
  ultimately show ?thesis using inv pool(1,5) by (simp add: arena_inv_def)
qed

text \<open>A piece of the caller that holds the lock.\<close>

lemma arena_inv_inside:
  assumes inv: "arena_inv cf a" and i: "i < length (points a)" "inside (points a ! i)"
    and run: "run_piece kb (points a ! i) (a_pool a) = (c, p)"
  shows "arena_inv cf (a\<lparr>a_pool := p, points := (points a)[i := c], start_lock := if inside c then start_lock a else None\<rparr>)"
proof -
  let ?b = "a\<lparr>a_pool := p, points := (points a)[i := c], start_lock := if inside c then start_lock a else None\<rparr>"
  have lock: "lock_inv a" and prog: "progress_inv a" and rep: "report_inv a" and size: "0 < pool_size (cfg (a_pool a))"
    using inv by (auto simp: arena_inv_def)
  from lock i have mine: "start_lock a = Some i" unfolding lock_inv_def by blast
  have now: "stage (points a ! i) (a_pool a) (a_held a)" "hold_inv (a_pool a) (a_held a) (in_hand (points a ! i)) (a_used a)"
    using inv mine by (simp_all add: arena_inv_def progress_inv_def hands_def)
  from inside_piece [OF run i(2) now size]
  have after: "cfg p = cfg (a_pool a)" "hold_inv p (a_held a) (in_hand c) (a_used a)" "after_piece c p (a_held a)"
    "is_started (a_pool a) \<Longrightarrow> is_started p \<and> start_rep p = start_rep (a_pool a)" by auto
  have "lock_inv ?b" using lock i mine by (auto simp: lock_inv_def nth_list_update)
  moreover have "progress_inv ?b" using after(3) mine i(1) by (auto simp: progress_inv_def after_piece_def)
  moreover have "hands ?b = in_hand c" using mine i(1) after(3) by (auto simp: hands_def after_piece_def)
  moreover have "report_inv ?b"
    unfolding report_inv_def
  proof (intro allI impI)
    fix r assume "Finished (Inr r) \<in> set (points ?b)"
    then consider "c = Finished (Inr r)" | "Finished (Inr r) \<in> set (points a)"
      using set_update_subset_insert by fastforce
    then show "is_started (a_pool ?b) \<and> r = start_rep (a_pool ?b) \<and> r \<noteq> None"
    proof cases
      case 1
      with after(3) show ?thesis by (auto simp: after_piece_def)
    next
      case 2
      with rep after(4) show ?thesis by (auto simp: report_inv_def)
    qed
  qed
  ultimately show ?thesis using inv after(1,2) by (simp add: arena_inv_def)
qed

lemma arena_inv_step:
  assumes "arena_inv cf a" "arena_step kb l a b"
  shows "arena_inv cf b"
  using assms(2)
proof cases
  case (arena_move i c p)
  show ?thesis
  proof (cases "inside (points a ! i)")
    case True
    with arena_inv_inside [OF assms(1) arena_move(3) True arena_move(5)] arena_move(2) show ?thesis
      by (cases "inside c") simp_all
  next
    case False
    have "hold_inv (a_pool a) (a_held a) (hands a) (a_used a)" using assms(1) by (simp add: arena_inv_def)
    from outside_piece [OF arena_move(5) False arena_move(4) this]
    have "arena_inv cf (a\<lparr>a_pool := p, points := (points a)[i := c]\<rparr>)"
      using assms(1) by (intro arena_inv_outside [OF assms(1) arena_move(3) False]) (auto simp: arena_inv_def)
    with False arena_move(2) show ?thesis by simp
  qed
next
  case (arena_acquire i)
  with assms(1) show ?thesis
    by (auto simp: arena_inv_def lock_inv_def progress_inv_def hands_def report_inv_def nth_list_update
      dest: set_update_subset_insert [THEN subsetD])
next
  case (arena_arrive c)
  have "hands b = hands a" "progress_inv b = progress_inv a" "lock_inv b"
    using assms(1) arena_arrive by (auto simp: arena_inv_def hands_def progress_inv_def lock_inv_def nth_append split: option.split)
  with assms(1) arena_arrive show ?thesis by (auto simp: arena_inv_def report_inv_def)
next
  case (arena_other p h d)
  from assms(1) have inv: "hold_inv (a_pool a) (a_held a) (hands a) (a_used a)" "progress_inv a" "lock_inv a" "report_inv a"
    by (simp_all add: arena_inv_def)
  have "progress_inv b"
    using inv(2) stage_other [OF arena_other(3)] arena_other(2) by (simp add: progress_inv_def split: option.splits)
  moreover have "hands b = hands a" "lock_inv b" using inv(3) arena_other(2) by (auto simp: hands_def lock_inv_def split: option.split)
  ultimately show ?thesis
    using hold_other [OF arena_other(3) inv(1)] other_keeps [OF arena_other(3)] arena_other(2) inv(4) assms(1)
    by (simp add: arena_inv_def report_inv_def)
qed

interpretation arena_system: invariant_system "any_step kb" "arena_inv cf" for kb cf
  by unfold_locales (auto simp: any_step_def intro: arena_inv_step)

lemma arena_inv_initial: "new_pool cf c = Inr p \<Longrightarrow> arena_inv cf (arena_of p)"
proof -
  assume "new_pool cf c = Inr p"
  from pool_inv_initial [OF this] show ?thesis
    by (auto simp: pool_inv_def arena_inv_def arena_of_def lock_inv_def hold_inv_def hands_def progress_inv_def report_inv_def
      valid_bounds_def)
qed

lemma arena_reachable_inv: "arena_reachable kb cf a \<Longrightarrow> arena_inv cf a"
  unfolding arena_reachable_def by (elim exE conjE) (rule arena_system.inv_steps [OF _ arena_inv_initial])

text \<open>
  \<^verbatim>\<open>_start_lock\<close> excludes: in every state that callers of \<^verbatim>\<open>start\<close> and \<^verbatim>\<open>close\<close>, other users, background
  threads and the cluster can reach together, a caller is between taking the lock and giving it back exactly
  when it is the holder, so there is at most one.
\<close>

lemma start_mutual_exclusion:
  assumes "arena_reachable kb cf a" "i < length (points a)"
  shows "inside (points a ! i) \<longleftrightarrow> start_lock a = Some i"
  using arena_reachable_inv [OF assms(1)] assms(2) by (simp add: arena_inv_def lock_inv_def)

lemma started_stage: "stage c p h \<Longrightarrow> is_started p \<Longrightarrow> inside c \<Longrightarrow> c = Rechecking"
  by (cases "(c, p, h)" rule: stage.cases) auto

text \<open>
  C7: the pool is provisioned once: when a call of \<^verbatim>\<open>start\<close> has returned, the pool is started, what it returned is the
  report of the pool, and no other caller is at work on the pool: one that holds the lock is about to look again and leave.
\<close>

theorem start_once:
  assumes "arena_reachable kb cf a" "Finished (Inr r) \<in> set (points a)"
  shows "is_started (a_pool a) \<and> start_rep (a_pool a) = r \<and> r \<noteq> None \<and>
    filter (\<lambda>c. inside c \<and> c \<noteq> Rechecking) (points a) = []"
proof -
  from arena_reachable_inv [OF assms(1)] have inv: "lock_inv a" "progress_inv a" "report_inv a"
    by (simp_all add: arena_inv_def)
  with assms(2) have st: "is_started (a_pool a)" "start_rep (a_pool a) = r" "r \<noteq> None" by (auto simp: report_inv_def)
  have "points a ! i = Rechecking" if "i < length (points a)" "inside (points a ! i)" for i
    using started_stage [OF _ st(1) that(2)] inv(1,2) that by (auto simp: lock_inv_def progress_inv_def)
  then have "filter (\<lambda>c. inside c \<and> c \<noteq> Rechecking) (points a) = []"
    by (auto simp: filter_empty_conv in_set_conv_nth)
  with st show ?thesis by simp
qed

text \<open>
  C8: the invariants of the pool hold at every point of a start, while workers are still being placed and queued: no
  worker, counting those in the hands of the starting thread, is in two places, there are never more than
  \<^verbatim>\<open>pool_size\<close> of them, and those on the queue are unspent and wiped since their last use.
\<close>

theorem start_keeps_pool_safe:
  assumes "arena_reachable kb cf a"
  shows "distinct (map w_name (owned (a_pool a) (a_held a @ hands a))) \<and>
    int (slots (a_pool a, a_held a, {}) + length (hands a)) \<le> pool_size cf \<and>
    (\<forall>w \<in> set (free_q (a_pool a)). w_uses w < max_uses cf \<and> (fresh_workdir_per_run cf \<longrightarrow> w_name w \<notin> a_used a))"
proof (intro conjI)
  from arena_reachable_inv [OF assms] have inv: "cfg (a_pool a) = cf" "progress_inv a" "0 < pool_size cf"
    "hold_inv (a_pool a) (a_held a) (hands a) (a_used a)"
    by (simp_all add: arena_inv_def)
  then show "distinct (map w_name (owned (a_pool a) (a_held a @ hands a)))"
    by (auto simp: hold_inv_def inv_names_def intro: ledger_distinct)
  show "\<forall>w \<in> set (free_q (a_pool a)). w_uses w < max_uses cf \<and> (fresh_workdir_per_run cf \<longrightarrow> w_name w \<notin> a_used a)"
    using inv(1,4) by (auto simp: hold_inv_def inv_uses_def inv_wiped_def)
  show "int (slots (a_pool a, a_held a, {}) + length (hands a)) \<le> pool_size cf"
  proof (cases "start_lock a")
    case None
    with inv(1,2,3) show ?thesis by (auto simp: progress_inv_def hands_def inv_slots_alt split: if_splits)
  next
    case (Some i)
    with inv(1,2,3) show ?thesis
      by (cases "(points a ! i, a_pool a, a_held a)" rule: stage.cases)
        (auto simp: progress_inv_def hands_def inv_slots_alt split: if_splits)
  qed
qed

section \<open>Every call of start ends\<close>

fun starter :: "point \<Rightarrow> bool" where
  "starter Marking = False"
| "starter Sweeping = False"
| "starter Draining = False"
| "starter (Closed r) = False"
| "starter c = True"

text \<open>The steps of a run, each with the caller that moved.\<close>

inductive arena_run :: "'c kube \<Rightarrow> nat option list \<Rightarrow> 'c arena \<Rightarrow> 'c arena \<Rightarrow> bool" for kb where
  run_none: "arena_run kb [] a a"
| run_more: "arena_run kb ls a b \<Longrightarrow> arena_step kb l b c \<Longrightarrow> arena_run kb (ls @ [l]) a c"

lemma arena_run_steps: "arena_run kb ls a b \<Longrightarrow> (any_step kb)\<^sup>*\<^sup>* a b"
proof (induction rule: arena_run.induct)
  case (run_more ls a b l c)
  from run_more(2) have "any_step kb b c" by (auto simp: any_step_def)
  with run_more(3) show ?case by (rule rtranclp.rtrancl_into_rtrancl)
qed simp

lemma attempt_left:
  assumes "attempt m f g p = (c, p')" "\<And>x. pieces_left N (f x) < n" "\<And>e. pieces_left N (g e) < n"
    "\<And>x. starter (f x)" "\<And>e. starter (g e)"
  shows "pieces_left N c < n \<and> starter c"
  by (rule attempt_cases [OF assms(1)]) (use assms(2-) in auto)

lemma piece_left:
  assumes "run_piece kb c p = (c', p')" "starter c" "\<not> at_rest c" "nat (pool_size (cfg p)) \<le> N"
  shows "pieces_left N c' < pieces_left N c \<and> starter c'"
proof (cases "(kb, c, p)" rule: run_piece.cases)
  case (8 kb n ws q)
  with assms have run: "attempt (try_spawn kb) (\<lambda>r. case r of Inl w \<Rightarrow> Placing n (ws @ [w]) | Inr why \<Rightarrow> Judging ws [why]) give_up p = (c', p')"
    by simp
  show ?thesis
    by (rule attempt_left [OF run]) (use 8 in \<open>auto simp: give_up_def split: sum.split\<close>)
qed (use assms in \<open>auto simp: give_up_def Let_def split: if_splits elim!: attempt_cases\<close>)

lemma outside_starter: "run_piece kb c p = (c', p') \<Longrightarrow> \<not> starter c \<Longrightarrow> \<not> starter c'"
  by (cases c) (auto elim!: attempt_cases split: list.splits)

lemma other_cfg: "arena_step kb l a b \<Longrightarrow> arena_inv cf a \<Longrightarrow> cfg (a_pool b) = cfg (a_pool a)"
  using arena_inv_step [of cf a kb l b] by (simp add: arena_inv_def)

definition moves_inv :: "nat \<Rightarrow> nat option list \<Rightarrow> point list \<Rightarrow> bool" where
  "moves_inv N ls cs \<longleftrightarrow> (\<forall>i. (i < length cs \<and> starter (cs ! i) \<longrightarrow> count_list ls (Some i) + pieces_left N (cs ! i) \<le> 2 * N + 10) \<and>
     (length cs \<le> i \<longrightarrow> count_list ls (Some i) = 0))"

lemma moves_update:
  assumes "moves_inv N ls cs" "i < length cs"
    "starter c \<Longrightarrow> starter (cs ! i) \<and> pieces_left N c < pieces_left N (cs ! i)"
  shows "moves_inv N (ls @ [Some i]) (cs[i := c])"
  using assms unfolding moves_inv_def by (auto simp: nth_list_update)

lemma moves_step:
  assumes "arena_step kb l a b" "moves_inv N ls (points a)" "nat (pool_size (cfg (a_pool a))) \<le> N"
  shows "moves_inv N (ls @ [l]) (points b)"
  using assms(1)
proof cases
  case (arena_move i c p)
  have "starter c \<Longrightarrow> starter (points a ! i) \<and> pieces_left N c < pieces_left N (points a ! i)"
    using piece_left [OF arena_move(5) _ arena_move(4) assms(3)] outside_starter [OF arena_move(5)] by blast
  from moves_update [OF assms(2) arena_move(3) this] arena_move show ?thesis by simp
next
  case (arena_acquire i)
  with moves_update [OF assms(2) arena_acquire(3), of Rechecking] show ?thesis by simp
next
  case (arena_arrive c)
  with assms(2) show ?thesis by (auto simp: moves_inv_def nth_append less_Suc_eq)
next
  case (arena_other p h d)
  with assms(2) show ?thesis by (simp add: moves_inv_def)
qed

lemma moves_run:
  "arena_run kb ls a b \<Longrightarrow> arena_inv cf a \<Longrightarrow> points a = [] \<Longrightarrow>
    moves_inv (nat (pool_size cf)) ls (points b) \<and> arena_inv cf b"
proof (induction rule: arena_run.induct)
  case (run_more ls a b l c)
  then have "moves_inv (nat (pool_size cf)) ls (points b)" "arena_inv cf b" by auto
  with moves_step [OF run_more(2), of "nat (pool_size cf)" ls] arena_inv_step [OF _ run_more(2)]
  show ?case by (simp add: arena_inv_def)
qed (simp add: moves_inv_def)

lemma holder_or_free:
  assumes "arena_inv cf a" "i < length (points a)" "starter (points a ! i)" "\<forall>r. points a ! i \<noteq> Finished r"
  shows "\<exists>j b. j < length (points a) \<and> starter (points a ! j) \<and> arena_step kb (Some j) a b"
proof -
  have moves: ?thesis if "j < length (points a)" "starter (points a ! j)" "\<not> at_rest (points a ! j)" for j
  proof -
    obtain c p where "run_piece kb (points a ! j) (a_pool a) = (c, p)" by fastforce
    from arena_move [OF that(1,3) this] that show ?thesis by blast
  qed
  show ?thesis
  proof (cases "points a ! i = Queued")
    case True
    show ?thesis
    proof (cases "start_lock a")
      case None
      from arena_acquire [OF assms(2) True None] assms(2,3) show ?thesis by blast
    next
      case (Some j)
      with assms(1) have "j < length (points a)" "inside (points a ! j)" by (auto simp: arena_inv_def lock_inv_def)
      then show ?thesis by (intro moves) (auto elim: inside.elims)
    qed
  next
    case False
    with assms(3,4) have "\<not> at_rest (points a ! i)" by (cases "points a ! i") auto
    with assms(2,3) show ?thesis by (intro moves)
  qed
qed

text \<open>
  C27: a call of \<^verbatim>\<open>start\<close> ends whatever the others do: it moves at most twice the size of the pool and ten
  times, and as long as some call has not ended one of the calls can move, so the lock is never a deadlock.
\<close>

theorem start_calls_end:
  assumes "new_pool cf c = Inr p" "arena_run kb ls (arena_of p) a" "i < length (points a)" "starter (points a ! i)"
  shows "count_list ls (Some i) \<le> 2 * nat (pool_size cf) + 10 \<and>
    ((\<exists>r. points a ! i = Finished r) \<or> (\<exists>j b. j < length (points a) \<and> starter (points a ! j) \<and> arena_step kb (Some j) a b))"
proof -
  from moves_run [OF assms(2) arena_inv_initial [OF assms(1)]]
  have "moves_inv (nat (pool_size cf)) ls (points a)" "arena_inv cf a" by (simp_all add: arena_of_def)
  with holder_or_free [of cf a i kb] assms(3,4) show ?thesis
    unfolding moves_inv_def by (meson add_leD1)
qed

section \<open>Schedules on the toy cluster\<close>

text \<open>One turn of a caller, if it can move, and the turns of a schedule.\<close>

definition turn :: "'c kube \<Rightarrow> nat \<Rightarrow> 'c arena \<Rightarrow> 'c arena" where
  "turn kb i a =
     (if length (points a) \<le> i then a
      else if points a ! i = Queued then
        (if start_lock a = None then a\<lparr>points := (points a)[i := Rechecking], start_lock := Some i\<rparr> else a)
      else if at_rest (points a ! i) then a
      else (case run_piece kb (points a ! i) (a_pool a) of
        (c, p) \<Rightarrow> a\<lparr>a_pool := p, points := (points a)[i := c],
          start_lock := if inside (points a ! i) \<and> \<not> inside c then None else start_lock a\<rparr>))"

definition play :: "'c kube \<Rightarrow> nat list \<Rightarrow> 'c arena \<Rightarrow> 'c arena" where
  "play kb sched a = foldl (\<lambda>a i. turn kb i a) a sched"

lemma turn_step: "(\<exists>l. arena_step kb l a (turn kb i a)) \<or> turn kb i a = a"
proof (cases "length (points a) \<le> i \<or> at_rest (points a ! i)")
  case True
  then show ?thesis
    using arena_acquire [of i a kb] by (auto simp: turn_def)
next
  case False
  obtain c p where r: "run_piece kb (points a ! i) (a_pool a) = (c, p)" by fastforce
  from False arena_move [OF _ _ r] have "arena_step kb (Some i) a (turn kb i a)"
    by (auto simp: turn_def r)
  then show ?thesis by blast
qed

lemma play_steps: "(any_step kb)\<^sup>*\<^sup>* a b \<Longrightarrow> (any_step kb)\<^sup>*\<^sup>* a (play kb sched b)"
proof (induction sched arbitrary: b)
  case (Cons i sched)
  have "(any_step kb)\<^sup>*\<^sup>* a (turn kb i b)"
    using turn_step [of kb b i] Cons.prems by (metis any_step_def rtranclp.rtrancl_into_rtrancl)
  from Cons.IH [OF this] show ?case by (simp add: play_def)
qed (simp add: play_def)

definition toy_arena :: "point list \<Rightarrow> toy arena" where
  "toy_arena cs = (arena_of toy_pool)\<lparr>points := cs\<rparr>"

lemma toy_arrivals: "set cs \<subseteq> {Arriving, Marking} \<Longrightarrow> (any_step toy_kube)\<^sup>*\<^sup>* (arena_of toy_pool) (toy_arena cs)"
proof (induction cs rule: rev_induct)
  case (snoc c cs)
  have "any_step toy_kube (toy_arena cs) (toy_arena (cs @ [c]))"
    using arena_arrive [of c toy_kube "toy_arena cs"] snoc.prems by (auto simp: any_step_def toy_arena_def arena_of_def)
  with snoc show ?case by (auto intro: rtranclp.rtrancl_into_rtrancl)
qed (simp add: toy_arena_def arena_of_def)

lemma toy_play: "set cs \<subseteq> {Arriving, Marking} \<Longrightarrow> arena_reachable toy_kube toy_config (play toy_kube sched (toy_arena cs))"
  unfolding arena_reachable_def by (intro exI conjI, rule toy_built) (rule play_steps [OF toy_arrivals])

text \<open>Two callers of \<^verbatim>\<open>start\<close> that run into each other; a \<^verbatim>\<open>close\<close> that comes when one worker has been placed.\<close>

definition two_starters :: "toy arena" where
  "two_starters = play toy_kube [0, 1, 0, 1, 1, 0, 0, 1, 0, 0, 0, 0] (toy_arena [Arriving, Arriving])"

definition closed_amid :: "toy arena" where
  "closed_amid = play toy_kube [0, 0, 0, 0, 0, 0, 0, 0, 1, 1, 1, 0, 0, 0, 0, 0, 0] (toy_arena [Arriving, Marking])"

lemma two_starters_reached: "arena_reachable toy_kube toy_config two_starters"
  unfolding two_starters_def by (rule toy_play) simp

lemma closed_amid_reached: "arena_reachable toy_kube toy_config closed_amid"
  unfolding closed_amid_def by (rule toy_play) simp

lemma two_starters_points: "points two_starters = [Placing 1 [toy_worker ''box-1''], Queued]"
  by code_simp

lemma closed_amid_left:
  "points closed_amid = [Finished (Inr (Some \<lparr>requested = 2, placed = 2, reasons = []\<rparr>)), Closed (Inr ())] \<and>
   is_closed (a_pool closed_amid) \<and> is_started (a_pool closed_amid) \<and>
   map w_name (free_q (a_pool closed_amid)) = [''box-1'', ''box-2''] \<and> live (cluster (a_pool closed_amid)) = [''box-2'']"
  by code_simp

lemma start_mutual_exclusion_example:
  "inside (points two_starters ! 0) \<longleftrightarrow> start_lock two_starters = Some 0"
  by (rule start_mutual_exclusion [OF two_starters_reached]) (simp add: two_starters_points)

theorem start_keeps_pool_safe_witness:
  "distinct (map w_name (owned (a_pool two_starters) (a_held two_starters @ hands two_starters))) \<and>
   int (slots (a_pool two_starters, a_held two_starters, {}) + length (hands two_starters)) \<le> 2"
  using start_keeps_pool_safe [OF two_starters_reached] by simp

theorem start_once_witness:
  "is_started (a_pool closed_amid) \<and> start_rep (a_pool closed_amid) = Some \<lparr>requested = 2, placed = 2, reasons = []\<rparr>"
  using start_once [OF closed_amid_reached, of "Some \<lparr>requested = 2, placed = 2, reasons = []\<rparr>"] closed_amid_left by simp

theorem start_calls_end_witness:
  "count_list [None] (Some 0) \<le> 2 * nat (pool_size toy_config) + 10 \<and>
    (\<exists>j b. j < length (points (toy_arena [Arriving])) \<and> starter (points (toy_arena [Arriving]) ! j) \<and>
      arena_step toy_kube (Some j) (toy_arena [Arriving]) b)"
proof -
  have "toy_arena [Arriving] = (arena_of toy_pool)\<lparr>points := points (arena_of toy_pool) @ [Arriving]\<rparr>"
    by (simp add: toy_arena_def arena_of_def)
  then have "arena_step toy_kube None (arena_of toy_pool) (toy_arena [Arriving])"
    using arena_arrive [of Arriving toy_kube "arena_of toy_pool"] by simp
  from run_more [OF run_none this] have run: "arena_run toy_kube [None] (arena_of toy_pool) (toy_arena [Arriving])" by simp
  show ?thesis
    using start_calls_end [OF toy_built run, of 0] by (simp add: toy_arena_def)
qed


text \<open>The same without a race: \<^verbatim>\<open>start\<close> never looks at \<^verbatim>\<open>_closed\<close>.\<close>

lemma start_after_close:
  "fst (start toy_kube (toy_pool\<lparr>is_closed := True\<rparr>)) = Inr (Some \<lparr>requested = 2, placed = 2, reasons = []\<rparr>) \<and>
   live (cluster (snd (start toy_kube (toy_pool\<lparr>is_closed := True\<rparr>)))) = [''box-1'', ''box-2'']"
  by code_simp

end
