(* ===== verification/Session.thy ===== *)
theory Session
  imports PoolRuns
begin

text \<open>
  \<^verbatim>\<open>SandboxSession\<close> of \<^verbatim>\<open>runner.py\<close>, with \<^verbatim>\<open>SandboxPool.session\<close> and \<^verbatim>\<open>resume\<close>: a worker held for a
  sequence of calls. The state is that of the session together with the pool it belongs to.
\<close>

section \<open>Sessions\<close>

record 'c session =
  s_pool :: "'c pool"
  s_restore :: "(string, byte list) dict"  \<comment> \<open>empty when there is nothing to restore\<close>
  s_worker :: "worker option"
  s_dead :: bool

definition on_pool :: "('c pool, 'a) py \<Rightarrow> ('c session, 'a) py" where
  "on_pool m s = (case m (s_pool s) of (r, p) \<Rightarrow> (r, s\<lparr>s_pool := p\<rparr>))"

definition session_new :: "'c pool \<Rightarrow> (string, byte list) dict \<Rightarrow> 'c session" where
  "session_new p restore = \<lparr>s_pool = p, s_restore = restore, s_worker = None, s_dead = False\<rparr>"

definition resume :: "('blob \<Rightarrow> exn + member list) \<Rightarrow> 'blob \<Rightarrow> 'c pool \<Rightarrow> exn + 'c session" where
  "resume untar blob p =
     (case unpack_snapshot untar blob of
        Inl e \<Rightarrow> Inl e
      | Inr fs \<Rightarrow> if too_big (cfg p) fs then Inl (ValueErr ''snapshot exceeds max_upload_bytes'')
          else Inr (session_new p fs))"

definition retire_now :: "('c session, unit) py" where
  "retire_now s =
     (case s_worker s of
        None \<Rightarrow> (Inr (), s\<lparr>s_dead := True\<rparr>)
      | Some w \<Rightarrow> on_pool (retire_worker w) (s\<lparr>s_worker := None, s_dead := True\<rparr>))"

definition require_live :: "('c session, worker) py" where
  "require_live s =
     (case s_worker s of
        Some w \<Rightarrow> if s_dead s then (Inl (SandboxErr ''session is no longer usable''), s) else (Inr w, s)
      | None \<Rightarrow> (Inl (SandboxErr ''session is no longer usable''), s))"

definition enter_pool :: "'c kube \<Rightarrow> ('c pool, worker) py" where
  "enter_pool kb = andThen (reads (\<lambda>p. (is_closed p, is_started p))) (\<lambda>(cl, st).
     if cl then throw (SandboxPoolClosed ''session() called on a closed pool'')
     else andThen (if st then ret None else start kb) (\<lambda>_. lease kb))"

definition prep_workspace :: "'c kube \<Rightarrow> sandbox_config \<Rightarrow> worker \<Rightarrow> (string, byte list) dict \<Rightarrow> ('c, unit) py" where
  "prep_workspace kb cf w restore =
     andThen (clean_workspace kb cf w (max (default_timeout_s cf) 30)) (\<lambda>_.
       if restore \<noteq> [] then upload kb w restore (max (default_timeout_s cf) 30) else ret ())"

definition session_enter :: "'c kube \<Rightarrow> ('c session, unit) py" where
  "session_enter kb =
     andThen (on_pool (enter_pool kb)) (\<lambda>w.
     andThen (updates (\<lambda>s. s\<lparr>s_worker := Some w\<rparr>)) (\<lambda>_.
     andThen (reads (\<lambda>s. (cfg (s_pool s), s_restore s))) (\<lambda>(cf, restore).
     andThen (tryExcept (on_pool (on_cluster (prep_workspace kb cf w restore)))
       (\<lambda>e. andThen retire_now (\<lambda>_. throw e))) (\<lambda>_.
     updates (\<lambda>s. s\<lparr>s_restore := []\<rparr>)))))"

definition session_call :: "'c kube \<Rightarrow> string list \<Rightarrow> rat option \<Rightarrow> collect_arg \<Rightarrow> env_vars option \<Rightarrow>
    (string, byte list) dict \<Rightarrow> ('c session, json run_result) py" where
  "session_call kb argv t k env input =
     andThen require_live (\<lambda>w.
     andThen (reads (\<lambda>s. cfg (s_pool s))) (\<lambda>cf.
     andThen (on_pool (held_run kb w argv (timeout_of cf t) k env input)) (\<lambda>(r, retire).
     andThen (if retire then retire_now else ret ()) (\<lambda>_.
     case r of Inl e \<Rightarrow> throw e | Inr res \<Rightarrow> ret res))))"

definition session_run :: "'c kube \<Rightarrow> string \<Rightarrow> rat option \<Rightarrow> collect_arg \<Rightarrow> env_vars option \<Rightarrow>
    (string, byte list) dict \<Rightarrow> ('c session, json run_result) py" where
  "session_run kb code t k env input = andThen (reads (\<lambda>s. cfg (s_pool s)))
     (\<lambda>cf. session_call kb (interpreter cf @ [code]) t k env input)"

definition session_shell :: "'c kube \<Rightarrow> string \<Rightarrow> rat option \<Rightarrow> collect_arg \<Rightarrow> env_vars option \<Rightarrow>
    (string, byte list) dict \<Rightarrow> ('c session, json run_result) py" where
  "session_shell kb cmd = session_call kb [''sh'', ''-c'', cmd]"

definition session_exec :: "'c kube \<Rightarrow> string list \<Rightarrow> rat option \<Rightarrow> collect_arg \<Rightarrow> env_vars option \<Rightarrow>
    (string, byte list) dict \<Rightarrow> ('c session, json run_result) py" where
  "session_exec kb argv t k env input =
     (if argv = [] then throw (ValueErr ''argv must be a non-empty list'') else session_call kb argv t k env input)"

definition session_run_project :: "'c kube \<Rightarrow> host option \<Rightarrow> string list \<Rightarrow> rat option \<Rightarrow> collect_arg \<Rightarrow>
    env_vars option \<Rightarrow> string list \<Rightarrow> bool \<Rightarrow> (string, byte list) dict \<Rightarrow> ('c session, json run_result) py" where
  "session_run_project kb dir entry t k env excl follow extra = andThen (reads (\<lambda>s. cfg (s_pool s))) (\<lambda>cf.
     if entry = [] then throw (ValueErr ''entrypoint must be a non-empty argv list'')
     else (case project_files cf dir excl follow extra of
         Inl e \<Rightarrow> throw e
       | Inr fs \<Rightarrow> session_call kb entry t k env fs))"

definition checkpoint :: "'c kube \<Rightarrow> (member list \<Rightarrow> 'blob) \<Rightarrow> rat option \<Rightarrow> ('c session, 'blob) py" where
  "checkpoint kb tar t =
     andThen require_live (\<lambda>w.
     andThen (reads (\<lambda>s. cfg (s_pool s))) (\<lambda>cf.
     andThen (on_pool (on_cluster (collect kb cf w CollectAll (max (timeout_of cf t) 15)))) (\<lambda>(fs, trunc).
     if trunc \<noteq> [] then throw (SandboxErr ''checkpoint exceeds max_collect_bytes'')
     else ret (pack_snapshot tar fs))))"

definition session_close :: "'c kube \<Rightarrow> ('c session, unit) py" where
  "session_close kb s =
     (case s_worker s of
        None \<Rightarrow> (Inr (), s)
      | Some w \<Rightarrow> on_pool (if s_dead s then retire_worker w else release kb w False (Some True)) (s\<lparr>s_worker := None\<rparr>))"

section \<open>What the session keeps of the pool\<close>

text \<open>
  The life of a session in its \<^verbatim>\<open>with\<close> block: entered, a sequence of calls, and closed; a session whose
  entry raises is neither used nor closed.
\<close>

datatype session_op =
    Call "string list" "rat option" collect_arg "env_vars option" "(string, byte list) dict"
  | Checkpoint "rat option"

fun session_do :: "'c kube \<Rightarrow> session_op \<Rightarrow> 'c session \<Rightarrow> 'c session" where
  "session_do kb (Call argv t k env input) s = snd (session_call kb argv t k env input s)"
| "session_do kb (Checkpoint t) s = snd (checkpoint kb id t s)"

definition session_life :: "'c kube \<Rightarrow> session_op list \<Rightarrow> 'c session \<Rightarrow> 'c session" where
  "session_life kb opers s =
     (case session_enter kb s of
        (Inl e, s') \<Rightarrow> s'
      | (Inr _, s') \<Rightarrow> snd (session_close kb (fold (session_do kb) opers s')))"

text \<open>The session seen from the pool: the worker it holds is one of the held workers.\<close>

definition as_sys :: "'c session \<Rightarrow> worker list \<Rightarrow> string set \<Rightarrow> 'c sys" where
  "as_sys s h d = (s_pool s, (case s_worker s of None \<Rightarrow> h | Some w \<Rightarrow> w # h), d)"

definition session_ok :: "'c session \<Rightarrow> bool" where
  "session_ok s \<longleftrightarrow> (s_dead s \<longrightarrow> s_worker s = None)"

lemma retire_now_result:
  "snd (retire_now s) = s\<lparr>s_worker := None, s_dead := True,
     s_pool := (case s_worker s of None \<Rightarrow> s_pool s | Some w \<Rightarrow> (s_pool s)\<lparr>tasks := tasks (s_pool s) @ [ReplaceTask w]\<rparr>)\<rparr>"
  "fst (retire_now s) = Inr ()"
  by (auto simp: retire_now_def on_pool_def retire_worker_def start_task_def updates_def split: option.splits)

lemma step_retire_one:
  "pool_step kb (p, w # h, d) (p\<lparr>tasks := tasks p @ [ReplaceTask w]\<rparr>, h, d)"
proof -
  have "retire_worker w p = (Inr (), p\<lparr>tasks := tasks p @ [ReplaceTask w]\<rparr>)"
    by (simp add: retire_worker_def start_task_def updates_def)
  from step_retire [OF _ this, of "w # h" kb d] show ?thesis by simp
qed

lemma enter_pool_steps:
  assumes "enter_pool kb p = (r, p')"
  shows "\<exists>d'. (pool_step kb)\<^sup>*\<^sup>* (p, h, d) (p', (case r of Inl _ \<Rightarrow> h | Inr w \<Rightarrow> w # h), d')"
proof (cases "is_closed p")
  case True
  with assms show ?thesis by (auto simp: enter_pool_def reads_andThen throw_def)
next
  case False
  with assms have "andThen (if is_started p then ret None else start kb) (\<lambda>_. lease kb) p = (r, p')"
    by (simp add: enter_pool_def reads_andThen)
  then show ?thesis
  proof (cases rule: andThen_cases)
    case (raised e)
    then show ?thesis by (auto simp: ret_def split: if_splits intro: start_steps)
  next
    case (cont x q)
    then have first: "(pool_step kb)\<^sup>*\<^sup>* (p, h, d) (q, h, d)" by (auto simp: ret_def split: if_splits intro: start_steps)
    show ?thesis
    proof (cases r)
      case (Inl e)
      with step_no_worker [of kb q e p' h d] cont(2) first show ?thesis by (auto intro: rtranclp.rtrancl_into_rtrancl)
    next
      case (Inr w)
      with step_lease [of kb q w p' h d] cont(2) first show ?thesis by (auto intro: rtranclp.rtrancl_into_rtrancl)
    qed
  qed
qed

section \<open>The operations, branch by branch\<close>

lemma andThen_on_pool:
  "andThen (on_pool m) f s = (case m (s_pool s) of (Inl e, p) \<Rightarrow> (Inl e, s\<lparr>s_pool := p\<rparr>) | (Inr x, p) \<Rightarrow> f x (s\<lparr>s_pool := p\<rparr>))"
  by (simp add: andThen_def on_pool_def split: prod.splits sum.splits)

lemma on_cluster_eq: "on_cluster m p = (fst (m (cluster p)), p\<lparr>cluster := snd (m (cluster p))\<rparr>)"
  by (simp add: on_cluster_def split: prod.splits)

lemma run_outcome_retire: "snd (run_outcome d nm r) \<longleftrightarrow> (\<exists>e. r = Inl e)"
  by (auto simp: run_outcome_def split: sum.splits exn.splits)

definition retired :: "'c session \<Rightarrow> worker \<Rightarrow> 'c session" where
  "retired s w = s\<lparr>s_worker := None, s_dead := True, s_pool := (s_pool s)\<lparr>tasks := tasks (s_pool s) @ [ReplaceTask w]\<rparr>\<rparr>"

lemma retire_now_live: "s_worker s = Some w \<Longrightarrow> retire_now s = (Inr (), retired s w)"
  by (simp add: retire_now_def on_pool_def retire_worker_def start_task_def updates_def retired_def)

lemma enter_result:
  "session_enter kb s =
     (case enter_pool kb (s_pool s) of
        (Inl e, p) \<Rightarrow> (Inl e, s\<lparr>s_pool := p\<rparr>)
      | (Inr w, p) \<Rightarrow>
          (case prep_workspace kb (cfg p) w (s_restore s) (cluster p) of
             (Inl e, c) \<Rightarrow> (Inl e, retired (s\<lparr>s_pool := p\<lparr>cluster := c\<rparr>, s_worker := Some w\<rparr>) w)
           | (Inr _, c) \<Rightarrow> (Inr (), s\<lparr>s_pool := p\<lparr>cluster := c\<rparr>, s_worker := Some w, s_restore := []\<rparr>)))"
proof (cases "enter_pool kb (s_pool s)")
  case (Pair r p)
  show ?thesis
  proof (cases r)
    case (Inl e)
    with Pair show ?thesis by (simp add: session_enter_def andThen_on_pool)
  next
    case (Inr w)
    obtain q c where q: "prep_workspace kb (cfg p) w (s_restore s) (cluster p) = (q, c)" by fastforce
    show ?thesis
    proof (cases q)
      case (Inl e)
      with Pair Inr q show ?thesis
        by (simp add: session_enter_def andThen_on_pool andThen_def [of "updates _"] reads_andThen updates_def
            andThen_def [of "tryExcept _ _"] tryExcept_def on_pool_def on_cluster_eq
            andThen_Inr [OF retire_now_live [of _ w]] throw_def retired_def)
    next
      case (Inr u)
      with Pair \<open>r = Inr w\<close> q show ?thesis
        by (simp add: session_enter_def andThen_on_pool andThen_def [of "updates _"] reads_andThen updates_def
            andThen_def [of "tryExcept _ _"] tryExcept_def on_pool_def on_cluster_eq)
    qed
  qed
qed

lemma collect_timeout:
  "run_command kb w (CollectorScript (scratch_dir cf) (collect_want k) (max_collect_bytes cf)) (max t 15) c = (Inl ExecTimeout, c') \<Longrightarrow>
    collect kb cf w k t c = (Inr ([], []), c')"
  by (simp add: collect_def py_defs)

lemma collect_done:
  "run_command kb w (CollectorScript (scratch_dir cf) (collect_want k) (max_collect_bytes cf)) (max t 15) c = (Inr (out, err, ec), c') \<Longrightarrow>
    collect_reply ec out = Inr x \<Longrightarrow> collect kb cf w k t c = (Inr x, c')"
  by (simp add: collect_def py_defs)

lemma require_live_simps:
  "s_worker s = Some w \<Longrightarrow> \<not> s_dead s \<Longrightarrow> require_live s = (Inr w, s)"
  "s_worker s = None \<Longrightarrow> require_live s = (Inl (SandboxErr ''session is no longer usable''), s)"
  "s_dead s \<Longrightarrow> require_live s = (Inl (SandboxErr ''session is no longer usable''), s)"
  by (auto simp: require_live_def split: option.splits)

lemma checkpoint_live:
  assumes "s_worker s = Some w" "\<not> s_dead s"
  shows "checkpoint kb tar t s =
    (case collect kb (cfg (s_pool s)) w CollectAll (max (timeout_of (cfg (s_pool s)) t) 15) (cluster (s_pool s)) of
       (Inl e, c) \<Rightarrow> (Inl e, s\<lparr>s_pool := (s_pool s)\<lparr>cluster := c\<rparr>\<rparr>)
     | (Inr (fs, trunc), c) \<Rightarrow>
         (if trunc \<noteq> [] then Inl (SandboxErr ''checkpoint exceeds max_collect_bytes'') else Inr (pack_snapshot tar fs),
          s\<lparr>s_pool := (s_pool s)\<lparr>cluster := c\<rparr>\<rparr>))"
  by (simp add: checkpoint_def andThen_Inr [of require_live, OF require_live_simps(1) [OF assms]] reads_andThen andThen_on_pool on_cluster_eq
      ret_def throw_def split: prod.splits sum.splits)

lemma call_live:
  assumes "s_worker s = Some w" "\<not> s_dead s"
    and "exec_on_worker kb (cfg (s_pool s)) w argv (timeout_of (cfg (s_pool s)) t) k env input False (cluster (s_pool s)) = (r, c)"
  defines "s' \<equiv> s\<lparr>s_pool := (s_pool s)\<lparr>cluster := c\<rparr>\<rparr>"
  shows "session_call kb argv t k env input s =
    (fst (run_outcome (k_now kb c - k_now kb (cluster (s_pool s))) (w_name w) r),
     if (\<exists>e. r = Inl e) then retired s' w else s')"
proof -
  obtain x b where out: "run_outcome (k_now kb c - k_now kb (cluster (s_pool s))) (w_name w) r = (x, b)" by fastforce
  have b: "b \<longleftrightarrow> (\<exists>e. r = Inl e)" using out run_outcome_retire [of _ _ r] by (metis snd_conv)
  have held: "held_run kb w argv (timeout_of (cfg (s_pool s)) t) k env input (s_pool s) = (Inr (x, b), (s_pool s)\<lparr>cluster := c\<rparr>)"
    using assms(3) out by (simp add: held_run_def)
  have live: "s_worker s' = Some w" using assms(1) by (simp add: s'_def)
  have "session_call kb argv t k env input s =
      andThen (if b then retire_now else ret ()) (\<lambda>_. case x of Inl e \<Rightarrow> throw e | Inr res \<Rightarrow> ret res) s'"
    using assms(1,2) held
    by (simp add: session_call_def andThen_Inr [OF require_live_simps(1)] reads_andThen andThen_on_pool s'_def)
  also have "\<dots> = (x, if b then retired s' w else s')"
    using retire_now_live [OF live] by (cases b; cases x) (simp_all add: py_defs)
  finally show ?thesis by (simp add: out b)
qed

lemma call_dead:
  assumes "s_worker s = None \<or> s_dead s"
  shows "session_call kb argv t k env input s = (Inl (SandboxErr ''session is no longer usable''), s) \<and>
    checkpoint kb tar t s = (Inl (SandboxErr ''session is no longer usable''), s)"
  using assms
  by (auto simp: session_call_def checkpoint_def andThen_Inl [OF require_live_simps(2)] andThen_Inl [OF require_live_simps(3)])

section \<open>A session as steps of the pool\<close>

lemma as_sys_simps:
  "s_worker s = None \<Longrightarrow> as_sys s h d = (s_pool s, h, d)"
  "s_worker s = Some w \<Longrightarrow> as_sys s h d = (s_pool s, w # h, d)"
  by (simp_all add: as_sys_def)

lemma retired_steps:
  assumes "s_worker s = Some w"
  shows "pool_step kb (as_sys s h d) (as_sys (retired s w) h d)" "session_ok (retired s w)" "s_worker (retired s w) = None"
  using step_retire_one [of kb "s_pool s" w h d] assms by (simp_all add: as_sys_def retired_def session_ok_def)

lemma environment_steps:
  "pool_step kb (as_sys s h d) (as_sys (s\<lparr>s_pool := (s_pool s)\<lparr>cluster := c\<rparr>\<rparr>) h d)"
  unfolding as_sys_def by (cases "s_worker s") (auto intro: step_environment)

lemma enter_steps:
  assumes "s_worker s = None" "\<not> s_dead s" "session_enter kb s = (r, s')"
  shows "\<exists>d'. (pool_step kb)\<^sup>*\<^sup>* (as_sys s h d) (as_sys s' h d')"
    and "session_ok s'" and "r = Inl e \<Longrightarrow> s_worker s' = None"
proof -
  obtain q p where q: "enter_pool kb (s_pool s) = (q, p)" by fastforce
  from enter_pool_steps [OF q, of h d] obtain d' where
    st: "(pool_step kb)\<^sup>*\<^sup>* (s_pool s, h, d) (p, (case q of Inl _ \<Rightarrow> h | Inr w \<Rightarrow> w # h), d')" by blast
  show "\<exists>d'. (pool_step kb)\<^sup>*\<^sup>* (as_sys s h d) (as_sys s' h d')"
  proof (cases q)
    case (Inl e)
    with q assms(3) have "s' = s\<lparr>s_pool := p\<rparr>" by (simp add: enter_result)
    with st Inl assms(1) show ?thesis by (auto simp: as_sys_def)
  next
    case (Inr w)
    obtain y c where y: "prep_workspace kb (cfg p) w (s_restore s) (cluster p) = (y, c)" by fastforce
    have held: "pool_step kb (p, w # h, d') (p\<lparr>cluster := c\<rparr>, w # h, d')" by (rule step_environment)
    show ?thesis
    proof (cases y)
      case (Inl e)
      with q Inr y assms(3) have "s' = retired (s\<lparr>s_pool := p\<lparr>cluster := c\<rparr>, s_worker := Some w\<rparr>) w"
        by (simp add: enter_result)
      moreover have "(pool_step kb)\<^sup>*\<^sup>* (s_pool s, h, d) (p\<lparr>cluster := c, tasks := tasks p @ [ReplaceTask w]\<rparr>, h, d')"
        using st Inr held step_retire_one [of kb "p\<lparr>cluster := c\<rparr>" w h d']
        by (simp add: rtranclp.rtrancl_into_rtrancl)
      ultimately show ?thesis using assms(1) by (intro exI [of _ d']) (simp add: as_sys_def retired_def)
    next
      case (Inr u)
      with q \<open>q = Inr w\<close> y assms(3) have "s' = s\<lparr>s_pool := p\<lparr>cluster := c\<rparr>, s_worker := Some w, s_restore := []\<rparr>"
        by (simp add: enter_result)
      moreover have "(pool_step kb)\<^sup>*\<^sup>* (s_pool s, h, d) (p\<lparr>cluster := c\<rparr>, w # h, d')"
        using st \<open>q = Inr w\<close> held by (simp add: rtranclp.rtrancl_into_rtrancl)
      ultimately show ?thesis using assms(1) by (intro exI [of _ d']) (simp add: as_sys_def)
    qed
  qed
  show "session_ok s'" "r = Inl e \<Longrightarrow> s_worker s' = None"
    using assms q by (auto simp: enter_result session_ok_def retired_def split: sum.splits prod.splits)
qed

lemma checkpoint_result:
  "session_do kb (Checkpoint t) s = s \<or> (\<exists>c. session_do kb (Checkpoint t) s = s\<lparr>s_pool := (s_pool s)\<lparr>cluster := c\<rparr>\<rparr>)"
proof (cases "s_worker s = None \<or> s_dead s")
  case True
  then show ?thesis by (simp add: call_dead)
next
  case False
  then obtain w where "s_worker s = Some w" "\<not> s_dead s" by auto
  then have "session_do kb (Checkpoint t) s = s\<lparr>s_pool := (s_pool s)\<lparr>cluster := snd (collect kb (cfg (s_pool s)) w CollectAll
      (max (timeout_of (cfg (s_pool s)) t) 15) (cluster (s_pool s)))\<rparr>\<rparr>"
    by (simp add: checkpoint_live split: prod.split sum.split)
  then show ?thesis by blast
qed

lemma session_do_steps:
  assumes "session_ok s"
  shows "(pool_step kb)\<^sup>*\<^sup>* (as_sys s h d) (as_sys (session_do kb oper s) h d)" "session_ok (session_do kb oper s)"
proof -
  have "(pool_step kb)\<^sup>*\<^sup>* (as_sys s h d) (as_sys (session_do kb oper s) h d) \<and> session_ok (session_do kb oper s)"
  proof (cases oper)
    case (Checkpoint t)
    from checkpoint_result [of kb t s] show ?thesis
    proof
      assume "session_do kb (Checkpoint t) s = s"
      with assms Checkpoint show ?thesis by simp
    next
      assume "\<exists>c. session_do kb (Checkpoint t) s = s\<lparr>s_pool := (s_pool s)\<lparr>cluster := c\<rparr>\<rparr>"
      then obtain c where "session_do kb (Checkpoint t) s = s\<lparr>s_pool := (s_pool s)\<lparr>cluster := c\<rparr>\<rparr>" ..
      with assms Checkpoint environment_steps [of kb s h d c] show ?thesis by (simp add: session_ok_def r_into_rtranclp)
    qed
  next
    case (Call argv t k env input)
    show ?thesis
    proof (cases "s_worker s = None \<or> s_dead s")
      case True
      with Call assms show ?thesis by (simp add: call_dead)
    next
      case False
      then obtain w where w: "s_worker s = Some w" "\<not> s_dead s" by auto
      obtain r c where r: "exec_on_worker kb (cfg (s_pool s)) w argv (timeout_of (cfg (s_pool s)) t) k env input False (cluster (s_pool s)) = (r, c)"
        by fastforce
      let ?s = "s\<lparr>s_pool := (s_pool s)\<lparr>cluster := c\<rparr>\<rparr>"
      have "pool_step kb (as_sys s h d) (as_sys ?s h d)" by (rule environment_steps)
      moreover have "pool_step kb (as_sys ?s h d) (as_sys (retired ?s w) h d)" "session_ok (retired ?s w)"
        by (rule retired_steps; simp add: w)+
      moreover have "session_ok ?s" using w by (simp add: session_ok_def)
      ultimately show ?thesis using call_live [OF w r] Call
        by (cases "\<exists>e. r = Inl e") (auto intro: rtranclp.rtrancl_into_rtrancl)
    qed
  qed
  then show "(pool_step kb)\<^sup>*\<^sup>* (as_sys s h d) (as_sys (session_do kb oper s) h d)" "session_ok (session_do kb oper s)"
    by blast+
qed

lemma session_dos_steps:
  "session_ok s \<Longrightarrow> (pool_step kb)\<^sup>*\<^sup>* (as_sys s h d) (as_sys (fold (session_do kb) opers s) h d) \<and>
    session_ok (fold (session_do kb) opers s)"
proof (induction opers arbitrary: s)
  case (Cons x xs)
  from Cons.IH [OF session_do_steps(2) [OF Cons.prems, of kb x]] session_do_steps(1) [OF Cons.prems, of kb h d x]
  show ?case by (auto intro: rtranclp_trans)
qed simp

lemma close_steps:
  assumes "session_ok s"
  shows "(pool_step kb)\<^sup>*\<^sup>* (as_sys s h d) (as_sys (snd (session_close kb s)) h d)"
    and "s_worker (snd (session_close kb s)) = None"
proof -
  show "(pool_step kb)\<^sup>*\<^sup>* (as_sys s h d) (as_sys (snd (session_close kb s)) h d)"
  proof (cases "s_worker s")
    case None
    then show ?thesis by (simp add: session_close_def)
  next
    case (Some w)
    with assms have alive: "\<not> s_dead s" by (auto simp: session_ok_def)
    obtain r p' where rel: "release kb w False (Some True) (s_pool s) = (r, p')" by fastforce
    from step_release [OF _ _ rel, of "w # h" d] have "pool_step kb (s_pool s, w # h, d) (p', h, d)" by simp
    with Some alive rel show ?thesis by (auto simp: session_close_def on_pool_def as_sys_def)
  qed
  show "s_worker (snd (session_close kb s)) = None"
    by (auto simp: session_close_def on_pool_def split: option.splits prod.splits)
qed

text \<open>
  C16: the life of a session is made of the pool's steps: from a fresh or resumed session, through its entry
  (which may fail), any calls and checkpoints (which may time out or raise) and its closing, the state
  of the pool moves only by steps of the pool, and in the end the session holds nothing; so what is
  proved of reachable states holds after every session.
\<close>

theorem session_refines_steps:
  "\<exists>d'. (pool_step kb)\<^sup>*\<^sup>* (p, h, d) (s_pool (session_life kb opers (session_new p restore)), h, d') \<and>
    s_worker (session_life kb opers (session_new p restore)) = None"
proof -
  obtain r s' where enter: "session_enter kb (session_new p restore) = (r, s')" by fastforce
  have new: "s_worker (session_new p restore) = None" "\<not> s_dead (session_new p restore)"
    "as_sys (session_new p restore) h d = (p, h, d)"
    by (simp_all add: session_new_def as_sys_def)
  from enter_steps(1) [OF new(1,2) enter, of h d] new(3) obtain d' where
    first: "(pool_step kb)\<^sup>*\<^sup>* (p, h, d) (as_sys s' h d')" by auto
  show ?thesis
  proof (cases r)
    case (Inl e)
    with enter_steps(3) [OF new(1,2) enter] have "s_worker s' = None" by blast
    with first enter Inl show ?thesis by (auto simp: session_life_def as_sys_simps)
  next
    case (Inr u)
    let ?t = "fold (session_do kb) opers s'"
    from session_dos_steps [OF enter_steps(2) [OF new(1,2) enter], of kb h d' opers] have
      mid: "(pool_step kb)\<^sup>*\<^sup>* (as_sys s' h d') (as_sys ?t h d')" "session_ok ?t" by simp_all
    from close_steps [OF mid(2), of kb] have
      last: "(pool_step kb)\<^sup>*\<^sup>* (as_sys ?t h d') (as_sys (snd (session_close kb ?t)) h d')"
      "s_worker (snd (session_close kb ?t)) = None" by simp_all
    have "session_life kb opers (session_new p restore) = snd (session_close kb ?t)"
      using enter Inr by (simp add: session_life_def)
    with first mid(1) last show ?thesis
      using as_sys_simps(1) [OF last(2)] by (metis rtranclp_trans)
  qed
qed

text \<open>
  C17: a call on a session: a call that succeeds leaves everything but the cluster as it was, so the worker
  and its workspace stay with the session; a call that times out or raises sends the worker to a
  replacement thread, the session is dead, and closing it changes nothing more.
\<close>

theorem session_call_exact:
  assumes "s_worker s = Some w" "\<not> s_dead s"
    and "exec_on_worker kb (cfg (s_pool s)) w argv (timeout_of (cfg (s_pool s)) t) k env input False (cluster (s_pool s)) = (r, c)"
  defines "s' \<equiv> s\<lparr>s_pool := (s_pool s)\<lparr>cluster := c\<rparr>\<rparr>"
  shows "session_call kb argv t k env input s =
      (fst (run_outcome (k_now kb c - k_now kb (cluster (s_pool s))) (w_name w) r),
       if (\<exists>e. r = Inl e) then retired s' w else s') \<and>
    session_close kb (retired s' w) = (Inr (), retired s' w)"
  using call_live [OF assms(1-3)] by (simp add: s'_def session_close_def retired_def)

text \<open>
  A session that is over stays over: on a session without a worker (never entered, closed, or ended by a
  time-out or an error) every call and every checkpoint raises the same \<^verbatim>\<open>SandboxError\<close>, and
  nothing changes, on the pool or on the cluster.
\<close>

lemma dead_session_refuses:
  assumes "s_worker s = None \<or> s_dead s"
  shows "session_call kb argv t k env input s = (Inl (SandboxErr ''session is no longer usable''), s) \<and>
    checkpoint kb tar t s = (Inl (SandboxErr ''session is no longer usable''), s)"
  by (rule call_dead [OF assms])

text \<open>
  Closing a healthy session wipes before reuse: the worker goes to the cleaner (or to a replacement when
  spent), never straight back to the queue, even in a pool that keeps workspaces between runs.
\<close>

lemma session_close_wipes:
  assumes "s_worker s = Some w" "\<not> s_dead s" "session_close kb s = (r, s')"
  defines "w' \<equiv> w\<lparr>w_uses := w_uses w + 1\<rparr>"
  shows "r = Inr () \<and> s_worker s' = None \<and> free_q (s_pool s') = free_q (s_pool s) \<and>
    (tasks (s_pool s') = tasks (s_pool s) @ [CleanTask w'] \<or>
     tasks (s_pool s') = tasks (s_pool s) @ [ReplaceTask w'] \<and>
       spent (k_now kb (cluster (s_pool s))) w' (max_uses (cfg (s_pool s))) (max_age_s (cfg (s_pool s))))"
  using assms(1-3)
  by (auto simp: session_close_def on_pool_def release_def clock_def andThen_def reads_def Let_def start_task_def
      updates_def w'_def split: if_splits)

section \<open>Where sessions fall short\<close>

text \<open>
  The private upload error escapes: when the restored files cannot be uploaded, entering the session
  raises \<^verbatim>\<open>_UploadError\<close>, which is no \<^verbatim>\<open>SandboxError\<close>, while a call on a session or a pool
  translates the same failure.
\<close>

lemma enter_leaks_upload_error:
  assumes "enter_pool kb (s_pool s) = (Inr w, p)" "prep_workspace kb (cfg p) w (s_restore s) (cluster p) = (Inl (UploadErr m), c)"
  shows "fst (session_enter kb s) = Inl (UploadErr m) \<and> \<not> is_sandbox_error (UploadErr m) \<and>
    fst (run_outcome dur nm (Inl (UploadErr m))) = Inl (SandboxErr ''failed to upload input files'')"
  using assms by (simp add: enter_result run_outcome_def)

text \<open>
  A checkpoint can lose everything silently: when the collector times out, \<^verbatim>\<open>checkpoint\<close> returns the
  snapshot of an empty workspace instead of raising, and the session goes on.
\<close>

lemma checkpoint_loses_on_timeout:
  assumes "s_worker s = Some w" "\<not> s_dead s"
    and "run_command kb w (CollectorScript (scratch_dir (cfg (s_pool s))) None (max_collect_bytes (cfg (s_pool s))))
      (max (max (timeout_of (cfg (s_pool s)) t) 15) 15) (cluster (s_pool s)) = (Inl ExecTimeout, c)"
  shows "checkpoint kb tar t s = (Inr (pack_snapshot tar []), s\<lparr>s_pool := (s_pool s)\<lparr>cluster := c\<rparr>\<rparr>)"
  using collect_timeout [of kb w "cfg (s_pool s)" CollectAll] assms
  by (simp add: checkpoint_live collect_want_def)

section \<open>On the toy cluster\<close>

definition toy_session :: "toy session" where
  "toy_session = \<lparr>s_pool = toy_warm\<lparr>free_q := [toy_worker ''box-2'']\<rparr>, s_restore = [],
     s_worker = Some (toy_worker ''box-1''), s_dead = False\<rparr>"

definition silent_kube :: "toy kube" where
  "silent_kube = toy_kube\<lparr>k_upload := \<lambda>n fs c. (answer '''', c)\<rparr>"

definition slow_kube :: "toy kube" where
  "slow_kube = toy_kube\<lparr>k_exec := \<lambda>n cmd c. (\<lparr>c_connect = None, c_opened = 0, c_stdin_err = None,
     c_polls = [\<lparr>p_now = 1000, p_err = None, p_out = [], p_errout = []\<rparr>], c_status = []\<rparr>, c)\<rparr>"

lemma toy_session_simps [simp]:
  "s_worker toy_session = Some (toy_worker ''box-1'')" "\<not> s_dead toy_session"
  by (simp_all add: toy_session_def)

theorem session_call_exact_witness:
  "fst (session_call slow_kube [''id''] None CollectNone None [] toy_session) = Inr (timeout_result 0 ''box-1'') \<and>
    snd (session_call slow_kube [''id''] None CollectNone None [] toy_session) = retired toy_session (toy_worker ''box-1'')"
proof -
  let ?p = "s_pool toy_session"
  have x: "exec_on_worker slow_kube (cfg ?p) (toy_worker ''box-1'') [''id''] (timeout_of (cfg ?p) None) CollectNone None [] False
      (cluster ?p) = (Inl ExecTimeout, cluster ?p)"
    by code_simp
  from session_call_exact [OF _ _ x] show ?thesis by (simp add: run_outcome_def toy_worker_def)
qed

lemma dead_session_refuses_example:
  "session_call toy_kube [''id''] None CollectNone None [] (session_new toy_warm []) =
      (Inl (SandboxErr ''session is no longer usable''), session_new toy_warm []) \<and>
    checkpoint toy_kube id None (session_new toy_warm []) =
      (Inl (SandboxErr ''session is no longer usable''), session_new toy_warm [])"
  by (rule dead_session_refuses) (simp add: session_new_def)

lemma session_close_wipes_example:
  "free_q (s_pool (snd (session_close toy_kube toy_session))) = [toy_worker ''box-2'']"
proof -
  obtain r s' where r: "session_close toy_kube toy_session = (r, s')" by fastforce
  from session_close_wipes [OF toy_session_simps r] r show ?thesis by (simp add: toy_session_def)
qed

lemma enter_leaks_upload_error_example:
  "fst (session_enter silent_kube (session_new toy_warm [(''a'', [1])])) = Inl (UploadErr ''upload failed'')"
proof -
  let ?s = "session_new toy_warm [(''a'', [1])]"
  let ?p = "toy_warm\<lparr>free_q := [toy_worker ''box-2'']\<rparr>"
  have e: "enter_pool silent_kube (s_pool ?s) = (Inr (toy_worker ''box-1''), ?p)" by code_simp
  have q: "prep_workspace silent_kube (cfg ?p) (toy_worker ''box-1'') (s_restore ?s) (cluster ?p) =
      (Inl (UploadErr ''upload failed''), cluster ?p)" by code_simp
  from enter_leaks_upload_error [OF e q] show ?thesis by blast
qed

lemma checkpoint_loses_on_timeout_example:
  "fst (checkpoint slow_kube id None toy_session) = Inr []"
proof -
  let ?cf = "cfg (s_pool toy_session)"
  have x: "run_command slow_kube (toy_worker ''box-1'') (CollectorScript (scratch_dir ?cf) None (max_collect_bytes ?cf))
      (max (max (timeout_of ?cf None) 15) 15) (cluster (s_pool toy_session)) = (Inl ExecTimeout, cluster (s_pool toy_session))"
    by code_simp
  from checkpoint_loses_on_timeout [OF _ _ x, of id] show ?thesis by (simp add: pack_snapshot_def snapshot_members_def)
qed

end
