(* ===== verification/Resume.thy ===== *)
theory Resume
  imports Session Collect
begin

text \<open>
  Checkpoint and resume across the parts: what the collector script reads in one worker, packed by the session,
  unpacked by another pool and stored by the uploader script in another worker.
\<close>

lemma same_map_set:
  fixes fs fs' :: "(string, 'a) dict"
  assumes "dict_ok fs" "dict_ok fs'" "map_of fs' = map_of fs"
  shows "set fs' = set fs"
proof -
  have "x \<in> set d \<longleftrightarrow> map_of d (fst x) = Some (snd x)" if "dict_ok d" for d and x :: "string \<times> 'a"
    using that by (cases x) (simp add: dict_ok_def)
  with assms show ?thesis by (intro set_eqI) simp
qed

lemma uploadable_same_map:
  assumes "uploadable es fs" "dict_ok fs'" "map_of fs' = map_of fs"
  shows "uploadable es fs'"
proof -
  have "set fs' = set fs" using assms by (intro same_map_set) (auto simp: uploadable_def)
  with assms(1,2) show ?thesis by (simp add: uploadable_def)
qed

lemma total_size_same_map:
  assumes "dict_ok fs" "dict_ok fs'" "map_of fs' = map_of fs"
  shows "total_size fs' = total_size fs"
proof -
  have "distinct fs" "distinct fs'" using assms by (auto simp: dict_ok_def distinct_map)
  with same_map_set [OF assms] have "mset fs' = mset fs" by (simp add: set_eq_iff_mset_eq_distinct)
  then have "mset (map (\<lambda>(_, v). length v) fs') = mset (map (\<lambda>(_, v). length v) fs)" by simp
  then show ?thesis by (metis total_size_def sum_mset_sum_list)
qed

lemma snapshot_uploads:
  assumes "archives_files tar untar" "plain_entries es" "int (entries_size es) \<le> maxb"
  obtains fs where "unpack_snapshot untar (pack_snapshot tar (k_out (collector ct None maxb es))) = Inr fs"
    "int (total_size fs) \<le> maxb"
    "\<And>ct' inp. \<forall>x \<in> set inp. x \<noteq> [] \<Longrightarrow> concat inp = upload_frame fs \<Longrightarrow> length (upload_payload fs) < 10 ^ 16 \<Longrightarrow>
      \<exists>es'. uploader ct' inp [] = (None, es') \<and> (\<forall>rel. file_at (name_path rel) es' = file_at (name_path rel) es)"
proof -
  let ?k = "collector ct None maxb es"
  have up: "uploadable [] (k_out ?k)" by (rule collected_uploadable [OF assms(2,3)])
  then have good: "dict_ok (k_out ?k)" "\<forall>rel \<in> fst ` set (k_out ?k). plain_name rel" by (auto simp: uploadable_def)
  obtain fs where fs: "unpack_snapshot untar (pack_snapshot tar (k_out ?k)) = Inr fs" "dict_ok fs" "map_of fs = map_of (k_out ?k)"
    by (rule unpack_pack [OF assms(1) good])
  have "int (total_size (k_out ?k)) \<le> maxb"
    using under_cap_collector [of maxb ct None es] assms(3) by (auto simp: under_cap_def)
  with total_size_same_map [OF good(1) fs(2,3)] have small: "int (total_size fs) \<le> maxb" by simp
  have stored: "uploader ct' inp [] = (None, fold (\<lambda>(p, b). store_put p b) (map (\<lambda>(rel, b). (name_path rel, b)) fs) [])"
    if "\<forall>x \<in> set inp. x \<noteq> []" "concat inp = upload_frame fs" "length (upload_payload fs) < 10 ^ 16" for ct' inp
    by (rule uploader_runs [OF uploadable_same_map [OF up fs(2,3)] that])
  have "file_at (name_path rel) (fold (\<lambda>(p, b). store_put p b) (map (\<lambda>(rel, b). (name_path rel, b)) fs) []) =
      file_at (name_path rel) es" for rel
    using fold_store_put [OF uploadable_same_map [OF up fs(2,3)]] collector_all(2) [OF assms(2,3), of ct] fs(3)
    by (auto split: option.splits)
  with that [OF fs(1) small] stored show thesis by blast
qed

text \<open>
  C13: a checkpoint carries the workspace: if the worker ran the collector on a workspace of readable files
  within the cap and the archive library reads back what it writes, the checkpoint succeeds, any pool
  that takes uploads of that size can resume it, and the files the resumed session uploads into an empty workspace
  are exactly those of the first one, under every name and whatever pieces they arrive in.
\<close>

theorem checkpoint_resume_same_files:
  fixes kb :: "'c kube" and s :: "'c session" and p2 :: "'d pool"
  defines "cf \<equiv> cfg (s_pool s)"
  assumes "archives_files tar untar" "s_worker s = Some w" "\<not> s_dead s"
    and "plain_entries es" "int (entries_size es) \<le> max_collect_bytes cf" "max_collect_bytes cf \<le> max_upload_bytes (cfg p2)"
    and "run_command kb w (CollectorScript (scratch_dir cf) None (max_collect_bytes cf)) (max (max (timeout_of cf t) 15) 15)
      (cluster (s_pool s)) = (Inr (collector_output (collector ct None (max_collect_bytes cf) es), err, 0), c)"
  shows "\<exists>blob fs. fst (checkpoint kb tar t s) = Inr blob \<and> resume untar blob p2 = Inr (session_new p2 fs) \<and>
    (\<forall>ct' inp. (\<forall>x \<in> set inp. x \<noteq> []) \<and> concat inp = upload_frame fs \<and> length (upload_payload fs) < 10 ^ 16 \<longrightarrow>
      (\<exists>es'. uploader ct' inp [] = (None, es') \<and> (\<forall>rel. file_at (name_path rel) es' = file_at (name_path rel) es)))"
proof -
  let ?k = "collector ct None (max_collect_bytes cf) es"
  obtain fs where fs: "unpack_snapshot untar (pack_snapshot tar (k_out ?k)) = Inr fs" "int (total_size fs) \<le> max_collect_bytes cf"
    and stored: "\<And>ct' inp. \<forall>x \<in> set inp. x \<noteq> [] \<Longrightarrow> concat inp = upload_frame fs \<Longrightarrow> length (upload_payload fs) < 10 ^ 16 \<Longrightarrow>
      \<exists>es'. uploader ct' inp [] = (None, es') \<and> (\<forall>rel. file_at (name_path rel) es' = file_at (name_path rel) es)"
    by (rule snapshot_uploads [OF assms(2,5,6), of ct]) blast
  have "collect_reply 0 (collector_output ?k) = Inr (k_out ?k, map JStr (k_trunc ?k))" by (rule reply_of_collector)
  moreover have "k_trunc ?k = []" by (rule collector_all(1) [OF assms(5,6)])
  ultimately have "fst (checkpoint kb tar t s) = Inr (pack_snapshot tar (k_out ?k))"
    using collect_done [of kb w cf CollectAll] assms(8) by (simp add: checkpoint_live [OF assms(3,4)] collect_want_def flip: cf_def)
  moreover have "resume untar (pack_snapshot tar (k_out ?k)) p2 = Inr (session_new p2 fs)"
    using fs assms(7) by (simp add: resume_def too_big_def)
  ultimately show ?thesis using stored by blast
qed

section \<open>On a toy worker\<close>

definition collecting_kube :: "toy kube" where
  "collecting_kube = toy_kube\<lparr>k_exec := \<lambda>n cmd c. (answer (case cmd of
     CollectorScript dir want maxb \<Rightarrow> collector_output (collector no_links want maxb demo_tree) | _ \<Rightarrow> []), c)\<rparr>"

theorem checkpoint_resume_same_files_witness:
  "\<exists>blob fs. fst (checkpoint collecting_kube id None toy_session) = Inr blob \<and>
    resume demo_untar blob toy_pool = Inr (session_new toy_pool fs) \<and>
    (\<exists>es'. uploader no_links [upload_frame fs] [] = (None, es') \<and>
      (\<forall>rel. file_at (name_path rel) es' = file_at (name_path rel) demo_tree))"
proof -
  define cf where "cf = cfg (s_pool toy_session)"
  let ?ms = "[\<lparr>m_name = ''keep'', m_kind = RegularFile, m_data = [7]\<rparr>, \<lparr>m_name = ''out/r.csv'', m_kind = RegularFile, m_data = [49, 44]\<rparr>]"
  let ?fs = "[(''keep'', [7]), (''out/r.csv'', [49, 44])] :: (string, byte list) dict"
  let ?cut = "max (max (timeout_of cf None) 15) 15"
  have "plain_entries demo_tree" "int (entries_size demo_tree) \<le> max_collect_bytes cf" "max_collect_bytes cf \<le> max_upload_bytes (cfg toy_pool)"
    by (simp_all add: demo_tree_def entry_name_def cf_def toy_session_def toy_warm_def toy_pool_def toy_config_def default_config_def)
  moreover have "run_command collecting_kube (toy_worker ''box-1'') (CollectorScript (scratch_dir cf) None (max_collect_bytes cf)) ?cut
      (cluster (s_pool toy_session)) =
      (Inr (collector_output (collector no_links None (max_collect_bytes cf) demo_tree), [], 0), cluster (s_pool toy_session))"
    unfolding cf_def by code_simp
  ultimately obtain blob fs where res: "fst (checkpoint collecting_kube id None toy_session) = Inr blob"
      "resume demo_untar blob toy_pool = Inr (session_new toy_pool fs)"
    and stored: "\<And>ct' inp. (\<forall>x \<in> set inp. x \<noteq> []) \<and> concat inp = upload_frame fs \<and> length (upload_payload fs) < 10 ^ 16 \<Longrightarrow>
      (\<exists>es'. uploader ct' inp [] = (None, es') \<and> (\<forall>rel. file_at (name_path rel) es' = file_at (name_path rel) demo_tree))"
    using checkpoint_resume_same_files [OF demo_archives, of toy_session "toy_worker ''box-1''" demo_tree toy_pool collecting_kube None]
    unfolding cf_def by (metis (no_types, lifting) toy_session_simps)
  have "fst (checkpoint collecting_kube id None toy_session) = Inr ?ms" by code_simp
  moreover have "resume demo_untar ?ms toy_pool = Inr (session_new toy_pool ?fs)" by code_simp
  ultimately have fs: "fs = ?fs" using res by (simp add: session_new_def)
  have "length (upload_payload fs) < 10 ^ 16"
    unfolding fs by (rule payload_short) (simp add: demo_collected_frame)
  moreover have "upload_frame fs \<noteq> []" by (simp add: fs demo_collected_frame)
  ultimately show ?thesis using res stored [of "[upload_frame fs]" no_links] by auto
qed

end
