(* ===== verification/Outcomes.thy ===== *)
theory Outcomes
  imports Session
begin

text \<open>
  The shape of what callers are given: every result of a run or of a call on a session is a well-formed
  \<^verbatim>\<open>RunResult\<close> for the worker that served it, whatever the worker, the websocket or the cluster sent back.
\<close>

section \<open>Documents that were read are well formed\<close>

text \<open>No object of the document has a key twice, as a Python \<^verbatim>\<open>dict\<close> cannot.\<close>

fun dicts_ok :: "json \<Rightarrow> bool" where
  "dicts_ok (JArr xs) \<longleftrightarrow> list_all dicts_ok xs"
| "dicts_ok (JObj ps) \<longleftrightarrow> dict_ok ps \<and> list_all (\<lambda>p. dicts_ok (snd p)) ps"
| "dicts_ok _ \<longleftrightarrow> True"

lemma values_dict_put: "snd ` set (dict_put k v d) \<subseteq> insert v (snd ` set d)"
  by (induction k v d rule: dict_put.induct) auto

lemma values_dict_update: "snd ` set (dict_update d e) \<subseteq> snd ` set d \<union> snd ` set e"
proof (induction e arbitrary: d)
  case (Cons kv e)
  obtain k v where "kv = (k, v)" by (cases kv)
  with Cons.IH [of "dict_put k v d"] values_dict_put [of k v d] show ?case by auto
qed simp

lemma dicts_ok_dict_of: "list_all (\<lambda>p. dicts_ok (snd p)) ps \<Longrightarrow> dicts_ok (JObj (dict_of ps))"
  using values_dict_update [of "[]" ps] by (fastforce simp: dict_of_def list_all_iff dict_ok_def [of "[]"])

lemma dicts_ok_num: "p_num s = Some (j, r) \<Longrightarrow> dicts_ok j"
  by (auto simp: p_num_def Let_def split: if_splits prod.splits)

lemma parsed_dicts_ok:
  "p_val n s = Some (j, r) \<Longrightarrow> dicts_ok j"
  "p_elems n s = Some (js, r) \<Longrightarrow> list_all dicts_ok js"
  "p_pairs n s = Some (ps, r) \<Longrightarrow> list_all (\<lambda>p. dicts_ok (snd p)) ps"
proof (induction n s and n s and n s arbitrary: j r and js r and ps r rule: p_val_p_elems_p_pairs.induct)
  case (2 n s)
  show ?case
  proof (cases s)
    case (Cons c u)
    define lit where "lit = (if prefix ''null'' s then Some (JNull, drop 4 s)
          else if prefix ''true'' s then Some (JBool True, drop 4 s)
          else if prefix ''false'' s then Some (JBool False, drop 5 s)
          else if prefix ''NaN'' s then Some (JNaN, drop 3 s)
          else if prefix ''Infinity'' s then Some (JFloat False FInf, drop 8 s)
          else p_num s)"
    have lits: "dicts_ok j" if "lit = Some (j, r)"
      using that dicts_ok_num unfolding lit_def by (auto split: if_split_asm simp del: Cons_prefix_Cons)
    have "p_val (Suc n) s = (if c = CHR 0x22 then map_option (apfst JStr) (p_str u)
          else if c = CHR ''{'' then
            (if skip_ws u \<noteq> [] \<and> hd (skip_ws u) = CHR ''}'' then Some (JObj [], tl (skip_ws u))
             else map_option (apfst (\<lambda>ps. JObj (dict_of ps))) (p_pairs n (skip_ws u)))
          else if c = CHR ''['' then
            (if skip_ws u \<noteq> [] \<and> hd (skip_ws u) = CHR '']'' then Some (JArr [], tl (skip_ws u))
             else map_option (apfst JArr) (p_elems n (skip_ws u)))
          else lit)"
      unfolding lit_def Cons by (simp only: p_val.simps list.case)
    note val = "2.prems" [unfolded this]
    consider (str) "c = CHR 0x22" | (ob) "c \<noteq> CHR 0x22" "c = CHR ''{''"
      | (arr) "c \<noteq> CHR 0x22" "c \<noteq> CHR ''{''" "c = CHR ''[''"
      | (other) "c \<noteq> CHR 0x22" "c \<noteq> CHR ''{''" "c \<noteq> CHR ''[''" by blast
    then show ?thesis
    proof cases
      case str
      with val show ?thesis by auto
    next
      case ob
      show ?thesis
      proof (cases "skip_ws u \<noteq> [] \<and> hd (skip_ws u) = CHR ''}''")
        case True
        with val ob show ?thesis by (auto simp: dict_ok_def)
      next
        case False
        with val ob obtain ps where ps: "p_pairs n (skip_ws u) = Some (ps, r)" "j = JObj (dict_of ps)"
          by (auto simp del: p_pairs.simps)
        with "2.IH"(1) [OF Cons ob False] have "list_all (\<lambda>p. dicts_ok (snd p)) ps" by simp
        then show ?thesis unfolding ps(2) by (rule dicts_ok_dict_of)
      qed
    next
      case arr
      show ?thesis
      proof (cases "skip_ws u \<noteq> [] \<and> hd (skip_ws u) = CHR '']''")
        case True
        with val arr show ?thesis by auto
      next
        case False
        with val arr obtain js where "p_elems n (skip_ws u) = Some (js, r)" "j = JArr js"
          by (auto simp del: p_elems.simps)
        with "2.IH"(2) [OF Cons arr False] show ?thesis by simp
      qed
    next
      case other
      with val lits show ?thesis by simp
    qed
  qed (use "2.prems" in simp)
next
  case (4 n s)
  then show ?case by (auto split: list.splits if_splits option.splits)
next
  case (6 n s)
  then show ?case by (auto split: list.splits if_splits option.splits)
qed simp_all

lemma loaded_dicts_ok: "json_loads s = Some j \<Longrightarrow> dicts_ok j"
  by (auto simp: json_loads_def simp del: p_val.simps intro: parsed_dicts_ok(1) split: option.splits if_splits)

lemma keys_decode_files: "decode_files ms = Inr fs \<Longrightarrow> map fst fs = map fst ms"
proof (induction ms arbitrary: fs)
  case (Cons m ms)
  obtain k v where "m = (k, v)" by (cases m)
  with Cons show ?case by (auto split: json.splits option.splits sum.splits)
qed simp

text \<open>What is collected is a dictionary: no file name comes twice.\<close>

lemma reply_files_distinct:
  assumes "collect_reply ec out = Inr (fs, trunc)"
  shows "dict_ok fs"
proof -
  consider "fs = []" | ob ms where "json_loads out = Some (JObj ob)" "dict_get ob ''files'' (JObj []) = JObj ms"
      "decode_files ms = Inr fs"
    using assms by (auto simp: collect_reply_def split: if_splits option.splits json.splits sum.splits)
  then show ?thesis
  proof cases
    case 2
    have "dicts_ok (JObj ms)"
    proof (cases "map_of ob ''files''")
      case None
      with 2(2) show ?thesis by (simp add: dict_get_def dict_ok_def)
    next
      case (Some v)
      then have "(''files'', v) \<in> set ob" by (rule map_of_SomeD)
      moreover have "list_all (\<lambda>p. dicts_ok (snd p)) ob" using loaded_dicts_ok [OF 2(1)] by simp
      ultimately have "dicts_ok v" by (metis list_all_iff snd_conv)
      with 2(2) Some show ?thesis by (simp add: dict_get_def)
    qed
    with keys_decode_files [OF 2(3)] show ?thesis by (simp add: dict_ok_def)
  qed (simp add: dict_ok_def)
qed

section \<open>Well-formed results\<close>

text \<open>
  The result of a run on worker \<open>nm\<close>: it has an exit code unless it timed out, in which case it carries nothing but
  its duration; no file comes twice, a run that collects nothing has no files, and no run takes negative time.
\<close>

definition well_formed_result :: "string \<Rightarrow> collect_arg \<Rightarrow> json run_result \<Rightarrow> bool" where
  "well_formed_result nm k r \<longleftrightarrow> sandbox_id r = nm \<and> 0 \<le> duration_s r \<and> dict_ok (files r) \<and>
     (timed_out r \<longleftrightarrow> exit_code r = None) \<and> (ok r \<longleftrightarrow> exit_code r = Some 0) \<and>
     (if timed_out r then stdout r = [] \<and> stderr r = [] \<and> files r = [] \<and> files_truncated r = []
      else collects k \<or> files r = [] \<and> files_truncated r = [])"

text \<open>\<^verbatim>\<open>time.monotonic()\<close> cannot go backwards, whatever happens on a websocket meanwhile.\<close>

definition monotonic_clock :: "'c kube \<Rightarrow> bool" where
  "monotonic_clock kb \<longleftrightarrow>
     (\<forall>nm cmd c. k_now kb c \<le> k_now kb (snd (k_exec kb nm cmd c))) \<and>
     (\<forall>nm fs c. k_now kb c \<le> k_now kb (snd (k_upload kb nm fs c)))"

definition later :: "'c kube \<Rightarrow> rat \<Rightarrow> 'c \<Rightarrow> bool" where
  "later kb t c \<longleftrightarrow> t \<le> k_now kb c"

lemma later_command: "monotonic_clock kb \<Longrightarrow> keeps (later kb t) (run_command kb w cmd d)"
  by (auto simp: keeps_def run_command_def later_def monotonic_clock_def split: prod.split) (metis order_trans snd_conv)

lemma later_upload: "monotonic_clock kb \<Longrightarrow> keeps (later kb t) (upload kb w fs d)"
  by (auto simp: keeps_def upload_def later_def monotonic_clock_def split: prod.split) (metis order_trans snd_conv)

lemma keeps_case_prod: "(\<And>x y. keeps P (f x y)) \<Longrightarrow> keeps P (case z of (x, y) \<Rightarrow> f x y)"
  by (cases z) simp

lemma later_clean: "monotonic_clock kb \<Longrightarrow> keeps (later kb t) (clean_workspace kb cf w d)"
  unfolding clean_workspace_def by (intro py_intros later_command keeps_case_prod) (auto intro: py_intros)

lemma later_collect: "monotonic_clock kb \<Longrightarrow> keeps (later kb t) (collect kb cf w k d)"
  unfolding collect_def
  by (intro py_intros later_command) (auto intro: py_intros split: option.split sum.split)

lemma round3_nonneg: "0 \<le> d \<Longrightarrow> 0 \<le> round3 d"
  using round_even_mono [of 0 "d * 1000"] round_even_int [of 0] by (simp add: round3_def)

lemma collect_files:
  assumes "collect kb cf w k d c = (Inr (fs, trunc), c')"
  shows "dict_ok fs"
proof -
  from assms show ?thesis unfolding collect_def
  proof (cases rule: andThen_cases)
    case (cont x t)
    then show ?thesis
      by (cases x) (auto simp: ret_def throw_def dict_ok_def [of "[]"] intro: reply_files_distinct split: sum.splits)
  qed simp
qed

lemma exec_on_worker_result:
  assumes mono: "monotonic_clock kb" and run: "exec_on_worker kb cf w argv t k env input clean c = (Inr res, c')"
  shows "well_formed_result (w_name w) k res \<and> \<not> timed_out res \<and> k_now kb c \<le> k_now kb c'"
proof -
  from run obtain argv' where run': "andThen (reads (k_now kb)) (\<lambda>t0.
          andThen (if clean then clean_workspace kb cf w t else ret ()) (\<lambda>_.
          andThen (if input \<noteq> [] then upload kb w input t else ret ()) (\<lambda>_.
          andThen (run_command kb w (Argv argv') t) (\<lambda>(out, err, code).
          andThen (if collects k then collect kb cf w k t else ret ([], [])) (\<lambda>(fs, trunc).
          andThen (reads (k_now kb)) (\<lambda>t1.
          ret \<lparr>stdout = out, stderr = err, exit_code = Some code, timed_out = False,
               duration_s = round3 (t1 - t0), sandbox_id = w_name w,
               files = fs, files_truncated = trunc\<rparr>)))))) c = (Inr res, c')"
    by (auto simp: exec_on_worker_def throw_def split: if_split_asm sum.split_asm)
  have base: "later kb (k_now kb c) c" by (simp add: later_def)
  from run' obtain c1 where c1: "(if clean then clean_workspace kb cf w t else ret ()) c = (Inr (), c1)"
    and run1: "andThen (if input \<noteq> [] then upload kb w input t else ret ()) (\<lambda>_.
          andThen (run_command kb w (Argv argv') t) (\<lambda>(out, err, code).
          andThen (if collects k then collect kb cf w k t else ret ([], [])) (\<lambda>(fs, trunc).
          andThen (reads (k_now kb)) (\<lambda>t1.
          ret \<lparr>stdout = out, stderr = err, exit_code = Some code, timed_out = False,
               duration_s = round3 (t1 - k_now kb c), sandbox_id = w_name w,
               files = fs, files_truncated = trunc\<rparr>)))) c1 = (Inr res, c')"
    unfolding reads_andThen by (rule andThen_cases) auto
  have l1: "later kb (k_now kb c) c1"
    by (rule keepsD [OF keeps_if [OF later_clean [OF mono] keeps_ret] base c1])
  from run1 obtain c2 where c2: "(if input \<noteq> [] then upload kb w input t else ret ()) c1 = (Inr (), c2)"
    and run2: "andThen (run_command kb w (Argv argv') t) (\<lambda>(out, err, code).
          andThen (if collects k then collect kb cf w k t else ret ([], [])) (\<lambda>(fs, trunc).
          andThen (reads (k_now kb)) (\<lambda>t1.
          ret \<lparr>stdout = out, stderr = err, exit_code = Some code, timed_out = False,
               duration_s = round3 (t1 - k_now kb c), sandbox_id = w_name w,
               files = fs, files_truncated = trunc\<rparr>))) c2 = (Inr res, c')"
    by (rule andThen_cases) auto
  have l2: "later kb (k_now kb c) c2"
    by (rule keepsD [OF keeps_if [OF later_upload [OF mono] keeps_ret] l1 c2])
  from run2 obtain out err code c3 where c3: "run_command kb w (Argv argv') t c2 = (Inr (out, err, code), c3)"
    and run3: "andThen (if collects k then collect kb cf w k t else ret ([], [])) (\<lambda>(fs, trunc).
          andThen (reads (k_now kb)) (\<lambda>t1.
          ret \<lparr>stdout = out, stderr = err, exit_code = Some code, timed_out = False,
               duration_s = round3 (t1 - k_now kb c), sandbox_id = w_name w,
               files = fs, files_truncated = trunc\<rparr>)) c3 = (Inr res, c')"
    by (rule andThen_cases) auto
  have l3: "later kb (k_now kb c) c3" by (rule keepsD [OF later_command [OF mono] l2 c3])
  from run3 obtain fs trunc where c4: "(if collects k then collect kb cf w k t else ret ([], [])) c3 = (Inr (fs, trunc), c')"
    and res: "res = \<lparr>stdout = out, stderr = err, exit_code = Some code, timed_out = False,
               duration_s = round3 (k_now kb c' - k_now kb c), sandbox_id = w_name w,
               files = fs, files_truncated = trunc\<rparr>"
    by (rule andThen_cases) (auto simp: reads_andThen ret_def)
  have l4: "later kb (k_now kb c) c'"
    by (rule keepsD [OF keeps_if [OF later_collect [OF mono] keeps_ret] l3 c4])
  have "dict_ok fs" "collects k \<or> fs = [] \<and> trunc = []"
    using c4 collect_files by (auto simp: ret_def dict_ok_def [of "[]"] split: if_splits)
  with l4 show ?thesis
    by (simp add: res well_formed_result_def ok_def later_def round3_nonneg)
qed

lemma run_outcome_result:
  assumes "run_outcome d nm r = (Inr res, retire)" "0 \<le> d" "\<And>x. r = Inr x \<Longrightarrow> well_formed_result nm k x \<and> \<not> timed_out x"
  shows "well_formed_result nm k res \<and> (retire \<longleftrightarrow> timed_out res)"
  using assms
  by (auto simp: run_outcome_def timeout_result_def well_formed_result_def ok_def dict_ok_def round3_nonneg split: sum.splits exn.splits)

lemma later_exec: "monotonic_clock kb \<Longrightarrow> keeps (later kb t0) (exec_on_worker kb cf w argv t k env input clean)"
  unfolding exec_on_worker_def
  by (auto intro!: py_intros keeps_case_prod later_clean later_upload later_command later_collect split: sum.split)

lemma held_run_result:
  assumes mono: "monotonic_clock kb" and run: "held_run kb w argv t k env input s = (Inr (Inr res, retire), s')"
  shows "well_formed_result (w_name w) k res \<and> (retire \<longleftrightarrow> timed_out res)"
proof -
  obtain r c where x: "exec_on_worker kb (cfg s) w argv t k env input False (cluster s) = (r, c)" by fastforce
  with run have out: "run_outcome (k_now kb c - k_now kb (cluster s)) (w_name w) r = (Inr res, retire)"
    by (simp add: held_run_def)
  have "later kb (k_now kb (cluster s)) c"
    by (rule keepsD [OF later_exec [OF mono] _ x]) (simp add: later_def)
  then have "0 \<le> k_now kb c - k_now kb (cluster s)" by (simp add: later_def)
  from run_outcome_result [OF out this] exec_on_worker_result [OF mono] x show ?thesis by metis
qed

text \<open>
  C10: results have their type: whatever a run on a started pool gives back is a well-formed \<^verbatim>\<open>RunResult\<close> of the
  worker at the head of the queue: an exit code exactly when it did not time out, nothing but the duration when it did, no file
  twice, no files when none were asked for, a duration that is not negative, and \<^verbatim>\<open>ok\<close> exactly for exit code 0.
\<close>

theorem dispatch_result_typed:
  assumes "monotonic_clock kb" "is_started p" "free_q p = w # ws" "dispatch kb argv t k env input p = (Inr res, p')"
  shows "well_formed_result (w_name w) k res"
proof -
  let ?q = "p\<lparr>free_q := ws\<rparr>"
  obtain x q where x: "held_run kb w argv (timeout_of (cfg p) t) k env input ?q = (x, q)" by fastforce
  have "lease kb p = (Inr w, ?q)" using assms(3) by (simp add: lease_def)
  with assms(2,4) x have run: "andThen (held_run kb w argv (timeout_of (cfg p) t) k env input) (\<lambda>(r, retire).
      andThen (release kb w retire None) (\<lambda>_. case r of Inl e \<Rightarrow> throw e | Inr res \<Rightarrow> ret res)) ?q = (Inr res, p')"
    by (simp add: dispatch_def reads_andThen ret_andThen andThen_Inr [of "lease kb"] throw_def split: if_splits)
  then show ?thesis
  proof (cases rule: andThen_cases)
    case (cont y u)
    obtain r retire where y: "y = (r, retire)" by (cases y)
    with cont(2) have "andThen (release kb w retire None) (\<lambda>_. case r of Inl e \<Rightarrow> throw e | Inr res \<Rightarrow> ret res) u = (Inr res, p')"
      by simp
    then have "r = Inr res" by (rule andThen_cases) (auto simp: throw_def ret_def split: sum.splits)
    with held_run_result [OF assms(1)] cont(1) y show ?thesis by blast
  qed simp
qed

text \<open>The same for a call on a session, which ends the session exactly when the result says that it timed out.\<close>

lemma session_result_typed:
  assumes "monotonic_clock kb" "s_worker s = Some w" "session_call kb argv t k env input s = (Inr res, s')"
  shows "well_formed_result (w_name w) k res \<and> (s_dead s' \<longleftrightarrow> timed_out res)"
proof -
  have live: "\<not> s_dead s" using assms(3) call_dead [of s kb argv t k env input] by auto
  obtain r c where x: "exec_on_worker kb (cfg (s_pool s)) w argv (timeout_of (cfg (s_pool s)) t) k env input False (cluster (s_pool s)) = (r, c)"
    by fastforce
  obtain y retire where y: "held_run kb w argv (timeout_of (cfg (s_pool s)) t) k env input (s_pool s) =
      (Inr (y, retire), (s_pool s)\<lparr>cluster := c\<rparr>)" and out: "run_outcome (k_now kb c - k_now kb (cluster (s_pool s))) (w_name w) r = (y, retire)"
    using x by (cases "run_outcome (k_now kb c - k_now kb (cluster (s_pool s))) (w_name w) r") (simp add: held_run_def)
  from call_live [OF assms(2) live x] assms(3) out have res: "y = Inr res"
    and s': "s' = (if (\<exists>e. r = Inl e) then retired (s\<lparr>s_pool := (s_pool s)\<lparr>cluster := c\<rparr>\<rparr>) w else s\<lparr>s_pool := (s_pool s)\<lparr>cluster := c\<rparr>\<rparr>)"
    by auto
  have "retire \<longleftrightarrow> (\<exists>e. r = Inl e)" using out by (auto simp: run_outcome_def split: sum.splits exn.splits)
  with held_run_result [OF assms(1) y [unfolded res]] s' live show ?thesis by (auto simp: retired_def)
qed

section \<open>On the toy cluster\<close>

lemma toy_monotonic: "monotonic_clock toy_kube"
  by (simp add: monotonic_clock_def toy_kube_def)

theorem dispatch_result_typed_witness:
  "well_formed_result ''box-1'' CollectNone (\<lparr>stdout = ''hello'', stderr = [], exit_code = Some 0, timed_out = False, duration_s = 0,
      sandbox_id = ''box-1'', files = [], files_truncated = []\<rparr>)"
proof -
  have "\<exists>p'. dispatch toy_kube [''id''] None CollectNone None [] toy_warm =
      (Inr \<lparr>stdout = ''hello'', stderr = [], exit_code = Some 0, timed_out = False, duration_s = 0,
        sandbox_id = ''box-1'', files = [], files_truncated = []\<rparr>, p')"
    by (rule exI) code_simp
  then obtain p' where run: "dispatch toy_kube [''id''] None CollectNone None [] toy_warm =
      (Inr \<lparr>stdout = ''hello'', stderr = [], exit_code = Some 0, timed_out = False, duration_s = 0,
        sandbox_id = ''box-1'', files = [], files_truncated = []\<rparr>, p')" ..
  have "is_started toy_warm" "free_q toy_warm = toy_worker ''box-1'' # [toy_worker ''box-2'']"
    by (simp_all add: toy_warm_def toy_pool_def)
  from dispatch_result_typed [OF toy_monotonic this run] show ?thesis by (simp add: toy_worker_def)
qed

end
