(* ===== verification/Stream_Run.thy ===== *)
theory Stream_Run
  imports Session
begin

text \<open>
  \<^verbatim>\<open>SandboxStream\<close> of \<^verbatim>\<open>runner.py\<close>: a run whose output is delivered as it is produced, owned by a pool
  (which leases a worker for it) or by a session (which lends its own). The generator of \<^verbatim>\<open>__iter__\<close> is
  an iterator value that \<open>stream_next\<close> advances and \<open>stream_drop\<close> closes.
\<close>

section \<open>Owners\<close>

text \<open>
  What a stream gets from its owner: the pool, and the closures \<^verbatim>\<open>acquire\<close> and \<^verbatim>\<open>on_finish\<close>.
\<close>

record ('s, 'c) owner =
  ow_pool :: "'s \<Rightarrow> 'c pool"
  ow_put :: "'c pool \<Rightarrow> 's \<Rightarrow> 's"
  ow_acquire :: "('s, worker) py"
  ow_finish :: "worker \<Rightarrow> bool \<Rightarrow> ('s, unit) py"

definition pool_owner :: "'c kube \<Rightarrow> ('c pool, 'c) owner" where
  "pool_owner kb = \<lparr>ow_pool = \<lambda>p. p, ow_put = \<lambda>p _. p, ow_acquire = lease kb,
     ow_finish = \<lambda>w retire. release kb w retire None\<rparr>"

definition session_owner :: "worker \<Rightarrow> ('c session, 'c) owner" where
  "session_owner w = \<lparr>ow_pool = s_pool, ow_put = \<lambda>p s. s\<lparr>s_pool := p\<rparr>, ow_acquire = ret w,
     ow_finish = \<lambda>_ retire. if retire then retire_now else ret ()\<rparr>"

section \<open>The stream\<close>

record stream_run =
  x_argv :: "string list"
  x_timeout :: rat
  x_collect :: collect_arg
  x_env :: env_vars
  x_input :: "(string, byte list) dict"
  x_clean :: bool
  x_worker :: "worker option"
  x_result :: "json run_result option"
  x_t0 :: rat
  x_retire :: bool
  x_iterated :: bool
  x_finished :: bool

definition stream_new :: "string list \<Rightarrow> rat \<Rightarrow> collect_arg \<Rightarrow> env_vars \<Rightarrow> (string, byte list) dict \<Rightarrow> bool \<Rightarrow> stream_run" where
  "stream_new argv t k env input clean = \<lparr>x_argv = argv, x_timeout = t, x_collect = k, x_env = env, x_input = input,
     x_clean = clean, x_worker = None, x_result = None, x_t0 = 0, x_retire = False, x_iterated = False, x_finished = False\<rparr>"

definition dispatch_stream :: "'c kube \<Rightarrow> string list \<Rightarrow> rat option \<Rightarrow> collect_arg \<Rightarrow> env_vars option \<Rightarrow>
    (string, byte list) dict \<Rightarrow> ('c pool, stream_run) py" where
  "dispatch_stream kb argv t k env input = andThen (reads (\<lambda>s. (is_closed s, is_started s, cfg s))) (\<lambda>(cl, st, cf).
     if cl then throw (SandboxPoolClosed ''run_stream() called on a closed pool'')
     else andThen (if st then ret None else start kb) (\<lambda>_.
       ret (stream_new argv (timeout_of cf t) k (stream_env env) input False)))"

definition run_stream :: "'c kube \<Rightarrow> string \<Rightarrow> rat option \<Rightarrow> collect_arg \<Rightarrow> env_vars option \<Rightarrow>
    (string, byte list) dict \<Rightarrow> ('c pool, stream_run) py" where
  "run_stream kb code t k env input =
     andThen (reads cfg) (\<lambda>cf. dispatch_stream kb (interpreter cf @ [code]) t k env input)"

definition shell_stream :: "'c kube \<Rightarrow> string \<Rightarrow> rat option \<Rightarrow> collect_arg \<Rightarrow> env_vars option \<Rightarrow>
    (string, byte list) dict \<Rightarrow> ('c pool, stream_run) py" where
  "shell_stream kb cmd = dispatch_stream kb [''sh'', ''-c'', cmd]"

definition argv_stream :: "'c kube \<Rightarrow> string list \<Rightarrow> rat option \<Rightarrow> collect_arg \<Rightarrow> env_vars option \<Rightarrow>
    (string, byte list) dict \<Rightarrow> ('c pool, stream_run) py" where
  "argv_stream kb argv t k env input =
     (if argv = [] then throw (ValueErr ''argv must be a non-empty list'') else dispatch_stream kb argv t k env input)"

text \<open>\<^verbatim>\<open>SandboxSession._stream\<close>; the worker is the one its closures capture.\<close>

definition session_stream :: "string list \<Rightarrow> rat option \<Rightarrow> collect_arg \<Rightarrow> env_vars option \<Rightarrow>
    (string, byte list) dict \<Rightarrow> ('c session, worker \<times> stream_run) py" where
  "session_stream argv t k env input = andThen require_live (\<lambda>w. andThen (reads (\<lambda>s. cfg (s_pool s))) (\<lambda>cf.
     ret (w, stream_new argv (timeout_of cf t) k (stream_env env) input False)))"

definition session_run_stream :: "string \<Rightarrow> rat option \<Rightarrow> collect_arg \<Rightarrow> env_vars option \<Rightarrow>
    (string, byte list) dict \<Rightarrow> ('c session, worker \<times> stream_run) py" where
  "session_run_stream code t k env input = andThen (reads (\<lambda>s. cfg (s_pool s)))
     (\<lambda>cf. session_stream (interpreter cf @ [code]) t k env input)"

definition session_shell_stream :: "string \<Rightarrow> rat option \<Rightarrow> collect_arg \<Rightarrow> env_vars option \<Rightarrow>
    (string, byte list) dict \<Rightarrow> ('c session, worker \<times> stream_run) py" where
  "session_shell_stream cmd = session_stream [''sh'', ''-c'', cmd]"

definition session_argv_stream :: "string list \<Rightarrow> rat option \<Rightarrow> collect_arg \<Rightarrow> env_vars option \<Rightarrow>
    (string, byte list) dict \<Rightarrow> ('c session, worker \<times> stream_run) py" where
  "session_argv_stream argv t k env input =
     (if argv = [] then throw (ValueErr ''argv must be a non-empty list'') else session_stream argv t k env input)"

section \<open>Entering and leaving\<close>

text \<open>The operations run on the owner's state together with the stream.\<close>

definition on_owner :: "('s, 'c) owner \<Rightarrow> ('c pool, 'a) py \<Rightarrow> ('s \<times> stream_run, 'a) py" where
  "on_owner ow m = (\<lambda>(s, x). case m (ow_pool ow s) of (r, p) \<Rightarrow> (r, (ow_put ow p s, x)))"

definition on_state :: "('s, 'a) py \<Rightarrow> ('s \<times> stream_run, 'a) py" where
  "on_state m = (\<lambda>(s, x). case m s of (r, s') \<Rightarrow> (r, (s', x)))"

definition on_stream :: "(stream_run \<Rightarrow> stream_run) \<Rightarrow> ('s \<times> stream_run, unit) py" where
  "on_stream f = updates (\<lambda>(s, x). (s, f x))"

definition stream_finish :: "('s, 'c) owner \<Rightarrow> ('s \<times> stream_run, unit) py" where
  "stream_finish ow = (\<lambda>(s, x).
     if x_finished x then (Inr (), (s, x))
     else (case x_worker x of
         None \<Rightarrow> (Inr (), (s, x\<lparr>x_finished := True\<rparr>))
       | Some w \<Rightarrow> on_state (ow_finish ow w (x_retire x)) (s, x\<lparr>x_finished := True, x_worker := None\<rparr>)))"

definition stream_prepare :: "'c kube \<Rightarrow> ('s, 'c) owner \<Rightarrow> worker \<Rightarrow> ('s \<times> stream_run, unit) py" where
  "stream_prepare kb ow w = andThen (reads snd) (\<lambda>x. on_owner ow (andThen (reads cfg) (\<lambda>cf.
     if x_input x \<noteq> [] \<and> too_big cf (x_input x) then throw (ValueErr ''input_files exceeds max_upload_bytes'')
     else on_cluster
       (andThen (if x_clean x then clean_workspace kb cf w (x_timeout x) else ret ()) (\<lambda>_.
        if x_input x \<noteq> [] then upload kb w (x_input x) (x_timeout x) else ret ())))))"

definition stream_enter :: "'c kube \<Rightarrow> ('s, 'c) owner \<Rightarrow> ('s \<times> stream_run, unit) py" where
  "stream_enter kb ow =
     andThen (on_owner ow (clock kb)) (\<lambda>t0.
     andThen (on_stream (\<lambda>x. x\<lparr>x_t0 := t0\<rparr>)) (\<lambda>_.
     andThen (on_state (ow_acquire ow)) (\<lambda>w.
     andThen (on_stream (\<lambda>x. x\<lparr>x_worker := Some w\<rparr>)) (\<lambda>_.
     tryExcept (stream_prepare kb ow w) (\<lambda>e.
       andThen (on_stream (\<lambda>x. x\<lparr>x_retire := True\<rparr>)) (\<lambda>_.
       andThen (stream_finish ow) (\<lambda>_.
       throw (case e of UploadErr m \<Rightarrow> SandboxErr ''failed to upload input files'' | _ \<Rightarrow> e))))))))"

text \<open>\<^verbatim>\<open>__exit__\<close>; the argument tells whether an exception left the \<^verbatim>\<open>with\<close> body.\<close>

definition stream_exit :: "('s, 'c) owner \<Rightarrow> bool \<Rightarrow> ('s \<times> stream_run, unit) py" where
  "stream_exit ow raised = andThen (on_stream (\<lambda>x. if raised then x\<lparr>x_retire := True\<rparr> else x)) (\<lambda>_. stream_finish ow)"

section \<open>Iterating\<close>

text \<open>
  The generator: not started; between two chunks, with those the exec generator still yields and how it
  ends; or finished.
\<close>

datatype iter = IterNew | IterRun "stream_chunk list" "exn + int" | IterDone

text \<open>
  \<^verbatim>\<open>_complete\<close>. A stream whose \<^verbatim>\<open>with\<close> block is over has no worker any more, and reading its name raises.
\<close>

definition stream_complete :: "'c kube \<Rightarrow> ('s, 'c) owner \<Rightarrow> int \<Rightarrow> ('s \<times> stream_run, unit) py" where
  "stream_complete kb ow code = andThen (reads snd) (\<lambda>x.
     case x_worker x of
       None \<Rightarrow> throw AttributeErr
     | Some w \<Rightarrow>
         andThen (on_owner ow (andThen (reads cfg) (\<lambda>cf.
           on_cluster (if collects (x_collect x) then collect kb cf w (x_collect x) (x_timeout x) else ret ([], [])))))
         (\<lambda>(fs, trunc). andThen (on_owner ow (clock kb)) (\<lambda>t1.
         on_stream (\<lambda>x. x\<lparr>x_result := Some \<lparr>stdout = [], stderr = [], exit_code = Some code, timed_out = False,
           duration_s = round3 (t1 - x_t0 x), sandbox_id = w_name w, files = fs, files_truncated = trunc\<rparr>\<rparr>))))"

text \<open>What happens when the exec generator returns or raises.\<close>

definition stream_end :: "'c kube \<Rightarrow> ('s, 'c) owner \<Rightarrow> exn + int \<Rightarrow> ('s \<times> stream_run, unit) py" where
  "stream_end kb ow ending =
     (case ending of
        Inr code \<Rightarrow> tryExcept (stream_complete kb ow code) (\<lambda>e. andThen (on_stream (\<lambda>x. x\<lparr>x_retire := True\<rparr>)) (\<lambda>_. throw e))
      | Inl e \<Rightarrow> andThen (on_stream (\<lambda>x. x\<lparr>x_retire := True\<rparr>)) (\<lambda>_.
          if e = ExecTimeout then
            andThen (on_owner ow (clock kb)) (\<lambda>t1. andThen (reads snd) (\<lambda>x.
              case x_worker x of
                None \<Rightarrow> throw AttributeErr
              | Some w \<Rightarrow> on_stream (\<lambda>x. x\<lparr>x_result := Some (timeout_result (t1 - x_t0 x) (w_name w))\<rparr>)))
          else throw e))"

text \<open>One \<^verbatim>\<open>next\<close>: a chunk, the end (\<open>None\<close>), or an exception, and what the iterator has become.\<close>

definition iter_advance :: "'c kube \<Rightarrow> ('s, 'c) owner \<Rightarrow> stream_chunk list \<Rightarrow> exn + int \<Rightarrow> 's \<times> stream_run \<Rightarrow>
    ((exn + stream_chunk option) \<times> iter) \<times> ('s \<times> stream_run)" where
  "iter_advance kb ow cs ending st =
     (case cs of
        c # cs' \<Rightarrow> ((Inr (Some c), IterRun cs' ending), st)
      | [] \<Rightarrow> (case stream_end kb ow ending st of
            (Inl e, st') \<Rightarrow> ((Inl e, IterDone), st')
          | (Inr _, st') \<Rightarrow> ((Inr None, IterDone), st')))"

fun stream_next :: "'c kube \<Rightarrow> ('s, 'c) owner \<Rightarrow> iter \<Rightarrow> 's \<times> stream_run \<Rightarrow>
    ((exn + stream_chunk option) \<times> iter) \<times> ('s \<times> stream_run)" where
  "stream_next kb ow IterDone st = ((Inr None, IterDone), st)"
| "stream_next kb ow (IterRun cs ending) st = iter_advance kb ow cs ending st"
| "stream_next kb ow IterNew (s, x) =
     (if x_iterated x then ((Inl (SandboxErr ''a SandboxStream can only be iterated once''), IterDone), (s, x))
      else (case x_worker x of
          None \<Rightarrow> ((Inl (SandboxErr ''iterate a SandboxStream inside its `with` block''), IterDone), (s, x))
        | Some w \<Rightarrow>
            (let x' = x\<lparr>x_iterated := True\<rparr> in
             case with_env (x_argv x) (Some (x_env x)) of
               Inl e \<Rightarrow> ((Inl e, IterDone), (s, x'))
             | Inr argv \<Rightarrow>
                 (case k_exec kb (w_name w) (Argv argv) (cluster (ow_pool ow s)) of (cv, c) \<Rightarrow>
                  (case exec_stream cv (x_timeout x) of (cs, ending) \<Rightarrow>
                     iter_advance kb ow cs ending (ow_put ow ((ow_pool ow s)\<lparr>cluster := c\<rparr>) s, x'))))))"

text \<open>Closing or dropping the iterator: the \<^verbatim>\<open>finally\<close> of a generator that is between two chunks.\<close>

fun stream_drop :: "iter \<Rightarrow> 's \<times> stream_run \<Rightarrow> 's \<times> stream_run" where
  "stream_drop (IterRun cs ending) (s, x) = (s, x\<lparr>x_retire := True\<rparr>)"
| "stream_drop it st = st"

text \<open>A consumer that asks for at most \<open>n\<close> chunks: what it got, the exception that stopped it, the iterator.\<close>

fun consume :: "'c kube \<Rightarrow> ('s, 'c) owner \<Rightarrow> nat \<Rightarrow> iter \<Rightarrow> 's \<times> stream_run \<Rightarrow>
    (stream_chunk list \<times> exn option \<times> iter) \<times> ('s \<times> stream_run)" where
  "consume kb ow 0 it st = (([], None, it), st)"
| "consume kb ow (Suc n) it st =
     (case stream_next kb ow it st of
        ((Inl e, it'), st') \<Rightarrow> (([], Some e, it'), st')
      | ((Inr None, it'), st') \<Rightarrow> (([], None, it'), st')
      | ((Inr (Some c), it'), st') \<Rightarrow>
          (case consume kb ow n it' st' of ((cs, e, it''), st'') \<Rightarrow> ((c # cs, e, it''), st'')))"

text \<open>
  The \<^verbatim>\<open>with\<close> block around a \<^verbatim>\<open>for\<close> loop that stops after at most \<open>n\<close> chunks: the chunks, the
  exception that leaves the block, and the stream afterwards.
\<close>

definition stream_block :: "'c kube \<Rightarrow> ('s, 'c) owner \<Rightarrow> nat \<Rightarrow> 's \<times> stream_run \<Rightarrow>
    (stream_chunk list \<times> exn option) \<times> ('s \<times> stream_run)" where
  "stream_block kb ow n st =
     (case stream_enter kb ow st of
        (Inl e, st') \<Rightarrow> (([], Some e), st')
      | (Inr _, st') \<Rightarrow>
          (case consume kb ow n IterNew st' of ((cs, e, it), st'') \<Rightarrow>
             (case stream_exit ow (e \<noteq> None) (stream_drop it st'') of
                (Inl e', st3) \<Rightarrow> ((cs, Some e'), st3)
              | (Inr _, st3) \<Rightarrow> ((cs, e), st3))))"

section \<open>What a stream needs of its owner\<close>

lemma on_stream_andThen: "andThen (on_stream f) g (s, x) = g () (s, f x)"
  and on_state_andThen: "andThen (on_state m) g' (s, x) = (case m s of (Inl e, s') \<Rightarrow> (Inl e, (s', x)) | (Inr a, s') \<Rightarrow> g' a (s', x))"
  by (simp_all add: andThen_def on_stream_def on_state_def updates_def split: prod.splits sum.splits)

text \<open>The owner's state with another cluster.\<close>

definition with_cluster :: "('s, 'c) owner \<Rightarrow> 'c \<Rightarrow> 's \<Rightarrow> 's" where
  "with_cluster ow c s = ow_put ow ((ow_pool ow s)\<lparr>cluster := c\<rparr>) s"

text \<open>Staging the inputs, as both a buffered run and a stream do it.\<close>

definition staged :: "'c kube \<Rightarrow> sandbox_config \<Rightarrow> worker \<Rightarrow> (string, byte list) dict \<Rightarrow> rat \<Rightarrow> ('c, unit) py" where
  "staged kb cf w input t =
     (if input \<noteq> [] \<and> too_big cf input then throw (ValueErr ''input_files exceeds max_upload_bytes'')
      else if input \<noteq> [] then upload kb w input t else ret ())"

lemma exec_on_worker_staged:
  assumes "with_env argv env = Inr argv'"
  shows "exec_on_worker kb cf w argv t k env input False c =
    (case staged kb cf w input t c of
       (Inl e, c1) \<Rightarrow> (Inl e, c1)
     | (Inr _, c1) \<Rightarrow>
         (case k_exec kb (w_name w) (Argv argv') c1 of (cv, c2) \<Rightarrow>
          (case exec_stream cv t of
             (cs, Inl e) \<Rightarrow> (Inl e, c2)
           | (cs, Inr code) \<Rightarrow>
               (case (if collects k then collect kb cf w k t else ret ([], [])) c2 of
                  (Inl e, c3) \<Rightarrow> (Inl e, c3)
                | (Inr (fs, trunc), c3) \<Rightarrow>
                    (Inr \<lparr>stdout = kind_text Stdout cs, stderr = kind_text Stderr cs, exit_code = Some code,
                       timed_out = False, duration_s = round3 (k_now kb c3 - k_now kb c), sandbox_id = w_name w,
                       files = fs, files_truncated = trunc\<rparr>, c3)))))"
proof (cases "input \<noteq> [] \<and> too_big cf input")
  case True
  then show ?thesis by (simp add: exec_on_worker_def staged_def throw_def)
next
  case False
  define fetch where "fetch = (if collects k then collect kb cf w k t else ret ([], []))"
  have st: "staged kb cf w input t = (if input \<noteq> [] then upload kb w input t else ret ())"
    using False by (auto simp: staged_def)
  obtain u c1 where u: "(if input \<noteq> [] then upload kb w input t else ret ()) c = (u, c1)" by fastforce
  obtain cv c2 where cv: "k_exec kb (w_name w) (Argv argv') c1 = (cv, c2)" by fastforce
  obtain cs ending where cs: "exec_stream cv t = (cs, ending)" by fastforce
  obtain q c3 where q: "fetch c2 = (q, c3)" by fastforce
  have "exec_on_worker kb cf w argv t k env input False c =
      andThen (if input \<noteq> [] then upload kb w input t else ret ()) (\<lambda>_.
      andThen (run_command kb w (Argv argv') t) (\<lambda>(out, err, code).
      andThen fetch (\<lambda>(fs, trunc).
      andThen (reads (k_now kb)) (\<lambda>t1.
      ret \<lparr>stdout = out, stderr = err, exit_code = Some code, timed_out = False,
           duration_s = round3 (t1 - k_now kb c), sandbox_id = w_name w, files = fs, files_truncated = trunc\<rparr>)))) c"
    by (simp only: exec_on_worker_def if_not_P [OF False] assms sum.case reads_andThen if_False ret_andThen fetch_def)
  also have "\<dots> = (case (u, c1) of (Inl e, c1) \<Rightarrow> (Inl e, c1)
     | (Inr _, c1) \<Rightarrow>
          (case (cs, ending) of
             (cs, Inl e) \<Rightarrow> (Inl e, c2)
           | (cs, Inr code) \<Rightarrow>
               (case (q, c3) of
                  (Inl e, c3) \<Rightarrow> (Inl e, c3)
                | (Inr (fs, trunc), c3) \<Rightarrow>
                    (Inr \<lparr>stdout = kind_text Stdout cs, stderr = kind_text Stderr cs, exit_code = Some code,
                       timed_out = False, duration_s = round3 (k_now kb c3 - k_now kb c), sandbox_id = w_name w,
                       files = fs, files_truncated = trunc\<rparr>, c3))))"
    using u cv cs q
    by (cases u; cases ending; cases q)
      (simp_all add: andThen_def run_command_def exec_capture_def reads_def ret_def split: prod.splits)
  finally show ?thesis using u cv cs q unfolding st fetch_def [symmetric]
    by (cases u; cases ending; cases q) (simp_all split: prod.splits)
qed

text \<open>
  The websocket client raises exceptions of its own classes, never the two private ones of the library.
\<close>

fun private_exn :: "exn \<Rightarrow> bool" where
  "private_exn ExecTimeout = True"
| "private_exn (UploadErr m) = True"
| "private_exn _ = False"

definition client_exceptions :: "conversation \<Rightarrow> bool" where
  "client_exceptions cv \<longleftrightarrow>
     (\<forall>e. private_exn e \<longrightarrow> c_connect cv \<noteq> Some e \<and> c_stdin_err cv \<noteq> Some e \<and> (\<forall>p \<in> set (c_polls cv). p_err p \<noteq> Some e))"

definition client_kube :: "'c kube \<Rightarrow> bool" where
  "client_kube kb \<longleftrightarrow> (\<forall>nm cmd c. client_exceptions (fst (k_exec kb nm cmd c))) \<and>
     (\<forall>nm fs c. client_exceptions (fst (k_upload kb nm fs c)))"

lemma pump_errors: "snd (pump d ps) = Some e \<Longrightarrow> e = ExecTimeout \<or> (\<exists>p \<in> set ps. p_err p = Some e)"
  by (induction ps) (auto split: if_splits option.splits prod.splits)

lemma int_of_json_public: "int_of_json j = Inl e \<Longrightarrow> \<not> private_exn e"
  by (cases j rule: int_of_json.cases) (auto split: option.splits)

lemma scan_causes_public: "scan_causes cs = Inl e \<Longrightarrow> \<not> private_exn e"
proof (induction cs)
  case (Cons c cs)
  then show ?case
    by (auto split: json.splits if_splits sum.splits exn.splits dest: int_of_json_public)
qed simp

lemma py_iter_public: "py_iter j = Inl e \<Longrightarrow> \<not> private_exn e"
  by (cases j rule: py_iter.cases) auto

lemma exit_code_public: "exit_code_of ch = Inl e \<Longrightarrow> \<not> private_exn e"
  by (auto simp: exit_code_of_def split: if_splits option.splits json.splits sum.splits dest: scan_causes_public py_iter_public)

lemma exec_stream_errors:
  assumes "client_exceptions cv" "exec_stream cv t = (cs, Inl e)"
  shows "e = ExecTimeout \<or> \<not> private_exn e"
proof -
  obtain cs' q where "pump (c_opened cv + t) (c_polls cv) = (cs', q)" by fastforce
  with assms pump_errors [of "c_opened cv + t" "c_polls cv" e] show ?thesis
    by (auto simp: exec_stream_def client_exceptions_def split: option.splits dest: exit_code_public)
qed

lemma await_errors: "await_upload d out ps = Some e \<Longrightarrow> (\<exists>m. e = UploadErr m) \<or> (\<exists>p \<in> set ps. p_err p = Some e)"
  by (induction d out ps rule: await_upload.induct) (auto split: if_splits option.splits)

lemma upload_errors: "client_exceptions cv \<Longrightarrow> upload_files cv t \<noteq> Some ExecTimeout"
  using await_errors [of "c_opened cv + t" "[]" "c_polls cv" ExecTimeout] private_exn.simps(1)
  unfolding client_exceptions_def upload_files_def
  by (cases "c_connect cv"; cases "c_stdin_err cv") auto

lemma staged_errors: "client_kube kb \<Longrightarrow> fst (staged kb cf w input t c) \<noteq> Inl ExecTimeout"
  using upload_errors [of "fst (k_upload kb (w_name w) input c)" t]
  by (auto simp: staged_def upload_def client_kube_def throw_def ret_def split: prod.splits option.splits)

lemma collect_errors:
  assumes "client_kube kb" "collect kb cf w k t c = (Inl e, c')"
  shows "\<not> private_exn e"
proof -
  let ?cmd = "CollectorScript (scratch_dir cf) (collect_want k) (max_collect_bytes cf)"
  obtain cv d where cv: "k_exec kb (w_name w) ?cmd c = (cv, d)" by fastforce
  then have "client_exceptions cv" using assms(1) unfolding client_kube_def by (metis fst_conv)
  from exec_stream_errors [OF this, of "max t 15"] assms(2) cv show ?thesis
    by (auto simp: collect_def run_command_def exec_capture_def collect_reply_def py_defs
        split: prod.splits sum.splits if_splits json.splits option.splits)
qed

locale stream_owner =
  fixes ow :: "('s, 'c) owner"
  assumes pool_of_put: "ow_pool ow (ow_put ow p s) = p"
    and put_twice: "ow_put ow p (ow_put ow q s) = ow_put ow p s"
    and put_same: "ow_put ow (ow_pool ow s) s = s"
    and finish_returns: "fst (ow_finish ow w b s) = Inr ()"
begin

lemma with_cluster_simps [simp]:
  "ow_pool ow (with_cluster ow c s) = (ow_pool ow s)\<lparr>cluster := c\<rparr>"
  "with_cluster ow c (with_cluster ow c' s) = with_cluster ow c s"
  "with_cluster ow (cluster (ow_pool ow s)) s = s"
  by (simp_all add: with_cluster_def pool_of_put put_twice put_same)

lemma owner_clock: "on_owner ow (clock kb) (s, x) = (Inr (k_now kb (cluster (ow_pool ow s))), (s, x))"
  by (simp add: on_owner_def clock_def reads_def put_same)

lemma owner_cluster:
  "on_owner ow (andThen (reads cfg) (\<lambda>cf. on_cluster (m cf))) (s, x) =
    (case m (cfg (ow_pool ow s)) (cluster (ow_pool ow s)) of (r, c) \<Rightarrow> (r, (with_cluster ow c s, x)))"
  by (simp add: on_owner_def reads_andThen on_cluster_eq with_cluster_def split: prod.splits)

lemma prepare_result:
  assumes "\<not> x_clean x"
  shows "stream_prepare kb ow w (s, x) =
    (case staged kb (cfg (ow_pool ow s)) w (x_input x) (x_timeout x) (cluster (ow_pool ow s)) of
       (r, c) \<Rightarrow> (r, (with_cluster ow c s, x)))"
proof -
  have "(\<lambda>cf. if x_input x \<noteq> [] \<and> too_big cf (x_input x) then throw (ValueErr ''input_files exceeds max_upload_bytes'')
     else on_cluster (andThen (if x_clean x then clean_workspace kb cf w (x_timeout x) else ret ()) (\<lambda>_.
        if x_input x \<noteq> [] then upload kb w (x_input x) (x_timeout x) else ret ()))) =
     (\<lambda>cf. on_cluster (staged kb cf w (x_input x) (x_timeout x)))"
    using assms by (auto simp: fun_eq_iff staged_def ret_andThen on_cluster_eq throw_def)
  then show ?thesis by (simp only: stream_prepare_def reads_andThen snd_conv owner_cluster)
qed

lemma finish_result:
  assumes "x_worker x = Some w" "\<not> x_finished x"
  shows "stream_finish ow (s, x) = (Inr (), (snd (ow_finish ow w (x_retire x) s), x\<lparr>x_finished := True, x_worker := None\<rparr>))"
  using assms finish_returns [of w "x_retire x" s] by (auto simp: stream_finish_def on_state_def split: prod.splits)

text \<open>Entering with a worker at hand: the inputs are staged, or the worker is given up at once.\<close>

lemma enter_with_worker:
  assumes "ow_acquire ow s = (Inr w, s1)" "\<not> x_clean x" "\<not> x_finished x"
    and "staged kb (cfg (ow_pool ow s1)) w (x_input x) (x_timeout x) (cluster (ow_pool ow s1)) = (r, c)"
  defines "x1 \<equiv> x\<lparr>x_t0 := k_now kb (cluster (ow_pool ow s)), x_worker := Some w\<rparr>"
  shows "stream_enter kb ow (s, x) =
    (case r of
       Inr _ \<Rightarrow> (Inr (), (with_cluster ow c s1, x1))
     | Inl e \<Rightarrow> (Inl (case e of UploadErr m \<Rightarrow> SandboxErr ''failed to upload input files'' | _ \<Rightarrow> e),
         (snd (ow_finish ow w True (with_cluster ow c s1)), x1\<lparr>x_retire := True, x_finished := True, x_worker := None\<rparr>)))"
proof -
  have prep: "stream_prepare kb ow w (s1, x1) = (r, (with_cluster ow c s1, x1))"
    using prepare_result [of x1] assms(2,4) by (simp add: x1_def)
  have "stream_enter kb ow (s, x) = tryExcept (stream_prepare kb ow w) (\<lambda>e.
       andThen (on_stream (\<lambda>x. x\<lparr>x_retire := True\<rparr>)) (\<lambda>_.
       andThen (stream_finish ow) (\<lambda>_.
       throw (case e of UploadErr m \<Rightarrow> SandboxErr ''failed to upload input files'' | _ \<Rightarrow> e)))) (s1, x1)"
    using assms(1)
    by (simp add: stream_enter_def andThen_Inr [of "on_owner ow (clock kb)", OF owner_clock] x1_def
        on_stream_andThen on_state_andThen)
  also have "\<dots> = (case r of
       Inr _ \<Rightarrow> (Inr (), (with_cluster ow c s1, x1))
     | Inl e \<Rightarrow> (Inl (case e of UploadErr m \<Rightarrow> SandboxErr ''failed to upload input files'' | _ \<Rightarrow> e),
         (snd (ow_finish ow w True (with_cluster ow c s1)), x1\<lparr>x_retire := True, x_finished := True, x_worker := None\<rparr>)))"
    using prep assms(3) finish_result [of "x1\<lparr>x_retire := True\<rparr>" w]
    by (cases r) (simp_all add: tryExcept_def andThen_def on_stream_def updates_def throw_def x1_def)
  finally show ?thesis .
qed

lemma consume_rest:
  "consume kb ow (Suc (length cs + m)) (IterRun cs ending) st =
    (case stream_end kb ow ending st of
       (Inl e, st') \<Rightarrow> ((cs, Some e, IterDone), st')
     | (Inr _, st') \<Rightarrow> ((cs, None, IterDone), st'))"
  by (induction cs) (simp_all add: iter_advance_def split: prod.splits sum.splits)

lemma consume_new:
  assumes "\<not> x_iterated x" "x_worker x = Some w" "with_env (x_argv x) (Some (x_env x)) = Inr argv"
    and "k_exec kb (w_name w) (Argv argv) (cluster (ow_pool ow s)) = (cv, c)" "exec_stream cv (x_timeout x) = (cs, ending)"
  shows "consume kb ow (Suc n) IterNew (s, x) =
    consume kb ow (Suc n) (IterRun cs ending) (with_cluster ow c s, x\<lparr>x_iterated := True\<rparr>)"
  using assms by (simp add: with_cluster_def)

end

interpretation pool_stream: stream_owner "pool_owner kb"
  by unfold_locales
    (simp_all add: pool_owner_def release_def clock_def andThen_def reads_def Let_def start_task_def put_free_def updates_def)

interpretation session_stream_own: stream_owner "session_owner w"
  by unfold_locales (simp_all add: session_owner_def retire_now_result(2) ret_def)

section \<open>A drained stream\<close>

text \<open>The result a stream reports for the result a buffered run would give.\<close>

definition streamed :: "exn + json run_result \<Rightarrow> json run_result option" where
  "streamed r = (case r of Inl e \<Rightarrow> None | Inr res \<Rightarrow> Some (res\<lparr>stdout := [], stderr := []\<rparr>))"

definition raised_by :: "exn + 'a \<Rightarrow> exn option" where
  "raised_by r = (case r of Inl e \<Rightarrow> Some e | Inr _ \<Rightarrow> None)"

context stream_owner
begin

lemma stream_end_result:
  assumes "x_worker x = Some w"
  shows "stream_end kb ow ending (s, x) =
    (case ending of
       Inl e \<Rightarrow>
         if e = ExecTimeout then (Inr (), (s, x\<lparr>x_retire := True,
           x_result := Some (timeout_result (k_now kb (cluster (ow_pool ow s)) - x_t0 x) (w_name w))\<rparr>))
         else (Inl e, (s, x\<lparr>x_retire := True\<rparr>))
     | Inr code \<Rightarrow>
         (case (if collects (x_collect x) then collect kb (cfg (ow_pool ow s)) w (x_collect x) (x_timeout x) else ret ([], []))
             (cluster (ow_pool ow s)) of
            (Inl e, c) \<Rightarrow> (Inl e, (with_cluster ow c s, x\<lparr>x_retire := True\<rparr>))
          | (Inr (fs, trunc), c) \<Rightarrow> (Inr (), (with_cluster ow c s,
              x\<lparr>x_result := Some \<lparr>stdout = [], stderr = [], exit_code = Some code, timed_out = False,
                duration_s = round3 (k_now kb c - x_t0 x), sandbox_id = w_name w, files = fs, files_truncated = trunc\<rparr>\<rparr>))))"
proof (cases ending)
  case (Inl e)
  then show ?thesis
    by (simp add: stream_end_def on_stream_andThen andThen_Inr [of "on_owner ow (clock kb)", OF owner_clock] reads_andThen assms)
      (simp add: on_stream_def updates_def throw_def)
next
  case (Inr code)
  define fetch where "fetch cf = (if collects (x_collect x) then collect kb cf w (x_collect x) (x_timeout x) else ret ([], []))" for cf
  obtain q c where q: "fetch (cfg (ow_pool ow s)) (cluster (ow_pool ow s)) = (q, c)" by fastforce
  have got: "andThen (on_owner ow (andThen (reads cfg) (\<lambda>cf. on_cluster (fetch cf)))) g (s, x) =
      (case q of Inl e \<Rightarrow> (Inl e, (with_cluster ow c s, x)) | Inr y \<Rightarrow> g y (with_cluster ow c s, x))"
    for g :: "_ \<Rightarrow> ('s \<times> stream_run, 'd) py"
    by (simp add: andThen_def owner_cluster q)
  have "stream_complete kb ow code (s, x) =
      (case q of
         Inl e \<Rightarrow> (Inl e, (with_cluster ow c s, x))
       | Inr (fs, trunc) \<Rightarrow> (Inr (), (with_cluster ow c s,
           x\<lparr>x_result := Some \<lparr>stdout = [], stderr = [], exit_code = Some code, timed_out = False,
             duration_s = round3 (k_now kb c - x_t0 x), sandbox_id = w_name w, files = fs, files_truncated = trunc\<rparr>\<rparr>)))"
    unfolding stream_complete_def reads_andThen snd_conv assms option.case fetch_def [symmetric] got
    by (cases q) (auto simp: andThen_Inr [of "on_owner ow (clock kb)", OF owner_clock] on_stream_def updates_def split: prod.splits)
  with q Inr show ?thesis unfolding fetch_def [symmetric]
    by (cases q) (auto simp: stream_end_def tryExcept_def on_stream_andThen throw_def split: prod.splits)
qed

lemma exit_after:
  assumes "x_worker x = Some w" "\<not> x_finished x"
  shows "stream_exit ow raised (s, x) =
    (Inr (), (snd (ow_finish ow w (raised \<or> x_retire x) s), x\<lparr>x_retire := (raised \<or> x_retire x), x_finished := True, x_worker := None\<rparr>))"
  using finish_result [of "if raised then x\<lparr>x_retire := True\<rparr> else x" w s] assms
  by (cases raised) (simp_all add: stream_exit_def on_stream_andThen)

text \<open>How the end of the generator compares with the end of the buffered run.\<close>

lemma end_matches_run:
  assumes client: "client_kube kb" and talk: "client_exceptions cv" and cs: "exec_stream cv t = (cs, ending)"
    and x: "x_worker x = Some w" "\<not> x_finished x" "x_collect x = k" "x_timeout x = t" "x_t0 x = t0" "x_result x = None" "\<not> x_retire x"
    and st: "cfg (ow_pool ow s) = cf" "cluster (ow_pool ow s) = c2"
    and ran: "(case ending of
        Inl e \<Rightarrow> (Inl e, c2)
      | Inr code \<Rightarrow>
          (case (if collects k then collect kb cf w k t else ret ([], [])) c2 of
             (Inl e, c3) \<Rightarrow> (Inl e, c3)
           | (Inr (fs, trunc), c3) \<Rightarrow>
               (Inr \<lparr>stdout = kind_text Stdout cs, stderr = kind_text Stderr cs, exit_code = Some code, timed_out = False,
                  duration_s = round3 (k_now kb c3 - t0), sandbox_id = w_name w, files = fs, files_truncated = trunc\<rparr>, c3))) = (r, c)"
    and out: "run_outcome (k_now kb c - t0) (w_name w) r = (res, b)"
    and y: "stream_end kb ow ending (s, x) = (y, (s3, x3))"
  shows "x_worker x3 = Some w \<and> \<not> x_finished x3 \<and> s3 = with_cluster ow c s \<and> raised_by y = raised_by res \<and>
    ((\<exists>e. y = Inl e) \<or> x_retire x3 \<longleftrightarrow> b) \<and> x_result x3 = streamed res \<and>
    (\<forall>out. r = Inr out \<longrightarrow> kind_text Stdout cs = stdout out \<and> kind_text Stderr cs = stderr out)"
proof -
  note tail = stream_end_result [OF x(1), of kb ending s, unfolded x st]
  show ?thesis
  proof (cases ending)
    case ending: (Inl e)
    with ran have r: "r = Inl e" "c = c2" by simp_all
    show ?thesis
    proof (cases "e = ExecTimeout")
      case True
      with tail y ending have "y = Inr ()" "s3 = s"
        "x3 = x\<lparr>x_retire := True, x_result := Some (timeout_result (k_now kb c2 - t0) (w_name w))\<rparr>"
        by auto
      with r True out x show ?thesis
        by (auto simp: run_outcome_def raised_by_def streamed_def timeout_result_def simp flip: st)
    next
      case False
      with tail y ending have "y = Inl e" "s3 = s" "x3 = x\<lparr>x_retire := True\<rparr>"
        by auto
      with r False out x exec_stream_errors [OF talk cs [unfolded ending]] show ?thesis
        by (auto simp: run_outcome_def raised_by_def streamed_def simp flip: st split: exn.splits)
    qed
  next
    case ending: (Inr code)
    define fetch where "fetch = (if collects k then collect kb cf w k t else ret ([], []))"
    obtain z c3 where z: "fetch c2 = (z, c3)" by fastforce
    show ?thesis
    proof (cases z)
      case (Inl e)
      with z have "collect kb cf w k t c2 = (Inl e, c3)" by (simp add: fetch_def ret_def split: if_splits)
      with collect_errors [OF client] have public: "\<not> private_exn e" by blast
      from ran ending z Inl have r: "r = Inl e" "c = c3" by (simp_all flip: fetch_def)
      from tail y ending z Inl have "y = Inl e" "s3 = with_cluster ow c3 s" "x3 = x\<lparr>x_retire := True\<rparr>"
        by (auto simp flip: fetch_def)
      with r out x public show ?thesis
        by (auto simp: run_outcome_def raised_by_def streamed_def split: exn.splits)
    next
      case (Inr a)
      then obtain fs trunc where a: "z = Inr (fs, trunc)" by (cases a) auto
      from ran ending z a have r: "r = Inr \<lparr>stdout = kind_text Stdout cs, stderr = kind_text Stderr cs, exit_code = Some code,
          timed_out = False, duration_s = round3 (k_now kb c3 - t0), sandbox_id = w_name w, files = fs,
          files_truncated = trunc\<rparr>" "c = c3" by (auto simp flip: fetch_def)
      from tail y ending z a have "y = Inr ()" "s3 = with_cluster ow c3 s"
        "x3 = x\<lparr>x_result := Some \<lparr>stdout = [], stderr = [], exit_code = Some code, timed_out = False,
          duration_s = round3 (k_now kb c3 - t0), sandbox_id = w_name w, files = fs, files_truncated = trunc\<rparr>\<rparr>"
        by (auto simp flip: fetch_def)
      with r out x show ?thesis
        by (auto simp: run_outcome_def raised_by_def streamed_def)
    qed
  qed
qed

lemma block_result:
  assumes "ow_acquire ow s = (Inr w, s1)" "cluster (ow_pool ow s1) = cluster (ow_pool ow s)"
    and env: "with_env argv (Some env) = Inr argv'"
    and client: "client_kube kb"
    and run: "exec_on_worker kb (cfg (ow_pool ow s1)) w argv t k (Some env) input False (cluster (ow_pool ow s)) = (r, c)"
    and out: "run_outcome (k_now kb c - k_now kb (cluster (ow_pool ow s))) (w_name w) r = (res, b)"
  obtains cs x' where
    "\<And>n. length cs < n \<Longrightarrow> stream_block kb ow n (s, stream_new argv t k env input False) =
       ((cs, raised_by res), (snd (ow_finish ow w b (with_cluster ow c s1)), x'))"
    and "x_result x' = streamed res" "x_worker x' = None" "x_finished x'"
    and "\<And>out. r = Inr out \<Longrightarrow> kind_text Stdout cs = stdout out \<and> kind_text Stderr cs = stderr out"
proof -
  let ?c0 = "cluster (ow_pool ow s)" and ?cf = "cfg (ow_pool ow s1)"
  define x0 where "x0 = stream_new argv t k env input False"
  define x1 where "x1 = x0\<lparr>x_t0 := k_now kb ?c0, x_worker := Some w\<rparr>"
  have x0: "\<not> x_clean x0" "\<not> x_finished x0" "x_input x0 = input" "x_timeout x0 = t" "x_result x0 = None" "\<not> x_retire x0"
    "\<not> x_iterated x0" "x_argv x0 = argv" "x_env x0 = env" "x_collect x0 = k"
    by (simp_all add: x0_def stream_new_def)
  obtain q c1 where q: "staged kb ?cf w input t ?c0 = (q, c1)" by fastforce
  note enter = enter_with_worker [OF assms(1) x0(1,2), of kb q c1, unfolded x0(3,4) assms(2), OF q, folded x1_def]
  show thesis
  proof (cases q)
    case (Inl e)
    from run [unfolded exec_on_worker_staged [OF env]] q Inl have r: "r = Inl e" "c = c1" by simp_all
    from staged_errors [OF client, of ?cf w input t ?c0] q Inl have "e \<noteq> ExecTimeout" by simp
    with out r have res: "res = Inl (case e of UploadErr m \<Rightarrow> SandboxErr ''failed to upload input files'' | _ \<Rightarrow> e)" "b"
      by (auto simp: run_outcome_def split: exn.splits)
    show thesis
      by (rule that [of "[]" "x1\<lparr>x_retire := True, x_finished := True, x_worker := None\<rparr>"])
        (use enter Inl r res x0(5) in \<open>simp_all add: stream_block_def raised_by_def streamed_def x1_def flip: x0_def\<close>)
  next
    case (Inr u)
    let ?x2 = "x1\<lparr>x_iterated := True\<rparr>" and ?s2 = "with_cluster ow c1 s1"
    obtain cv c2 where cv: "k_exec kb (w_name w) (Argv argv') c1 = (cv, c2)" by fastforce
    have talk: "client_exceptions cv" using client cv unfolding client_kube_def by (metis fst_conv)
    obtain cs ending where cs: "exec_stream cv t = (cs, ending)" by fastforce
    have x2: "x_worker ?x2 = Some w" "\<not> x_finished ?x2" "x_collect ?x2 = k" "x_timeout ?x2 = t" "x_t0 ?x2 = k_now kb ?c0"
      "x_result ?x2 = None" "\<not> x_retire ?x2" using x0 by (simp_all add: x1_def)
    obtain y s3 x3 where y: "stream_end kb ow ending (with_cluster ow c2 ?s2, ?x2) = (y, (s3, x3))" by (metis prod.exhaust)
    have body: "stream_block kb ow n (s, x0) =
        (case stream_exit ow (\<exists>e. y = Inl e) (s3, x3) of
           (Inl e', st3) \<Rightarrow> ((cs, Some e'), st3)
         | (Inr _, st3) \<Rightarrow> ((cs, raised_by y), st3))" if "length cs < n" for n
    proof -
      from that obtain m where n: "n = Suc (length cs + m)" by (auto dest: less_imp_Suc_add)
      have "consume kb ow n IterNew (?s2, x1) = consume kb ow n (IterRun cs ending) (with_cluster ow c2 ?s2, ?x2)"
        unfolding n by (rule consume_new) (use x0 env cv cs in \<open>simp_all add: x1_def\<close>)
      also have "\<dots> = (case y of Inl e \<Rightarrow> ((cs, Some e, IterDone), (s3, x3)) | Inr _ \<Rightarrow> ((cs, None, IterDone), (s3, x3)))"
        unfolding n consume_rest y by (simp split: sum.splits)
      finally show ?thesis using enter Inr by (cases y) (simp_all add: stream_block_def raised_by_def split: prod.splits sum.splits)
    qed
    note ran = run [unfolded exec_on_worker_staged [OF env] q Inr prod.case sum.case cv cs]
    have "x_worker x3 = Some w \<and> \<not> x_finished x3 \<and> s3 = with_cluster ow c (with_cluster ow c2 ?s2) \<and> raised_by y = raised_by res \<and>
        ((\<exists>e. y = Inl e) \<or> x_retire x3 \<longleftrightarrow> b) \<and> x_result x3 = streamed res \<and>
        (\<forall>out. r = Inr out \<longrightarrow> kind_text Stdout cs = stdout out \<and> kind_text Stderr cs = stderr out)"
      by (rule end_matches_run [OF client talk cs x2 _ _ ran out y]) simp_all
    then have fin: "x_worker x3 = Some w" "\<not> x_finished x3" "s3 = with_cluster ow c s1" "raised_by y = raised_by res"
      "(\<exists>e. y = Inl e) \<or> x_retire x3 \<longleftrightarrow> b" "x_result x3 = streamed res"
      "\<And>out. r = Inr out \<Longrightarrow> kind_text Stdout cs = stdout out \<and> kind_text Stderr cs = stderr out" by simp_all
    show thesis
      by (rule that [of cs "x3\<lparr>x_retire := b, x_finished := True, x_worker := None\<rparr>"])
        (use body exit_after [OF fin(1,2), of "\<exists>e. y = Inl e" s3] fin in \<open>simp_all flip: x0_def\<close>)
  qed
qed

text \<open>However it is used, a stream that got a worker gives it back once, and touches only the cluster before.\<close>

lemma end_keeps:
  assumes "stream_end kb ow ending (s, x) = (y, (s', x'))" "x_worker x = Some w"
  shows "(\<exists>c. s' = with_cluster ow c s) \<and> x_worker x' = Some w \<and> x_finished x' = x_finished x"
proof -
  have "\<exists>c. s = with_cluster ow c s" using with_cluster_simps(3) by metis
  then show ?thesis
    using assms unfolding stream_end_result [OF assms(2)]
    by (auto split: sum.splits prod.splits if_splits)
qed

lemma advance_keeps:
  assumes "iter_advance kb ow cs ending (s, x) = (y, (s', x'))" "x_worker x = Some w"
  shows "(\<exists>c. s' = with_cluster ow c s) \<and> x_worker x' = Some w \<and> x_finished x' = x_finished x"
proof (cases cs)
  case Nil
  obtain r t u where e: "stream_end kb ow ending (s, x) = (r, (t, u))" by (metis prod.exhaust)
  from end_keeps [OF e assms(2)] e Nil assms(1) show ?thesis by (auto simp: iter_advance_def split: sum.splits)
next
  case (Cons c cs')
  with assms have "s' = s" "x' = x" by (simp_all add: iter_advance_def)
  then show ?thesis using assms(2) with_cluster_simps(3) [of s] by metis
qed

lemma next_keeps:
  assumes "stream_next kb ow it (s, x) = (y, (s', x'))" "x_worker x = Some w"
  shows "(\<exists>c. s' = with_cluster ow c s) \<and> x_worker x' = Some w \<and> x_finished x' = x_finished x"
proof -
  have same: "\<exists>c. s = with_cluster ow c s" using with_cluster_simps(3) by metis
  show ?thesis
  proof (cases it)
    case IterNew
    show ?thesis
    proof (cases "x_iterated x \<or> (\<exists>e. with_env (x_argv x) (Some (x_env x)) = Inl e)")
      case True
      with assms IterNew same show ?thesis by (auto split: if_splits)
    next
      case False
      then obtain argv where argv: "with_env (x_argv x) (Some (x_env x)) = Inr argv" by (cases "with_env (x_argv x) (Some (x_env x))") auto
      obtain cv c where cv: "k_exec kb (w_name w) (Argv argv) (cluster (ow_pool ow s)) = (cv, c)" by fastforce
      obtain cs ending where cs: "exec_stream cv (x_timeout x) = (cs, ending)" by fastforce
      from assms IterNew False argv cv cs
      have "iter_advance kb ow cs ending (with_cluster ow c s, x\<lparr>x_iterated := True\<rparr>) = (y, (s', x'))"
        by (simp add: with_cluster_def)
      from advance_keeps [OF this] assms(2) show ?thesis by auto
    qed
  next
    case (IterRun cs ending)
    with assms advance_keeps [of kb cs ending s x y s' x' w] show ?thesis by simp
  next
    case IterDone
    with assms same show ?thesis by auto
  qed
qed

lemma consume_keeps:
  assumes "consume kb ow n it (s, x) = (y, (s', x'))" "x_worker x = Some w"
  shows "(\<exists>c. s' = with_cluster ow c s) \<and> x_worker x' = Some w \<and> x_finished x' = x_finished x"
  using assms
proof (induction n arbitrary: it s x y)
  case 0
  moreover have "\<exists>c. s = with_cluster ow c s" using with_cluster_simps(3) [of s] by metis
  ultimately show ?case by auto
next
  case (Suc n)
  obtain r it' t u where nxt: "stream_next kb ow it (s, x) = ((r, it'), (t, u))" by (metis prod.exhaust)
  note kept = next_keeps [OF nxt Suc.prems(2)]
  show ?case
  proof (cases "\<exists>c. r = Inr (Some c)")
    case True
    then obtain c where c: "r = Inr (Some c)" ..
    obtain z t' u' where z: "consume kb ow n it' (t, u) = (z, (t', u'))" by (metis prod.exhaust)
    from Suc.IH [of it' t u z] z c nxt Suc.prems kept have
      "(\<exists>c. s' = with_cluster ow c t) \<and> x_worker x' = Some w \<and> x_finished x' = x_finished u"
      by (auto split: prod.splits)
    with kept show ?thesis by auto
  next
    case False
    with nxt Suc.prems(1) have "s' = t" "x' = u" by (auto split: sum.splits option.splits)
    with kept show ?thesis by simp
  qed
qed

lemma drop_keeps:
  assumes "stream_drop it (s, x) = (s', x')"
  shows "s' = s \<and> x_worker x' = x_worker x \<and> x_finished x' = x_finished x \<and> (x_retire x \<longrightarrow> x_retire x')"
  using assms by (cases it) auto

lemma block_gives_back:
  assumes "ow_acquire ow s = (Inr w, s1)" "\<not> x_clean x" "\<not> x_finished x"
  obtains c b x' where "snd (stream_block kb ow n (s, x)) = (snd (ow_finish ow w b (with_cluster ow c s1)), x')"
    and "x_finished x'" "x_worker x' = None"
proof -
  obtain r c where r: "staged kb (cfg (ow_pool ow s1)) w (x_input x) (x_timeout x) (cluster (ow_pool ow s1)) = (r, c)" by fastforce
  note enter = enter_with_worker [OF assms(1-3) r]
  show thesis
  proof (cases r)
    case (Inl e)
    with enter that show thesis by (simp add: stream_block_def)
  next
    case (Inr u)
    let ?x = "x\<lparr>x_t0 := k_now kb (cluster (ow_pool ow s)), x_worker := Some w\<rparr>"
    obtain cs e it s2 x2 where con: "consume kb ow n IterNew (with_cluster ow c s1, ?x) = ((cs, e, it), (s2, x2))"
      by (metis prod.exhaust)
    from consume_keeps [OF con, of w] assms(3) obtain c' where c': "s2 = with_cluster ow c' s1" "x_worker x2 = Some w" "\<not> x_finished x2"
      by auto
    obtain x3 where x3: "stream_drop it (s2, x2) = (s2, x3)" using drop_keeps by (metis prod.exhaust)
    from drop_keeps [OF x3] c' have "x_worker x3 = Some w" "\<not> x_finished x3" by simp_all
    from exit_after [OF this, of "e \<noteq> None" s2] enter Inr con x3 c'(1) that show thesis
      by (auto simp: stream_block_def split: prod.splits)
  qed
qed

lemma exit_twice: "x_finished x \<Longrightarrow> stream_exit ow raised (s, x) = (Inr (), (s, if raised then x\<lparr>x_retire := True\<rparr> else x))"
  by (simp add: stream_exit_def on_stream_andThen stream_finish_def)

lemma consume_some:
  "n \<le> length cs \<Longrightarrow> consume kb ow n (IterRun cs ending) st = ((take n cs, None, IterRun (drop n cs) ending), st)"
  by (induction n arbitrary: cs) (auto simp: iter_advance_def Suc_le_length_iff)

end

end
