(* ===== verification/StreamLaws.thy ===== *)
theory StreamLaws
  imports Stream_Run
begin

text \<open>
  What streams promise: a drained stream is the buffered run, for a pool and for a session; a stream gives its
  worker back exactly once; one that is left early retires it, unless the iterator is kept.
\<close>

section \<open>A stream and the buffered run\<close>

text \<open>A streamed run from the call to the end of its \<^verbatim>\<open>with\<close> block, with a consumer of \<open>n\<close> chunks.\<close>

definition streamed_run :: "'c kube \<Rightarrow> nat \<Rightarrow> string list \<Rightarrow> rat option \<Rightarrow> collect_arg \<Rightarrow> env_vars option \<Rightarrow>
    (string, byte list) dict \<Rightarrow> 'c pool \<Rightarrow> (stream_chunk list \<times> exn option \<times> json run_result option) \<times> 'c pool" where
  "streamed_run kb n argv t k env input p =
     (case dispatch_stream kb argv t k env input p of
        (Inl e, p') \<Rightarrow> (([], Some e, None), p')
      | (Inr x, p') \<Rightarrow>
          (case stream_block kb (pool_owner kb) n (p', x) of ((cs, e), (p'', x')) \<Rightarrow> ((cs, e, x_result x'), p'')))"

definition session_streamed_run :: "'c kube \<Rightarrow> nat \<Rightarrow> string list \<Rightarrow> rat option \<Rightarrow> collect_arg \<Rightarrow> env_vars option \<Rightarrow>
    (string, byte list) dict \<Rightarrow> 'c session \<Rightarrow> (stream_chunk list \<times> exn option \<times> json run_result option) \<times> 'c session" where
  "session_streamed_run kb n argv t k env input s =
     (case session_stream argv t k env input s of
        (Inl e, s') \<Rightarrow> (([], Some e, None), s')
      | (Inr (w, x), s') \<Rightarrow>
          (case stream_block kb (session_owner w) n (s', x) of ((cs, e), (s'', x')) \<Rightarrow> ((cs, e, x_result x'), s'')))"

lemma dispatch_stream_warm:
  "is_started p \<Longrightarrow> \<not> is_closed p \<Longrightarrow>
    dispatch_stream kb argv t k env input p = (Inr (stream_new argv (timeout_of (cfg p) t) k (stream_env env) input False), p)"
  by (simp add: dispatch_stream_def reads_andThen ret_andThen) (simp add: ret_def)

lemma lease_head: "free_q p = w # ws \<Longrightarrow> lease kb p = (Inr w, p\<lparr>free_q := ws\<rparr>)"
  by (simp add: lease_def)

lemma dispatch_by_release:
  assumes "is_started p" "\<not> is_closed p" "free_q p = w # ws"
    and "exec_on_worker kb (cfg p) w argv (timeout_of (cfg p) t) k env input False (cluster p) = (r, c)"
    and "run_outcome (k_now kb c - k_now kb (cluster p)) (w_name w) r = (res, b)"
  shows "dispatch kb argv t k env input p = (res, snd (release kb w b None (p\<lparr>free_q := ws, cluster := c\<rparr>)))"
proof -
  have held: "held_run kb w argv (timeout_of (cfg p) t) k env input (p\<lparr>free_q := ws\<rparr>) =
      (Inr (res, b), p\<lparr>free_q := ws, cluster := c\<rparr>)"
    using assms(4,5) by (simp add: held_run_def)
  have fin: "fst (release kb w b None q) = Inr ()" for q :: "'a pool"
    using pool_stream.finish_returns by (simp add: pool_owner_def)
  have "dispatch kb argv t k env input p =
      andThen (release kb w b None) (\<lambda>_. case res of Inl e \<Rightarrow> throw e | Inr x \<Rightarrow> ret x) (p\<lparr>free_q := ws, cluster := c\<rparr>)"
    using assms(1,2) held by (simp add: dispatch_def reads_andThen ret_andThen andThen_Inr [of "lease kb", OF lease_head [OF assms(3)]] andThen_Inr)
  with fin [of "p\<lparr>free_q := ws, cluster := c\<rparr>"] show ?thesis
    by (cases "release kb w b None (p\<lparr>free_q := ws, cluster := c\<rparr>)"; cases res) (simp_all add: andThen_def throw_def ret_def)
qed

lemma outcome_not_timed_out:
  assumes "run_outcome d nm r = (Inr res, b)" "\<not> timed_out res"
  shows "r = Inr res"
  using assms by (auto simp: run_outcome_def timeout_result_def split: sum.splits exn.splits)

text \<open>
  C12: streaming is the buffered run delivered early: on a warm pool, a stream that is read to its end yields
  chunks whose texts, per channel and in order, are stdout and stderr of the buffered run with the same environment; it
  ends with the same exit code, files, duration, time-out or exception, and leaves pool and cluster in the same state.
\<close>

theorem stream_same_as_run:
  assumes "client_kube kb" "is_started p" "\<not> is_closed p" "free_q p \<noteq> []" "with_env argv (Some (stream_env env)) = Inr argv'"
    and "dispatch kb argv t k (Some (stream_env env)) input p = (res, p')"
  shows "\<exists>cs. (\<forall>n > length cs. streamed_run kb n argv t k env input p = ((cs, raised_by res, streamed res), p')) \<and>
    (\<forall>out. res = Inr out \<and> \<not> timed_out out \<longrightarrow> kind_text Stdout cs = stdout out \<and> kind_text Stderr cs = stderr out)"
proof -
  obtain w ws where q: "free_q p = w # ws" using assms(4) by (cases "free_q p") auto
  obtain r c where r: "exec_on_worker kb (cfg p) w argv (timeout_of (cfg p) t) k (Some (stream_env env)) input False (cluster p) = (r, c)"
    by fastforce
  obtain res' b where o': "run_outcome (k_now kb c - k_now kb (cluster p)) (w_name w) r = (res', b)" by fastforce
  from dispatch_by_release [OF assms(2,3) q r o'] assms(6) have res: "res' = res"
    and p': "p' = snd (release kb w b None (p\<lparr>free_q := ws, cluster := c\<rparr>))" by simp_all
  have acq: "ow_acquire (pool_owner kb) p = (Inr w, p\<lparr>free_q := ws\<rparr>)" using lease_head [OF q] by (simp add: pool_owner_def)
  have held: "cluster (ow_pool (pool_owner kb) (p\<lparr>free_q := ws\<rparr>)) = cluster (ow_pool (pool_owner kb) p)"
    "exec_on_worker kb (cfg (ow_pool (pool_owner kb) (p\<lparr>free_q := ws\<rparr>))) w argv (timeout_of (cfg p) t) k (Some (stream_env env)) input
      False (cluster (ow_pool (pool_owner kb) p)) = (r, c)"
    "run_outcome (k_now kb c - k_now kb (cluster (ow_pool (pool_owner kb) p))) (w_name w) r = (res, b)"
    using r o' res by (simp_all add: pool_owner_def)
  obtain cs x' where cs: "\<And>n. length cs < n \<Longrightarrow>
        stream_block kb (pool_owner kb) n (p, stream_new argv (timeout_of (cfg p) t) k (stream_env env) input False) =
        ((cs, raised_by res), (snd (ow_finish (pool_owner kb) w b (with_cluster (pool_owner kb) c (p\<lparr>free_q := ws\<rparr>))), x'))"
    and x': "x_result x' = streamed res"
    and text_of: "\<And>out. r = Inr out \<Longrightarrow> kind_text Stdout cs = stdout out \<and> kind_text Stderr cs = stderr out"
    by (rule pool_stream.block_result [OF acq held(1) assms(5,1) held(2,3)]) blast
  have "with_cluster (pool_owner kb) c (p\<lparr>free_q := ws\<rparr>) = p\<lparr>free_q := ws, cluster := c\<rparr>"
    by (simp add: with_cluster_def pool_owner_def)
  with cs x' p' have "streamed_run kb n argv t k env input p = ((cs, raised_by res, streamed res), p')" if "length cs < n" for n
    using that by (simp add: streamed_run_def dispatch_stream_warm [OF assms(2,3)]) (simp add: pool_owner_def)
  moreover have "kind_text Stdout cs = stdout out \<and> kind_text Stderr cs = stderr out"
    if "res = Inr out \<and> \<not> timed_out out" for out
    by (rule text_of, rule outcome_not_timed_out) (use o' res that in auto)
  ultimately show ?thesis by blast
qed

text \<open>
  The same for a session: a stream that is read to its end yields the output of the call with the same arguments,
  and leaves session, pool and cluster in the same state: alive, or, after a time-out or an error, ended.
\<close>

lemma session_stream_same_as_call:
  assumes "client_kube kb" "s_worker s = Some w" "\<not> s_dead s" "with_env argv (Some (stream_env env)) = Inr argv'"
    and "session_call kb argv t k (Some (stream_env env)) input s = (res, s')"
  shows "\<exists>cs. (\<forall>n > length cs. session_streamed_run kb n argv t k env input s = ((cs, raised_by res, streamed res), s')) \<and>
    (\<forall>out. res = Inr out \<and> \<not> timed_out out \<longrightarrow> kind_text Stdout cs = stdout out \<and> kind_text Stderr cs = stderr out)"
proof -
  let ?T = "timeout_of (cfg (s_pool s)) t" and ?ow = "session_owner w :: ('a session, 'a) owner"
  obtain r c where r: "exec_on_worker kb (cfg (s_pool s)) w argv ?T k (Some (stream_env env)) input False (cluster (s_pool s)) = (r, c)"
    by fastforce
  obtain res' b where o': "run_outcome (k_now kb c - k_now kb (cluster (s_pool s))) (w_name w) r = (res', b)" by fastforce
  have b: "b \<longleftrightarrow> (\<exists>e. r = Inl e)" using o' run_outcome_retire [of _ _ r] by (metis snd_conv)
  let ?s = "s\<lparr>s_pool := (s_pool s)\<lparr>cluster := c\<rparr>\<rparr>"
  from call_live [OF assms(2,3) r] assms(5) o' b have res: "res' = res" and s': "s' = (if b then retired ?s w else ?s)" by simp_all
  have acq: "ow_acquire ?ow s = (Inr w, s)" by (simp add: session_owner_def ret_def)
  have held: "exec_on_worker kb (cfg (ow_pool ?ow s)) w argv ?T k (Some (stream_env env)) input False (cluster (ow_pool ?ow s)) = (r, c)"
    "run_outcome (k_now kb c - k_now kb (cluster (ow_pool ?ow s))) (w_name w) r = (res, b)"
    using r o' res by (simp_all add: session_owner_def)
  obtain cs x' where cs: "\<And>n. length cs < n \<Longrightarrow> stream_block kb ?ow n (s, stream_new argv ?T k (stream_env env) input False) =
        ((cs, raised_by res), (snd (ow_finish ?ow w b (with_cluster ?ow c s)), x'))"
    and x': "x_result x' = streamed res"
    and text_of: "\<And>out. r = Inr out \<Longrightarrow> kind_text Stdout cs = stdout out \<and> kind_text Stderr cs = stderr out"
    by (rule session_stream_own.block_result [OF acq refl assms(4,1) held]) blast
  have "snd (ow_finish ?ow w b (with_cluster ?ow c s)) = s'"
    using retire_now_live [of ?s w] assms(2) by (simp add: with_cluster_def session_owner_def s' ret_def)
  with cs x' have "session_streamed_run kb n argv t k env input s = ((cs, raised_by res, streamed res), s')" if "length cs < n" for n
    using that by (simp add: session_streamed_run_def session_stream_def andThen_Inr [of require_live, OF require_live_simps(1) [OF assms(2,3)]]
        reads_andThen) (simp add: ret_def)
  moreover have "kind_text Stdout cs = stdout out \<and> kind_text Stderr cs = stderr out"
    if "res = Inr out \<and> \<not> timed_out out" for out
    by (rule text_of, rule outcome_not_timed_out) (use o' res that in auto)
  ultimately show ?thesis by blast
qed

section \<open>Giving the worker back\<close>

lemma dispatch_stream_steps:
  assumes "dispatch_stream kb argv t k env input p = (r, p')"
  shows "(pool_step kb)\<^sup>*\<^sup>* (p, h, d) (p', h, d)" and "r = Inr x \<Longrightarrow> \<not> x_clean x \<and> \<not> x_finished x"
proof -
  let ?go = "andThen (if is_started p then ret None else start kb)
    (\<lambda>_. ret (stream_new argv (timeout_of (cfg p) t) k (stream_env env) input False))"
  consider "is_closed p" "p' = p" "\<exists>e. r = Inl e" | "?go p = (r, p')"
    using assms by (cases "is_closed p") (auto simp: dispatch_stream_def reads_andThen throw_def)
  then have "(pool_step kb)\<^sup>*\<^sup>* (p, h, d) (p', h, d) \<and> (r = Inr x \<longrightarrow> \<not> x_clean x \<and> \<not> x_finished x)"
  proof cases
    case 2
    then show ?thesis
    proof (cases rule: andThen_cases)
      case (raised e)
      then show ?thesis by (auto simp: ret_def split: if_splits intro: start_steps)
    next
      case (cont y q)
      then show ?thesis by (auto simp: ret_def stream_new_def split: if_splits intro: start_steps)
    qed
  qed auto
  then show "(pool_step kb)\<^sup>*\<^sup>* (p, h, d) (p', h, d)" "r = Inr x \<Longrightarrow> \<not> x_clean x \<and> \<not> x_finished x" by blast+
qed

lemma streamed_steps:
  "\<exists>d'. (pool_step kb)\<^sup>*\<^sup>* (p, h, d) (snd (streamed_run kb n argv t k env input p), h, d')"
proof -
  let ?ow = "pool_owner kb"
  obtain r q where r: "dispatch_stream kb argv t k env input p = (r, q)" by fastforce
  note first = dispatch_stream_steps(1) [OF r, of h d]
  show ?thesis
  proof (cases r)
    case (Inl e)
    with r first show ?thesis by (auto simp: streamed_run_def)
  next
    case (Inr x)
    from dispatch_stream_steps(2) [OF r Inr] have fresh: "\<not> x_clean x" "\<not> x_finished x" by simp_all
    have fin: "snd (streamed_run kb n argv t k env input p) = fst (snd (stream_block kb ?ow n (q, x)))"
      using r Inr by (simp add: streamed_run_def split: prod.splits)
    obtain l u where l: "lease kb q = (l, u)" by fastforce
    show ?thesis
    proof (cases l)
      case (Inl e)
      with l have "stream_enter kb ?ow (q, x) = (Inl e, (u, x\<lparr>x_t0 := k_now kb (cluster q)\<rparr>))"
        by (simp add: stream_enter_def andThen_Inr [of "on_owner ?ow (clock kb)", OF pool_stream.owner_clock]
            on_stream_andThen on_state_andThen) (simp add: pool_owner_def)
      then have "fst (snd (stream_block kb ?ow n (q, x))) = u" by (simp add: stream_block_def)
      with first step_no_worker [of kb q e u h d] l Inl fin show ?thesis by (metis rtranclp.rtrancl_into_rtrancl)
    next
      case (Inr w)
      with l have "ow_acquire ?ow q = (Inr w, u)" by (simp add: pool_owner_def)
      then obtain c b x' where given: "snd (stream_block kb ?ow n (q, x)) = (snd (ow_finish ?ow w b (with_cluster ?ow c u)), x')"
        by (rule pool_stream.block_gives_back [OF _ fresh])
      obtain y v where rel: "release kb w b None (u\<lparr>cluster := c\<rparr>) = (y, v)" by fastforce
      with given fin have "snd (streamed_run kb n argv t k env input p) = v"
        by (simp add: pool_owner_def with_cluster_def)
      moreover have "pool_step kb (q, h, d) (u, w # h, insert (w_name w) d)" using step_lease l Inr by blast
      moreover have "pool_step kb (u, w # h, insert (w_name w) d) (u\<lparr>cluster := c\<rparr>, w # h, insert (w_name w) d)"
        by (rule step_environment)
      moreover have "pool_step kb (u\<lparr>cluster := c\<rparr>, w # h, insert (w_name w) d) (v, h, insert (w_name w) d)"
        using step_release [OF _ _ rel, of "w # h" "insert (w_name w) d"] by simp
      ultimately show ?thesis using first by (meson rtranclp.rtrancl_into_rtrancl)
    qed
  qed
qed


section \<open>Leaving early\<close>

lemma break_result:
  assumes "ow_acquire (pool_owner kb) p = (Inr w, p1)" "staged kb (cfg p1) w input t (cluster p1) = (Inr (), c1)"
    and "with_env argv (Some env) = Inr argv'" "k_exec kb (w_name w) (Argv argv') c1 = (cv, c)" "exec_stream cv t = (cs, ending)"
    and "0 < n" "n \<le> length cs"
  shows "\<exists>x'. stream_block kb (pool_owner kb) n (p, stream_new argv t k env input False) =
    ((take n cs, None), (snd (release kb w True None (p1\<lparr>cluster := c\<rparr>)), x')) \<and> x_result x' = None"
proof -
  let ?ow = "pool_owner kb" and ?x0 = "stream_new argv t k env input False"
  let ?x1 = "?x0\<lparr>x_t0 := k_now kb (cluster p), x_worker := Some w\<rparr>"
  have put: "with_cluster ?ow d q = q\<lparr>cluster := d\<rparr>" "ow_pool ?ow q = q" for d q
    by (simp_all add: with_cluster_def pool_owner_def)
  have x0: "\<not> x_clean ?x0" "\<not> x_finished ?x0" "x_input ?x0 = input" "x_timeout ?x0 = t" "x_argv ?x0 = argv" "x_env ?x0 = env"
    "x_result ?x0 = None" "\<not> x_iterated ?x0"
    by (simp_all add: stream_new_def)
  from pool_stream.enter_with_worker [OF assms(1) x0(1,2), where r = "Inr ()" and c = c1] x0(3,4) assms(2)
  have enter: "stream_enter kb ?ow (p, ?x0) = (Inr (), (p1\<lparr>cluster := c1\<rparr>, ?x1))" by (simp add: put)
  obtain m where m: "n = Suc m" using assms(6) by (cases n) auto
  have "consume kb ?ow n IterNew (p1\<lparr>cluster := c1\<rparr>, ?x1) =
      consume kb ?ow n (IterRun cs ending) (with_cluster ?ow c (p1\<lparr>cluster := c1\<rparr>), ?x1\<lparr>x_iterated := True\<rparr>)"
    unfolding m by (rule pool_stream.consume_new) (use x0 assms(3,4,5) in \<open>simp_all add: put\<close>)
  with pool_stream.consume_some [OF assms(7)]
  have con: "consume kb ?ow n IterNew (p1\<lparr>cluster := c1\<rparr>, ?x1) =
      ((take n cs, None, IterRun (drop n cs) ending), (p1\<lparr>cluster := c\<rparr>, ?x1\<lparr>x_iterated := True\<rparr>))"
    by (simp add: put)
  let ?x3 = "?x1\<lparr>x_iterated := True, x_retire := True\<rparr>"
  from pool_stream.exit_after [of ?x3 w kb False "p1\<lparr>cluster := c\<rparr>"] x0 have
    "stream_exit ?ow False (p1\<lparr>cluster := c\<rparr>, ?x3) =
      (Inr (), (snd (release kb w True None (p1\<lparr>cluster := c\<rparr>)), ?x3\<lparr>x_finished := True, x_worker := None\<rparr>))"
    by (simp add: pool_owner_def)
  with enter con x0 show ?thesis by (simp add: stream_block_def)
qed

text \<open>
  Leaving the loop early retires the worker: a consumer that stops after some chunks, and lets go of the
  iterator, gets exactly those chunks and no result, and the worker, whose process may still run, goes to a
  replacement thread.
\<close>

lemma early_break_retires:
  assumes "is_started p" "\<not> is_closed p" "free_q p = w # ws"
    and "staged kb (cfg p) w input (timeout_of (cfg p) t) (cluster p) = (Inr (), c1)"
    and "with_env argv (Some (stream_env env)) = Inr argv'" "k_exec kb (w_name w) (Argv argv') c1 = (cv, c)"
    and "exec_stream cv (timeout_of (cfg p) t) = (cs, ending)" "0 < n" "n \<le> length cs"
  shows "streamed_run kb n argv t k env input p = ((take n cs, None, None),
    p\<lparr>free_q := ws, cluster := c, tasks := tasks p @ [ReplaceTask (w\<lparr>w_uses := w_uses w + 1\<rparr>)]\<rparr>)"
proof -
  have acq: "ow_acquire (pool_owner kb) p = (Inr w, p\<lparr>free_q := ws\<rparr>)" using lease_head [OF assms(3)] by (simp add: pool_owner_def)
  have rel: "snd (release kb w True None q) = q\<lparr>tasks := tasks q @ [ReplaceTask (w\<lparr>w_uses := w_uses w + 1\<rparr>)]\<rparr>" for q
    by (simp add: release_def clock_def andThen_def reads_def start_task_def updates_def)
  have "staged kb (cfg (p\<lparr>free_q := ws\<rparr>)) w input (timeout_of (cfg p) t) (cluster (p\<lparr>free_q := ws\<rparr>)) = (Inr (), c1)"
    using assms(4) by simp
  from break_result [OF acq this assms(5-9), of k] rel show ?thesis
    by (auto simp: streamed_run_def dispatch_stream_warm [OF assms(1,2)])
qed

text \<open>
  Keeping the iterator defeats that: when the \<^verbatim>\<open>with\<close> block ends while the iterator that has yielded a chunk
  is still referenced, so that it is not closed first, the worker is released as healthy, to the cleaner or straight to
  the queue, with its process possibly running.
\<close>

lemma kept_iterator_not_retired:
  assumes "x_worker x = Some w" "\<not> x_finished x" "\<not> x_retire x"
    and "stream_next kb (pool_owner kb) IterNew (p, x) = ((Inr (Some ch), it), (p', x'))"
  defines "w' \<equiv> w\<lparr>w_uses := w_uses w + 1\<rparr>"
  assumes "\<not> spent (k_now kb (cluster p')) w' (max_uses (cfg p)) (max_age_s (cfg p))"
  shows "fst (snd (stream_exit (pool_owner kb) False (p', x'))) =
    (if fresh_workdir_per_run (cfg p) then p'\<lparr>tasks := tasks p @ [CleanTask w']\<rparr> else p'\<lparr>free_q := free_q p @ [w']\<rparr>)"
proof -
  have adv: "st = st' \<and> (\<exists>cs' e. it = IterRun cs' e)" if "iter_advance kb (pool_owner kb) cs ending st = ((Inr (Some ch), it), st')"
    for cs ending and st st' :: "'a pool \<times> stream_run"
    using that by (auto simp: iter_advance_def split: list.splits prod.splits sum.splits)
  from assms(1,4) obtain c where "p' = p\<lparr>cluster := c\<rparr>" "x' = x\<lparr>x_iterated := True\<rparr>"
    by (auto simp: Let_def pool_owner_def split: if_splits sum.splits prod.splits dest!: adv [unfolded pool_owner_def])
  with pool_stream.exit_after [of x' w kb False p'] assms show ?thesis
    by (simp add: pool_owner_def release_def clock_def andThen_def reads_def start_task_def put_free_def updates_def Let_def)
qed

section \<open>On the toy cluster\<close>

lemma toy_client: "client_kube toy_kube"
  by (auto simp: client_kube_def client_exceptions_def toy_kube_def answer_def)

definition hello :: "json run_result" where
  "hello = \<lparr>stdout = ''hello'', stderr = [], exit_code = Some 0, timed_out = False, duration_s = 0,
     sandbox_id = ''box-1'', files = [], files_truncated = []\<rparr>"

lemma toy_env: "with_env [''id''] (Some (stream_env None)) = Inr [''env'', ''PYTHONUNBUFFERED=1'', ''id'']"
  by code_simp

theorem stream_same_as_run_witness:
  "\<exists>cs. streamed_run toy_kube (Suc (length cs)) [''id''] None CollectNone None [] toy_warm =
      ((cs, None, Some (hello\<lparr>stdout := [], stderr := []\<rparr>)),
       snd (dispatch toy_kube [''id''] None CollectNone (Some (stream_env None)) [] toy_warm)) \<and>
    kind_text Stdout cs = ''hello'' \<and> kind_text Stderr cs = ''''"
proof -
  have "fst (dispatch toy_kube [''id''] None CollectNone (Some (stream_env None)) [] toy_warm) = Inr hello"
    by code_simp
  then obtain p' where d: "dispatch toy_kube [''id''] None CollectNone (Some (stream_env None)) [] toy_warm = (Inr hello, p')"
    by (metis prod.collapse)
  have "is_started toy_warm" "\<not> is_closed toy_warm" "free_q toy_warm \<noteq> []" by (simp_all add: toy_warm_def toy_pool_def)
  from stream_same_as_run [OF toy_client this toy_env d] obtain cs where
    "\<forall>n > length cs. streamed_run toy_kube n [''id''] None CollectNone None [] toy_warm = ((cs, raised_by (Inr hello), streamed (Inr hello)), p')"
    "kind_text Stdout cs = stdout hello \<and> kind_text Stderr cs = stderr hello"
    by (auto simp: hello_def)
  then show ?thesis using d by (intro exI [of _ cs]) (simp add: raised_by_def streamed_def hello_def)
qed

lemma session_stream_same_as_call_example:
  "\<exists>cs. session_streamed_run toy_kube (Suc (length cs)) [''id''] None CollectNone None [] toy_session =
      ((cs, None, Some (hello\<lparr>stdout := [], stderr := []\<rparr>)),
       snd (session_call toy_kube [''id''] None CollectNone (Some (stream_env None)) [] toy_session)) \<and>
    kind_text Stdout cs = ''hello''"
proof -
  have "fst (session_call toy_kube [''id''] None CollectNone (Some (stream_env None)) [] toy_session) = Inr hello"
    by code_simp
  then obtain s' where d: "session_call toy_kube [''id''] None CollectNone (Some (stream_env None)) [] toy_session = (Inr hello, s')"
    by (metis prod.collapse)
  from session_stream_same_as_call [OF toy_client toy_session_simps toy_env d] obtain cs where
    "\<forall>n > length cs. session_streamed_run toy_kube n [''id''] None CollectNone None [] toy_session =
      ((cs, raised_by (Inr hello), streamed (Inr hello)), s')"
    "kind_text Stdout cs = stdout hello \<and> kind_text Stderr cs = stderr hello"
    by (auto simp: hello_def)
  then show ?thesis using d by (intro exI [of _ cs]) (simp add: raised_by_def streamed_def hello_def)
qed

lemma early_break_retires_example:
  "tasks (snd (streamed_run toy_kube 1 [''id''] None CollectNone None [] toy_warm)) = [ReplaceTask ((toy_worker ''box-1'')\<lparr>w_uses := 1\<rparr>)]"
proof -
  have st: "is_started toy_warm" "\<not> is_closed toy_warm" "free_q toy_warm = toy_worker ''box-1'' # [toy_worker ''box-2'']"
    by (simp_all add: toy_warm_def toy_pool_def)
  have pre: "staged toy_kube (cfg toy_warm) (toy_worker ''box-1'') [] (timeout_of (cfg toy_warm) None) (cluster toy_warm) =
      (Inr (), cluster toy_warm)" by (simp add: staged_def ret_def)
  have ex: "k_exec toy_kube (w_name (toy_worker ''box-1'')) (Argv [''env'', ''PYTHONUNBUFFERED=1'', ''id'']) (cluster toy_warm) =
      (answer ''hello'', cluster toy_warm)" by (simp add: toy_kube_def)
  have cs: "exec_stream (answer ''hello'') (timeout_of (cfg toy_warm) None) = ([\<lparr>stream = Stdout, chunk_data = ''hello''\<rparr>], Inr 0)"
    by code_simp
  from early_break_retires [OF st pre toy_env ex cs, of 1 CollectNone] show ?thesis
    by (simp add: toy_warm_def toy_pool_def toy_worker_def)
qed

lemma kept_iterator_not_retired_example:
  "fst (snd (stream_exit (pool_owner toy_kube) False
      (snd (stream_next toy_kube (pool_owner toy_kube) IterNew (toy_warm\<lparr>free_q := [toy_worker ''box-2'']\<rparr>,
         (stream_new [''id''] 30 CollectNone [] [] False)\<lparr>x_worker := Some (toy_worker ''box-1'')\<rparr>))))) =
    toy_warm\<lparr>free_q := [toy_worker ''box-2''], tasks := [CleanTask ((toy_worker ''box-1'')\<lparr>w_uses := 1\<rparr>)]\<rparr>"
proof -
  let ?p = "toy_warm\<lparr>free_q := [toy_worker ''box-2'']\<rparr>"
  let ?x = "(stream_new [''id''] 30 CollectNone [] [] False)\<lparr>x_worker := Some (toy_worker ''box-1'')\<rparr>"
  have n: "stream_next toy_kube (pool_owner toy_kube) IterNew (?p, ?x) =
      ((Inr (Some \<lparr>stream = Stdout, chunk_data = ''hello''\<rparr>), IterRun [] (Inr 0)), (?p, ?x\<lparr>x_iterated := True\<rparr>))"
    by code_simp
  from kept_iterator_not_retired [OF _ _ _ n, of "toy_worker ''box-1''"] n show ?thesis
    by (simp add: stream_new_def spent_def toy_worker_def toy_warm_def toy_pool_def toy_kube_def toy_start_def)
qed

end
