(* ===== verification/JobServer.thy ===== *)
theory JobServer
  imports PoolRuns
begin

text \<open>
  The HTTP service of \<^verbatim>\<open>examples/stress_server.py\<close>, a client of the pool: the lookup of a package by name, the
  job runner on top of \<^verbatim>\<open>run_project\<close>, the GET and POST handlers with their in-flight counters, and any number
  of handlers at once. The transport (\<^verbatim>\<open>_send\<close>) and the runner behind a handler are parameters, as they are in
  \<^verbatim>\<open>make_server\<close>; the model's strings end at code point 255, so a document with characters beyond is not
  accepted, and bytes that decode to such characters count as undecodable.
\<close>

section \<open>Text and bytes\<close>

text \<open>\<^verbatim>\<open>s.encode()\<close>: UTF-8.\<close>

definition encode_char :: "char \<Rightarrow> byte list" where
  "encode_char c =
     (let n = of_char c :: nat
      in if n < 128 then [of_nat n] else [of_nat (192 + n div 64), of_nat (128 + n mod 64)])"

definition py_encode :: "string \<Rightarrow> byte list" where
  "py_encode s = concat (map encode_char s)"

text \<open>\<^verbatim>\<open>b.decode()\<close>; its \<^verbatim>\<open>UnicodeDecodeError\<close> is a \<^verbatim>\<open>ValueError\<close>.\<close>

fun py_decode :: "byte list \<Rightarrow> exn + string" where
  "py_decode [] = Inr []"
| "py_decode (b # bs) =
     (if unat b < 128 then (case py_decode bs of Inl e \<Rightarrow> Inl e | Inr s \<Rightarrow> Inr (char_of (unat b) # s))
      else (case bs of
          [] \<Rightarrow> Inl (ValueErr ''utf-8'')
        | c # cs \<Rightarrow>
            if unat b \<in> {194, 195} \<and> unat c div 64 = 2 then
              (case py_decode cs of Inl e \<Rightarrow> Inl e | Inr s \<Rightarrow> Inr (char_of ((unat b - 192) * 64 + unat c mod 64) # s))
            else Inl (ValueErr ''utf-8'')))"

lemma unat_of_nat_byte: "n < 256 \<Longrightarrow> unat (of_nat n :: byte) = n"
  by (simp add: unat_of_nat take_bit_eq_mod)

lemma decode_encode_char: "py_decode (encode_char c @ bs) = (case py_decode bs of Inl e \<Rightarrow> Inl e | Inr s \<Rightarrow> Inr (c # s))"
proof -
  define n where "n = (of_char c :: nat)"
  have n: "n < 256" "char_of n = c" by (simp_all add: n_def)
  show ?thesis
  proof (cases "n < 128")
    case True
    then have one: "encode_char c = [of_nat n]" and b: "unat (of_nat n :: byte) = n"
      by (simp_all add: encode_char_def n_def [symmetric] unat_of_nat_byte)
    show ?thesis unfolding one append_Cons append_Nil py_decode.simps b using True n(2) by (simp split: sum.split)
  next
    case False
    have b: "unat (of_nat (192 + n div 64) :: byte) = 192 + n div 64" by (rule unat_of_nat_byte) (use n in linarith)
    have "n mod 64 < 64" by simp
    then have c: "unat (of_nat (128 + n mod 64) :: byte) = 128 + n mod 64" by (intro unat_of_nat_byte) linarith
    have lead: "n div 64 = 2 \<or> n div 64 = 3" using False n by linarith
    have "128 + n mod 64 = n mod 64 + 2 * 64" by simp
    then have cont: "(128 + n mod 64) div 64 = 2" "(128 + n mod 64) mod 64 = n mod 64"
      by (simp, metis mod_mult_self1 mod_mod_trivial)
    have whole: "(192 + n div 64 - 192) * 64 + (128 + n mod 64) mod 64 = n" by (simp add: cont div_mult_mod_eq)
    have two: "encode_char c = [of_nat (192 + n div 64), of_nat (128 + n mod 64)]"
      using False by (simp add: encode_char_def n_def [symmetric])
    have mem: "unat (of_nat (192 + n div 64) :: byte) \<in> {194, 195}" unfolding b using lead by auto
    have big: "\<not> unat (of_nat (192 + n div 64) :: byte) < 128" unfolding b by simp
    show ?thesis
      using mem big unfolding two append_Cons append_Nil py_decode.simps list.case c cont(1)
      by (simp only: if_False simp_thms if_True b whole n(2))
  qed
qed

interpretation utf8: codec py_encode "\<lambda>b. case py_decode b of Inl e \<Rightarrow> None | Inr s \<Rightarrow> Some s" "\<lambda>s. True"
proof unfold_locales
  fix s
  have "py_decode (py_encode s) = Inr s"
    by (induction s) (simp_all add: py_encode_def decode_encode_char)
  then show "(case py_decode (py_encode s) of Inl e \<Rightarrow> None | Inr s \<Rightarrow> Some s) = Some s" by simp
qed

lemma decode_encode [simp]: "py_decode (py_encode s) = Inr s"
  using utf8.round_trip [of s] by (simp split: sum.splits)

section \<open>Finding the package and building the job\<close>

definition basename :: "string \<Rightarrow> string" where
  "basename p = last (split_on (CHR ''/'') p)"

text \<open>\<open>reg n\<close> is what the registry directory has under the name \<open>n\<close>.\<close>

definition package_dir :: "(string \<Rightarrow> host option) \<Rightarrow> string \<Rightarrow> exn + host" where
  "package_dir reg nm =
     (if nm \<noteq> basename nm \<or> nm \<in> {[], ''.'', ''..''} then Inl (ValueErr ''invalid package name'')
      else (case reg nm of
          None \<Rightarrow> Inl (ValueErr ''unknown package'')
        | Some d \<Rightarrow> if is_host_dir d then Inr d else Inl (ValueErr ''unknown package'')))"

text \<open>\<^verbatim>\<open>bytes(v)\<close> of a list and of any value, or \<^verbatim>\<open>v.encode()\<close>.\<close>

fun byte_elems :: "json list \<Rightarrow> exn + byte list" where
  "byte_elems [] = Inr []"
| "byte_elems (x # xs) =
     (case (case x of JInt i \<Rightarrow> Inr i | JBool b \<Rightarrow> Inr (of_bool b) | _ \<Rightarrow> Inl TypeErr) of
        Inl e \<Rightarrow> Inl e
      | Inr i \<Rightarrow>
          if i < 0 \<or> 255 < i then Inl (ValueErr ''bytes must be in range(0, 256)'')
          else (case byte_elems xs of Inl e \<Rightarrow> Inl e | Inr bs \<Rightarrow> Inr (of_int i # bs)))"

fun file_bytes :: "json \<Rightarrow> exn + byte list" where
  "file_bytes (JStr s) = Inr (py_encode s)"
| "file_bytes (JInt n) =
     (if n < - (2 ^ 63) \<or> 2 ^ 63 \<le> n then Inl OverflowErr
      else if n < 0 then Inl (ValueErr ''negative count'') else Inr (replicate (nat n) 0))"
| "file_bytes (JBool b) = Inr (replicate (of_bool b) 0)"
| "file_bytes (JArr xs) = byte_elems xs"
| "file_bytes (JObj ps) = (if ps = [] then Inr [] else Inl TypeErr)"
| "file_bytes _ = Inl TypeErr"

fun file_items :: "(string \<times> json) list \<Rightarrow> exn + (string, byte list) dict" where
  "file_items [] = Inr []"
| "file_items ((rel, v) # fs) =
     (case file_bytes v of
        Inl e \<Rightarrow> Inl e
      | Inr b \<Rightarrow> (case file_items fs of Inl e \<Rightarrow> Inl e | Inr d \<Rightarrow> Inr ((rel, b) # d)))"

text \<open>\<^verbatim>\<open>bool(v)\<close>.\<close>

fun truthy :: "json \<Rightarrow> bool" where
  "truthy JNull = False"
| "truthy (JBool b) = b"
| "truthy (JInt n) = (n \<noteq> 0)"
| "truthy (JFloat neg x) = (x \<noteq> Fin 0)"
| "truthy JNaN = True"
| "truthy (JStr s) = (s \<noteq> [])"
| "truthy (JArr xs) = (xs \<noteq> [])"
| "truthy (JObj ps) = (ps \<noteq> [])"

definition job_files :: "json \<Rightarrow> exn + (string, byte list) dict" where
  "job_files fs = (if \<not> truthy fs then Inr [] else (case fs of JObj ps \<Rightarrow> file_items ps | _ \<Rightarrow> Inl AttributeErr))"

definition job_reply :: "json run_result \<Rightarrow> string \<Rightarrow> json" where
  "job_reply r artifact = JObj
     [(''ok'', JBool (ok r)),
      (''exit_code'', case exit_code r of None \<Rightarrow> JNull | Some i \<Rightarrow> JInt i),
      (''timed_out'', JBool (timed_out r)),
      (''duration_s'', JFloat (duration_s r < 0) (to_float \<bar>duration_s r\<bar>)),
      (''sandbox_id'', JStr (sandbox_id r)),
      (''stdout'', JStr (py_strip (stdout r))),
      (''artifact'', JStr artifact)]"

definition job_run :: "'c kube \<Rightarrow> (string \<Rightarrow> host option) \<Rightarrow> string \<Rightarrow> json \<Rightarrow> env_vars \<Rightarrow> rat option \<Rightarrow> ('c pool, json) py" where
  "job_run kb reg package fs env t =
     (case package_dir reg package of
        Inl e \<Rightarrow> throw e
      | Inr d \<Rightarrow> (case job_files fs of
          Inl e \<Rightarrow> throw e
        | Inr extra \<Rightarrow>
            andThen (run_project kb (Some d) [''python'', ''.''] t (CollectPaths [''out.json'']) (Some env)
              default_project_excludes False extra) (\<lambda>r.
            case py_decode (dict_get (files r) ''out.json'' []) of
              Inl e \<Rightarrow> throw e
            | Inr a \<Rightarrow> ret (job_reply r a))))"

section \<open>The handlers\<close>

text \<open>
  A server: the runner and the transport it was made with, the text of an exception, the answer to \<^verbatim>\<open>/stats\<close>, and the
  state behind them with the two counters. An \<open>OtherErr ''KeyError''\<close> is a \<^verbatim>\<open>KeyError\<close>.
\<close>

record 's web =
  w_run :: "json \<Rightarrow> json \<Rightarrow> json \<Rightarrow> json \<Rightarrow> ('s, json) py"  \<comment> \<open>package, files, env, timeout\<close>
  w_send :: "nat \<Rightarrow> json \<Rightarrow> ('s, unit) py"
  w_text :: "exn \<Rightarrow> string"
  w_stats :: "'s \<Rightarrow> json"

record 's server =
  behind :: 's
  sv_seq :: int
  sv_active :: int

definition make_server :: "'s \<Rightarrow> 's server" where
  "make_server s = \<lparr>behind = s, sv_seq = 0, sv_active = 0\<rparr>"

definition on_behind :: "('s, 'a) py \<Rightarrow> ('s server, 'a) py" where
  "on_behind m s = (case m (behind s) of (r, b) \<Rightarrow> (r, s\<lparr>behind := b\<rparr>))"

record request =
  rq_path :: string
  rq_length :: "string option"  \<comment> \<open>the header \<^verbatim>\<open>Content-Length\<close>\<close>
  rq_body :: string             \<comment> \<open>what the connection delivers\<close>

definition key_error :: exn where
  "key_error = OtherErr ''KeyError''"

definition error_json :: "string \<Rightarrow> json" where
  "error_json m = JObj [(''error'', JStr m)]"

definition stats_json :: "pool_stats \<Rightarrow> json" where
  "stats_json x = JObj [(''pool_size'', JInt (st_pool_size x)), (''requested'', JInt (st_requested x)),
     (''placed'', JInt (st_placed x)), (''shortfall'', JInt (st_shortfall x)), (''free'', JInt (int (st_free x))),
     (''spawned_total'', JInt (int (st_spawned x))), (''retired_total'', JInt (int (st_retired x))),
     (''started'', JBool (st_started x)), (''closed'', JBool (st_closed x))]"

definition do_GET :: "'s web \<Rightarrow> string \<Rightarrow> ('s server, unit) py" where
  "do_GET w path =
     (if path = ''/healthz'' then on_behind (w_send w 200 (JObj [(''status'', JStr ''ok'')]))
      else if path = ''/stats'' then andThen (reads (\<lambda>s. w_stats w (behind s))) (\<lambda>x. on_behind (w_send w 200 x))
      else on_behind (w_send w 404 (error_json ''not found'')))"

text \<open>The body of the request, read as far as the header says.\<close>

definition parse_request :: "request \<Rightarrow> exn + (string, json) dict \<times> json" where
  "parse_request rq =
     (case (case rq_length rq of None \<Rightarrow> Some 0 | Some h \<Rightarrow> py_int h) of
        None \<Rightarrow> Inl (ValueErr ''invalid literal for int()'')
      | Some n \<Rightarrow>
          let raw = (if n < 0 then rq_body rq else take (nat n) (rq_body rq))
          in (case json_loads (if raw = [] then ''{}'' else raw) of
               None \<Rightarrow> Inl (ValueErr ''JSONDecodeError'')
             | Some (JObj ob) \<Rightarrow> (case map_of ob ''package'' of None \<Rightarrow> Inl key_error | Some pkg \<Rightarrow> Inr (ob, pkg))
             | Some _ \<Rightarrow> Inl TypeErr))"

text \<open>The two log lines format the package with a width, and the second looks into the result.\<close>

fun log_arrival :: "json \<Rightarrow> ('s, unit) py" where
  "log_arrival JNull = throw TypeErr"
| "log_arrival (JArr xs) = throw TypeErr"
| "log_arrival (JObj ps) = throw TypeErr"
| "log_arrival _ = ret ()"

fun log_result :: "json \<Rightarrow> ('s, unit) py" where
  "log_result (JObj ob) =
     (if {''ok'', ''sandbox_id'', ''duration_s''} \<subseteq> fst ` set ob then ret () else throw key_error)"
| "log_result _ = throw TypeErr"

definition bad_request :: "exn \<Rightarrow> bool" where
  "bad_request e \<longleftrightarrow> e = key_error \<or> (case e of ValueErr _ \<Rightarrow> True | _ \<Rightarrow> False)"

text \<open>The two handlers of \<^verbatim>\<open>do_POST\<close>; a runner that waits forever is not an exception.\<close>

definition answer_error :: "'s web \<Rightarrow> exn \<Rightarrow> ('s server, unit) py" where
  "answer_error w e =
     (if e = WouldBlock then throw e
      else on_behind (w_send w (if bad_request e then 400 else 500) (error_json (w_text w e))))"

definition bump :: "('s server, unit) py" where
  "bump = updates (\<lambda>s. s\<lparr>sv_seq := sv_seq s + 1, sv_active := sv_active s + 1\<rparr>)"

definition serve_job :: "'s web \<Rightarrow> (string, json) dict \<Rightarrow> json \<Rightarrow> ('s server, unit) py" where
  "serve_job w ob pkg =
     andThen (log_arrival pkg) (\<lambda>_.
     andThen (on_behind (w_run w pkg (dict_get ob ''files'' (JObj [])) (dict_get ob ''env'' (JObj [])) (dict_get ob ''timeout_s'' (JInt 10)))) (\<lambda>r.
     andThen (log_result r) (\<lambda>_.
     on_behind (w_send w 200 r))))"

text \<open>\<^verbatim>\<open>finally\<close>: the handler gives its place back; one that still waits has not come so far.\<close>

definition unbump :: "('s server, unit) py \<Rightarrow> ('s server, unit) py" where
  "unbump m s =
     (case m s of
        (Inl WouldBlock, t) \<Rightarrow> (Inl WouldBlock, t)
      | (r, t) \<Rightarrow> (r, t\<lparr>sv_active := sv_active t - 1\<rparr>))"

definition do_POST :: "'s web \<Rightarrow> request \<Rightarrow> ('s server, unit) py" where
  "do_POST w rq =
     (if rq_path rq \<noteq> ''/run'' then on_behind (w_send w 404 (error_json ''not found''))
      else (case parse_request rq of
          Inl e \<Rightarrow> answer_error w e
        | Inr (ob, pkg) \<Rightarrow> andThen bump (\<lambda>_. unbump (tryExcept (serve_job w ob pkg) (answer_error w)))))"

section \<open>What the package lookup lets through\<close>

lemma basename_component: "p = basename p \<longleftrightarrow> CHR ''/'' \<notin> set p"
proof
  assume "p = basename p"
  moreover have "basename p \<in> set (split_on (CHR ''/'') p)" by (simp add: basename_def)
  ultimately show "CHR ''/'' \<notin> set p" using split_on_parts by metis
qed (simp add: basename_def split_on_id)

text \<open>
  C30: a package name cannot leave the registry: what is found is the directory that the registry has under exactly this
  name, which is one proper path component; any other name is refused with a \<^verbatim>\<open>ValueError\<close>, and then neither
  the pool nor the cluster is touched.
\<close>

theorem package_stays_in_registry:
  "(case package_dir reg nm of
      Inr d \<Rightarrow> reg nm = Some d \<and> is_host_dir d \<and> split_on (CHR ''/'') nm = [nm] \<and> nm \<notin> {[], ''.'', ''..''}
    | Inl e \<Rightarrow> bad_request e \<and> job_run kb reg nm fs env t p = (Inl e, p))"
  by (auto simp: package_dir_def basename_component split_on_id bad_request_def job_run_def throw_def split: option.splits)

lemma file_items_text:
  "file_items (map (\<lambda>(rel, s). (rel, JStr s)) texts) = Inr (map (\<lambda>(rel, s). (rel, py_encode s)) texts)"
  by (induction texts) auto

text \<open>
  A job runs the package with its inputs laid over it: the pool is asked to run \<^verbatim>\<open>python .\<close> on a file map in
  which every input named in the request is its text in UTF-8 and every other file is that of the package, and
  to collect only \<^verbatim>\<open>out.json\<close>.
\<close>

lemma job_run_inputs:
  assumes "package_dir reg nm = Inr d" "dict_ok texts"
    and "read_project_tree (Some d) default_project_excludes (max_upload_bytes (cfg p)) False = Inr tree"
  shows "\<exists>up. (\<forall>rel. map_of up rel = (case map_of texts rel of Some s \<Rightarrow> Some (py_encode s) | None \<Rightarrow> map_of tree rel)) \<and>
    job_run kb reg nm (JObj (map (\<lambda>(rel, s). (rel, JStr s)) texts)) env t p =
      andThen (dispatch kb [''python'', ''.''] t (CollectPaths [''out.json'']) (Some env) up)
        (\<lambda>r. case py_decode (dict_get (files r) ''out.json'' []) of Inl e \<Rightarrow> throw e | Inr a \<Rightarrow> ret (job_reply r a)) p"
proof -
  let ?extra = "map (\<lambda>(rel, s). (rel, py_encode s)) texts"
  have "dict_ok ?extra" using assms(2) by (simp add: dict_ok_def o_def case_prod_beta)
  then have up: "map_of (dict_update tree ?extra) rel =
      (case map_of texts rel of Some s \<Rightarrow> Some (py_encode s) | None \<Rightarrow> map_of tree rel)" for rel
    by (simp add: map_of_dict_update map_add_def map_of_map split: option.split)
  have fs: "job_files (JObj (map (\<lambda>(rel, s). (rel, JStr s)) texts)) = Inr ?extra"
    by (simp add: job_files_def file_items_text)
  have "run_project kb (Some d) [''python'', ''.''] t (CollectPaths [''out.json'']) (Some env) default_project_excludes False ?extra p =
      dispatch kb [''python'', ''.''] t (CollectPaths [''out.json'']) (Some env) (dict_update tree ?extra) p"
    using assms(3) by (simp add: run_project_def reads_andThen project_files_def)
  then have "job_run kb reg nm (JObj (map (\<lambda>(rel, s). (rel, JStr s)) texts)) env t p =
      andThen (dispatch kb [''python'', ''.''] t (CollectPaths [''out.json'']) (Some env) (dict_update tree ?extra))
        (\<lambda>r. case py_decode (dict_get (files r) ''out.json'' []) of Inl e \<Rightarrow> throw e | Inr a \<Rightarrow> ret (job_reply r a)) p"
    unfolding job_run_def assms(1) fs sum.case by (simp add: andThen_def)
  with up show ?thesis by blast
qed

text \<open>
  An artifact that is not UTF-8 makes the runner raise a \<^verbatim>\<open>ValueError\<close> after the job has run, which the handler takes for a
  mistake of the client.
\<close>

lemma undecodable_artifact_blamed:
  assumes "package_dir reg nm = Inr d" "job_files fs = Inr extra" "dict_get (files r) ''out.json'' [] = [255]"
    and "run_project kb (Some d) [''python'', ''.''] t (CollectPaths [''out.json'']) (Some env) default_project_excludes False extra p = (Inr r, p')"
  shows "job_run kb reg nm fs env t p = (Inl (ValueErr ''utf-8''), p') \<and> bad_request (ValueErr ''utf-8'')"
  using assms by (simp add: job_run_def andThen_def throw_def bad_request_def)

section \<open>One request\<close>

text \<open>What a request is answered, as a function of the server before it.\<close>

definition error_answer :: "'s web \<Rightarrow> exn \<Rightarrow> nat \<times> json" where
  "error_answer w e = (if bad_request e then 400 else 500, error_json (w_text w e))"

definition job_outcome :: "'s web \<Rightarrow> (string, json) dict \<Rightarrow> json \<Rightarrow> ('s, json) py" where
  "job_outcome w ob pkg =
     andThen (log_arrival pkg) (\<lambda>_.
     andThen (w_run w pkg (dict_get ob ''files'' (JObj [])) (dict_get ob ''env'' (JObj [])) (dict_get ob ''timeout_s'' (JInt 10))) (\<lambda>r.
     andThen (log_result r) (\<lambda>_. ret r)))"

definition answer_of :: "'s web \<Rightarrow> request \<Rightarrow> 's \<Rightarrow> nat \<times> json" where
  "answer_of w rq b =
     (if rq_path rq \<noteq> ''/run'' then (404, error_json ''not found'')
      else (case parse_request rq of
          Inl e \<Rightarrow> error_answer w e
        | Inr (ob, pkg) \<Rightarrow> (case fst (job_outcome w ob pkg b) of Inl e \<Rightarrow> error_answer w e | Inr r \<Rightarrow> (200, r))))"

lemma on_behind_andThen: "on_behind (andThen m f) = andThen (on_behind m) (\<lambda>x. on_behind (f x))"
  by (auto simp: on_behind_def andThen_def fun_eq_iff split: prod.splits sum.splits)

lemma on_behind_logs: "on_behind (log_arrival pkg) = log_arrival pkg" "on_behind (log_result r) = log_result r"
  by (cases pkg; simp add: on_behind_def ret_def throw_def fun_eq_iff)
    (cases r; simp add: on_behind_def ret_def throw_def fun_eq_iff)

lemma on_behind_ret: "on_behind (ret r) = ret r"
  by (simp add: on_behind_def ret_def fun_eq_iff)

lemma serve_job_outcome: "serve_job w ob pkg = andThen (on_behind (job_outcome w ob pkg)) (\<lambda>r. on_behind (w_send w 200 r))"
  by (simp add: serve_job_def job_outcome_def on_behind_andThen on_behind_logs on_behind_ret andThen_assoc ret_andThen)

lemma keeps_behind: "keeps (\<lambda>s. sv_seq s = n \<and> sv_active s = k) (on_behind m)"
  by (auto simp: keeps_def on_behind_def split: prod.split)

lemma keeps_answer: "keeps (\<lambda>s. sv_seq s = n \<and> sv_active s = k) (answer_error w e)"
  unfolding answer_error_def by (intro py_intros keeps_behind)

lemma post_counters:
  assumes "do_POST w rq s = (r, s')"
  shows "sv_active s' = sv_active s + of_bool (r = Inl WouldBlock \<and> sv_seq s' \<noteq> sv_seq s) \<and>
    sv_seq s' = sv_seq s + of_bool (rq_path rq = ''/run'' \<and> \<not> isl (parse_request rq))"
proof -
  have plain: "sv_seq s' = sv_seq s \<and> sv_active s' = sv_active s"
    if "keeps (\<lambda>t. sv_seq t = sv_seq s \<and> sv_active t = sv_active s) m" "m s = (r, s')" for m :: "('a server, unit) py"
    using keepsD [OF that(1) _ that(2)] by simp
  show ?thesis
  proof (cases "rq_path rq = ''/run'' \<and> \<not> isl (parse_request rq)")
    case False
    have "sv_seq s' = sv_seq s \<and> sv_active s' = sv_active s"
    proof (cases "rq_path rq = ''/run''")
      case True
      with False obtain e where "parse_request rq = Inl e" by (cases "parse_request rq") auto
      with True have "do_POST w rq = answer_error w e" by (simp add: do_POST_def)
      with plain [OF keeps_answer] assms show ?thesis by simp
    next
      case False
      then have "do_POST w rq = on_behind (w_send w 404 (error_json ''not found''))" by (simp add: do_POST_def)
      with plain [OF keeps_behind] assms show ?thesis by simp
    qed
    with False show ?thesis by auto
  next
    case True
    then obtain ob pkg where q: "parse_request rq = Inr (ob, pkg)" by (cases "parse_request rq") auto
    let ?t = "s\<lparr>sv_seq := sv_seq s + 1, sv_active := sv_active s + 1\<rparr>"
    let ?m = "tryExcept (serve_job w ob pkg) (answer_error w)"
    obtain x u where m: "?m ?t = (x, u)" by fastforce
    have "keeps (\<lambda>t. sv_seq t = sv_seq s + 1 \<and> sv_active t = sv_active s + 1) ?m"
      unfolding serve_job_outcome by (intro py_intros keeps_behind keeps_answer)
    from keepsD [OF this _ m] have u: "sv_seq u = sv_seq s + 1 \<and> sv_active u = sv_active s + 1" by simp
    have "do_POST w rq s = unbump ?m ?t"
      using True q by (simp add: do_POST_def bump_def updates_def andThen_def)
    with assms m u True show ?thesis by (auto simp: unbump_def split: sum.splits exn.splits)
  qed
qed

text \<open>
  The handler gives its place back: whatever the request, the runner and the transport do, a POST that has ended, normally
  or with an exception, leaves \<^verbatim>\<open>active\<close> as it was, and only a request that was accepted takes a number; one that
  still waits for a worker holds its place.
\<close>

lemma post_restores_active:
  assumes "do_POST w rq s = (r, s')"
  shows "sv_active s' = sv_active s + of_bool (r = Inl WouldBlock \<and> sv_seq s' \<noteq> sv_seq s) \<and>
    sv_seq s' = sv_seq s + of_bool (rq_path rq = ''/run'' \<and> \<not> isl (parse_request rq))"
  using assms by (rule post_counters)

text \<open>A transport that delivers, seen by what it has sent; the runner sends nothing itself.\<close>

definition delivers :: "'s web \<Rightarrow> ('s \<Rightarrow> (nat \<times> json) list) \<Rightarrow> bool" where
  "delivers w sent \<longleftrightarrow>
     (\<forall>c p b. fst (w_send w c p b) = Inr () \<and> sent (snd (w_send w c p b)) = sent b @ [(c, p)]) \<and>
     (\<forall>pkg fs env t b. sent (snd (w_run w pkg fs env t b)) = sent b)"

lemma delivers_send:
  assumes "delivers w sent"
  obtains b' where "w_send w c p b = (Inr (), b')" "sent b' = sent b @ [(c, p)]"
  using assms unfolding delivers_def by (metis prod.collapse)

lemma log_arrival_keeps: "keeps P (log_arrival pkg)"
  by (cases pkg) (simp_all add: keeps_ret keeps_throw)

lemma log_result_keeps: "keeps P (log_result r)"
  by (cases r) (simp_all add: keeps_ret keeps_throw keeps_if)

lemma outcome_sends_nothing:
  assumes "delivers w sent"
  shows "keeps (\<lambda>b. sent b = x) (job_outcome w ob pkg)"
proof -
  have "keeps (\<lambda>b. sent b = x) (w_run w p fs env t)" for p fs env t
    using assms by (simp add: keeps_def delivers_def)
  then show ?thesis
    unfolding job_outcome_def by (intro keeps_andThen log_arrival_keeps log_result_keeps keeps_ret)
qed

lemma answer_error_sends:
  assumes "delivers w sent" "e \<noteq> WouldBlock"
  shows "\<exists>b'. answer_error w e s = (Inr (), s\<lparr>behind := b'\<rparr>) \<and> sent b' = sent (behind s) @ [error_answer w e]"
proof -
  let ?c = "if bad_request e then 400 else 500"
  obtain b' where "w_send w ?c (error_json (w_text w e)) (behind s) = (Inr (), b')"
    "sent b' = sent (behind s) @ [(?c, error_json (w_text w e))]" by (rule delivers_send [OF assms(1)])
  with assms(2) show ?thesis
    by (intro exI [of _ b']) (simp add: answer_error_def error_answer_def on_behind_def)
qed

text \<open>
  C28: every POST is answered exactly once: with a transport that delivers, a handler that ends does so without
  exception, and has sent one answer: 404 for another path, 400 for a request that cannot be read or that the
  runner refuses with a \<^verbatim>\<open>ValueError\<close> or \<^verbatim>\<open>KeyError\<close>, 500 for any other exception, and otherwise 200 with the result.
\<close>

theorem post_answers_once:
  assumes del: "delivers w sent" and run: "do_POST w rq s = (r, s')" and ends: "r \<noteq> Inl WouldBlock"
  shows "r = Inr () \<and> sent (behind s') = sent (behind s) @ [answer_of w rq (behind s)]"
proof (cases "rq_path rq = ''/run''")
  case False
  obtain b where "w_send w 404 (error_json ''not found'') (behind s) = (Inr (), b)"
    "sent b = sent (behind s) @ [(404, error_json ''not found'')]" by (rule delivers_send [OF del])
  with False run show ?thesis by (auto simp: do_POST_def answer_of_def on_behind_def)
next
  case path: True
  show ?thesis
  proof (cases "parse_request rq")
    case (Inl e)
    with path run have a: "answer_error w e s = (r, s')" by (simp add: do_POST_def)
    with ends have "e \<noteq> WouldBlock" by (auto simp: answer_error_def throw_def)
    from answer_error_sends [OF del this, of s] a path Inl show ?thesis by (auto simp: answer_of_def)
  next
    case (Inr q)
    obtain ob pkg where q: "q = (ob, pkg)" by (cases q)
    let ?t = "s\<lparr>sv_seq := sv_seq s + 1, sv_active := sv_active s + 1\<rparr>"
    obtain x b where out: "job_outcome w ob pkg (behind s) = (x, b)" by fastforce
    have quiet: "sent b = sent (behind s)"
      using keepsD [OF outcome_sends_nothing [OF del] refl out] by simp
    have ans: "answer_of w rq (behind s) = (case x of Inl e \<Rightarrow> error_answer w e | Inr v \<Rightarrow> (200, v))"
      using path Inr q out by (simp add: answer_of_def)
    have post: "unbump (tryExcept (serve_job w ob pkg) (answer_error w)) ?t = (r, s')"
      using path Inr q run by (simp add: do_POST_def bump_def updates_def andThen_def)
    have body: "on_behind (job_outcome w ob pkg) ?t = (x, ?t\<lparr>behind := b\<rparr>)" by (simp add: on_behind_def out)
    show ?thesis
    proof (cases x)
      case err: (Inl e)
      have m: "tryExcept (serve_job w ob pkg) (answer_error w) ?t = answer_error w e (?t\<lparr>behind := b\<rparr>)"
        unfolding serve_job_outcome tryExcept_def andThen_def body err by simp
      have "e \<noteq> WouldBlock"
      proof
        assume "e = WouldBlock"
        with m post ends show False by (auto simp: unbump_def answer_error_def throw_def)
      qed
      from answer_error_sends [OF del this, of "?t\<lparr>behind := b\<rparr>"] obtain b' where
        "answer_error w e (?t\<lparr>behind := b\<rparr>) = (Inr (), ?t\<lparr>behind := b'\<rparr>)" "sent b' = sent b @ [error_answer w e]" by auto
      with m post quiet ans err show ?thesis by (auto simp: unbump_def)
    next
      case (Inr v)
      obtain b' where b': "w_send w 200 v b = (Inr (), b')" "sent b' = sent b @ [(200, v)]" by (rule delivers_send [OF del])
      then have "tryExcept (serve_job w ob pkg) (answer_error w) ?t = (Inr (), ?t\<lparr>behind := b'\<rparr>)"
        unfolding serve_job_outcome tryExcept_def andThen_def body Inr by (simp add: on_behind_def)
      with post quiet ans Inr b'(2) show ?thesis by (auto simp: unbump_def)
    qed
  qed
qed

section \<open>Many requests at once\<close>

text \<open>The server gives each connection a thread of its own; the counters change under \<^verbatim>\<open>server.lock\<close>, a piece each.\<close>

datatype job_point =
    Received request
  | Serving "(string, json) dict" json int  \<comment> \<open>accepted, with its number\<close>
  | Gone

inductive web_step :: "'s web \<Rightarrow> 's server \<times> job_point list \<Rightarrow> 's server \<times> job_point list \<Rightarrow> bool" for w where
  web_arrive: "web_step w (s, js) (s, js @ [Received rq])"
| web_refuse: "i < length js \<Longrightarrow> js ! i = Received rq \<Longrightarrow> rq_path rq \<noteq> ''/run'' \<or> isl (parse_request rq) \<Longrightarrow>
    do_POST w rq s = (r, s') \<Longrightarrow> web_step w (s, js) (s', js[i := Gone])"
| web_accept: "i < length js \<Longrightarrow> js ! i = Received rq \<Longrightarrow> rq_path rq = ''/run'' \<Longrightarrow> parse_request rq = Inr (ob, pkg) \<Longrightarrow>
    bump s = (Inr (), s') \<Longrightarrow> web_step w (s, js) (s', js[i := Serving ob pkg (sv_seq s')])"
| web_serve: "i < length js \<Longrightarrow> js ! i = Serving ob pkg n \<Longrightarrow>
    unbump (tryExcept (serve_job w ob pkg) (answer_error w)) s = (r, s') \<Longrightarrow> r \<noteq> Inl WouldBlock \<Longrightarrow>
    web_step w (s, js) (s', js[i := Gone])"
| web_behind: "web_step w (s, js) (s\<lparr>behind := b\<rparr>, js)"

fun number_of :: "job_point \<Rightarrow> int list" where
  "number_of (Serving ob pkg n) = [n]"
| "number_of c = []"

definition numbers :: "job_point list \<Rightarrow> int list" where
  "numbers js = concat (map number_of js)"

definition web_inv :: "'s server \<times> job_point list \<Rightarrow> bool" where
  "web_inv = (\<lambda>(s, js). sv_active s = int (length (numbers js)) \<and> distinct (numbers js) \<and>
     (\<forall>n \<in> set (numbers js). n \<le> sv_seq s))"

lemma numbers_update:
  assumes "i < length js"
  shows "mset (numbers (js[i := c])) + mset (number_of (js ! i)) = mset (numbers js) + mset (number_of c)"
proof -
  have app: "mset (numbers (xs @ y # ys)) = mset (numbers xs) + mset (number_of y) + mset (numbers ys)" for xs y ys
    by (simp add: numbers_def)
  have "js = take i js @ js ! i # drop (Suc i) js" using assms by (rule id_take_nth_drop)
  then have "mset (numbers js) = mset (numbers (take i js)) + mset (number_of (js ! i)) + mset (numbers (drop (Suc i) js))"
    using app [of "take i js" "js ! i" "drop (Suc i) js"] by (simp del: append_take_drop_id)
  moreover have "mset (numbers (js[i := c])) = mset (numbers (take i js)) + mset (number_of c) + mset (numbers (drop (Suc i) js))"
    using assms by (simp only: upd_conv_take_nth_drop app)
  ultimately show ?thesis by (simp add: ac_simps)
qed

lemma web_inv_mset:
  assumes "web_inv (s, js)" "mset (numbers js') = mset (numbers js)" "sv_active s' = sv_active s" "sv_seq s' = sv_seq s"
  shows "web_inv (s', js')"
  using assms mset_eq_setD [OF assms(2)] mset_eq_length [OF assms(2)] mset_eq_imp_distinct_iff [OF assms(2)]
  by (simp add: web_inv_def)

lemma web_inv_step:
  assumes "web_inv s" "web_step w s t"
  shows "web_inv t"
  using assms(2)
proof cases
  case (web_arrive s js rq)
  with assms(1) show ?thesis by (simp add: web_inv_def numbers_def)
next
  case (web_refuse i js rq s r s')
  from numbers_update [OF web_refuse(3), of Gone] web_refuse(4) have "mset (numbers (js[i := Gone])) = mset (numbers js)" by simp
  moreover have "sv_active s' = sv_active s \<and> sv_seq s' = sv_seq s"
    using post_counters [OF web_refuse(6)] web_refuse(5) by auto
  ultimately show ?thesis using assms(1) web_refuse(1,2) by (auto intro: web_inv_mset)
next
  case (web_accept i js rq ob pkg s s')
  from web_accept(7) have s': "s' = s\<lparr>sv_seq := sv_seq s + 1, sv_active := sv_active s + 1\<rparr>"
    by (simp add: bump_def updates_def)
  have "mset (numbers (js[i := Serving ob pkg (sv_seq s')])) = mset ((sv_seq s + 1) # numbers js)"
    using numbers_update [OF web_accept(3), of "Serving ob pkg (sv_seq s')"] web_accept(4) s' by simp
  note new = mset_eq_setD [OF this] mset_eq_length [OF this] mset_eq_imp_distinct_iff [OF this]
  have "sv_seq s + 1 \<notin> set (numbers js)" using assms(1) web_accept(1) by (auto simp: web_inv_def)
  with assms(1) web_accept(1,2) new s' show ?thesis by (auto simp: web_inv_def)
next
  case (web_serve i js ob pkg n s r s')
  have "mset (numbers js) = mset (n # numbers (js[i := Gone]))"
    using numbers_update [OF web_serve(3), of Gone] web_serve(4) by simp
  note old = mset_eq_setD [OF this] mset_eq_length [OF this] mset_eq_imp_distinct_iff [OF this]
  have "keeps (\<lambda>u. sv_seq u = sv_seq s \<and> sv_active u = sv_active s) (tryExcept (serve_job w ob pkg) (answer_error w))"
    unfolding serve_job_outcome by (intro py_intros keeps_behind keeps_answer)
  then have "sv_seq (snd (tryExcept (serve_job w ob pkg) (answer_error w) s)) = sv_seq s \<and>
      sv_active (snd (tryExcept (serve_job w ob pkg) (answer_error w) s)) = sv_active s"
    by (simp add: keeps_def)
  with web_serve(5,6) have "sv_seq s' = sv_seq s \<and> sv_active s' = sv_active s - 1"
    by (auto simp: unbump_def split: prod.splits sum.splits exn.splits)
  with assms(1) web_serve(1,2) old show ?thesis by (auto simp: web_inv_def)
next
  case (web_behind s js b)
  with assms(1) show ?thesis by (simp add: web_inv_def)
qed

interpretation web_system: invariant_system "web_step w" web_inv for w
  by unfold_locales (rule web_inv_step)

text \<open>
  C29: \<^verbatim>\<open>active\<close> counts what it says: whatever requests arrive, are refused, wait, fail or are answered in whatever
  order on however many threads, the counter is the number of accepted requests that have not ended, and
  their numbers are distinct and none is larger than \<^verbatim>\<open>seq\<close>.
\<close>

theorem active_counts_requests:
  assumes "(web_step w)\<^sup>*\<^sup>* (make_server b, []) (s, js)"
  shows "sv_active s = int (length (numbers js)) \<and> distinct (numbers js) \<and> filter (\<lambda>n. sv_seq s < n) (numbers js) = []"
proof -
  have "web_inv (make_server b, [])" by (simp add: web_inv_def make_server_def numbers_def)
  from web_system.inv_steps [OF assms this] show ?thesis by (auto simp: web_inv_def filter_empty_conv)
qed

text \<open>
  The counter does not stop at the size of the pool, as the comment in \<^verbatim>\<open>do_POST\<close> has it: requests that wait for a worker
  are counted, so it takes every value, with nothing behind the server changed.
\<close>

lemma active_is_not_capped:
  assumes "rq_path rq = ''/run''" "parse_request rq = Inr (ob, pkg)"
  shows "\<exists>js. (web_step w)\<^sup>*\<^sup>* (make_server b, []) (\<lparr>behind = b, sv_seq = int n, sv_active = int n\<rparr>, js)"
proof (induction n)
  case 0
  show ?case by (intro exI [of _ "[]"]) (simp add: make_server_def)
next
  case (Suc n)
  let ?s = "\<lambda>n. \<lparr>behind = b, sv_seq = int n, sv_active = int n\<rparr>"
  from Suc.IH obtain js where "(web_step w)\<^sup>*\<^sup>* (make_server b, []) (?s n, js)" by blast
  moreover have "web_step w (?s n, js) (?s n, js @ [Received rq])" by (rule web_arrive)
  moreover have "web_step w (?s n, js @ [Received rq]) (?s (Suc n), (js @ [Received rq])[length js := Serving ob pkg (sv_seq (?s (Suc n)))])"
    by (rule web_accept [OF _ _ assms]) (simp_all add: bump_def updates_def)
  ultimately show ?case by (meson rtranclp.rtrancl_into_rtrancl)
qed

section \<open>On the toy cluster\<close>

definition toy_registry :: "string \<Rightarrow> host option" where
  "toy_registry n = (if n = ''stats'' then Some (HDir True [(''__main__.py'', HFile True [112])]) else None)"

text \<open>
  The runner behind the handlers, for requests whose fields have the types that \<^verbatim>\<open>JobRunner.run\<close> declares; the others
  end in some exception here, whichever it is in the code.
\<close>

fun env_of :: "(string \<times> json) list \<Rightarrow> env_vars option" where
  "env_of [] = Some []"
| "env_of ((k, JStr v) # e) = map_option (Cons (k, v)) (env_of e)"
| "env_of _ = None"

fun toy_runner :: "json \<Rightarrow> json \<Rightarrow> json \<Rightarrow> json \<Rightarrow> (toy pool, json) py" where
  "toy_runner (JStr pkg) fs (JObj e) (JInt t) =
     (case env_of e of
        None \<Rightarrow> throw TypeErr
      | Some env \<Rightarrow> job_run toy_kube toy_registry pkg fs env (Some (of_int t)))"
| "toy_runner _ _ _ _ = throw TypeErr"

definition toy_web :: "(toy pool \<times> (nat \<times> json) list) web" where
  "toy_web = \<lparr>w_run = \<lambda>pkg fs env t (p, out). (case toy_runner pkg fs env t p of (r, p') \<Rightarrow> (r, (p', out))),
     w_send = \<lambda>c x (p, out). (Inr (), (p, out @ [(c, x)])),
     w_text = \<lambda>e. (case e of ValueErr m \<Rightarrow> m | _ \<Rightarrow> ''error''), w_stats = \<lambda>(p, out). stats_json (stats p)\<rparr>"

definition stats_request :: request where
  "stats_request = \<lparr>rq_path = ''/run'', rq_length = Some ''60'',
     rq_body = ''{'' @ json_str ''package'' @ '':'' @ json_str ''stats'' @ ''}''\<rparr>"

definition hostile_request :: request where
  "hostile_request = stats_request\<lparr>rq_body := ''{'' @ json_str ''package'' @ '':'' @ json_str ''../stats'' @ ''}''\<rparr>"

lemma toy_delivers: "delivers toy_web snd"
  by (auto simp: delivers_def toy_web_def split: prod.splits)

lemma stats_parsed: "parse_request stats_request = Inr ([(''package'', JStr ''stats'')], JStr ''stats'')"
  by code_simp

lemma hostile_answer: "answer_of toy_web hostile_request (toy_warm, []) = (400, error_json ''invalid package name'')"
  by code_simp

theorem post_answers_once_witness:
  "\<exists>s'. do_POST toy_web hostile_request (make_server (toy_warm, [])) = (Inr (), s') \<and>
     snd (behind s') = [(400, error_json ''invalid package name'')] \<and> fst (behind s') = toy_warm"
proof -
  obtain r s' where run: "do_POST toy_web hostile_request (make_server (toy_warm, [])) = (r, s')" by fastforce
  have "fst (do_POST toy_web hostile_request (make_server (toy_warm, []))) = Inr ()" by code_simp
  with run have ends: "r \<noteq> Inl WouldBlock" by auto
  have "fst (behind (snd (do_POST toy_web hostile_request (make_server (toy_warm, []))))) = toy_warm" by code_simp
  with post_answers_once [OF toy_delivers run ends] run show ?thesis by (auto simp: make_server_def hostile_answer)
qed

lemma stats_answered:
  "answer_of toy_web stats_request (toy_warm, []) = (200, job_reply \<lparr>stdout = ''hello'', stderr = [], exit_code = Some 0, timed_out = False, duration_s = 0,
      sandbox_id = ''box-1'', files = [], files_truncated = []\<rparr> [])"
  by code_simp

lemma post_restores_active_example:
  "sv_active (snd (do_POST toy_web stats_request (make_server (toy_warm, [])))) = 0"
proof -
  obtain r s' where run: "do_POST toy_web stats_request (make_server (toy_warm, [])) = (r, s')" by fastforce
  have "fst (do_POST toy_web stats_request (make_server (toy_warm, []))) = Inr ()" by code_simp
  with post_restores_active [OF run] run show ?thesis by (simp add: make_server_def)
qed

theorem active_counts_requests_witness:
  "sv_active \<lparr>behind = (toy_warm, [] :: (nat \<times> json) list), sv_seq = 1, sv_active = 1\<rparr> =
    int (length (numbers [Serving [(''package'', JStr ''stats'')] (JStr ''stats'') 1]))"
proof -
  let ?s = "make_server (toy_warm, [] :: (nat \<times> json) list)"
  let ?t = "\<lparr>behind = (toy_warm, [] :: (nat \<times> json) list), sv_seq = 1, sv_active = 1\<rparr>"
  have "web_step toy_web (?s, []) (?s, [] @ [Received stats_request])" by (rule web_arrive)
  moreover have "web_step toy_web (?s, [Received stats_request])
      (?t, [Received stats_request][0 := Serving [(''package'', JStr ''stats'')] (JStr ''stats'') (sv_seq ?t)])"
    by (rule web_accept [OF _ _ _ stats_parsed]) (simp_all add: stats_request_def bump_def updates_def make_server_def)
  ultimately have "(web_step toy_web)\<^sup>*\<^sup>* (make_server (toy_warm, []), [])
      (?t, [Serving [(''package'', JStr ''stats'')] (JStr ''stats'') 1])"
    by (simp add: converse_rtranclp_into_rtranclp)
  from active_counts_requests [OF this] show ?thesis by (rule conjunct1)
qed

lemma job_run_inputs_example:
  "\<exists>up. map_of up ''input.json'' = Some (py_encode ''[1]'') \<and> map_of up ''__main__.py'' = Some [112] \<and>
    job_run toy_kube toy_registry ''stats'' (JObj [(''input.json'', JStr ''[1]'')]) [] None toy_warm =
      andThen (dispatch toy_kube [''python'', ''.''] None (CollectPaths [''out.json'']) (Some []) up)
        (\<lambda>r. case py_decode (dict_get (files r) ''out.json'' []) of Inl e \<Rightarrow> throw e | Inr a \<Rightarrow> ret (job_reply r a)) toy_warm"
proof -
  have found: "package_dir toy_registry ''stats'' = Inr (HDir True [(''__main__.py'', HFile True [112])])"
    and one: "dict_ok [(''input.json'', ''[1]'')]"
    and tree: "read_project_tree (Some (HDir True [(''__main__.py'', HFile True [112])])) default_project_excludes
      (max_upload_bytes (cfg toy_warm)) False = Inr [(''__main__.py'', [112])]"
    by code_simp+
  from job_run_inputs [OF found one tree, of toy_kube "[]" None]
  show ?thesis by (elim exE conjE, intro exI conjI) simp_all
qed

end
