(* ===== verification/JobQueue.thy ===== *)
theory JobQueue
  imports JobServer
begin

text \<open>
  The queue-driven service of \<^verbatim>\<open>examples/queue_consumer.py\<close>: consumers that take jobs off a \<^verbatim>\<open>queue.Queue\<close>, run each in
  the sandbox and acknowledge it, a producer, and the shutdown of \<^verbatim>\<open>main\<close>: \<^verbatim>\<open>join\<close> on the queue, one stop
  message per consumer, \<^verbatim>\<open>join\<close> on the threads.
\<close>

section \<open>Jobs and the broker\<close>

record job =
  job_id :: string
  package :: string
  input_files :: "(string, byte list) dict"
  job_env :: env_vars

datatype message = Stop | Message job

text \<open>A \<^verbatim>\<open>queue.Queue\<close>: the messages, and how many have been put and not been acknowledged.\<close>

record broker =
  waiting_msgs :: "message list"
  unfinished :: nat

definition put_msg :: "message \<Rightarrow> broker \<Rightarrow> broker" where
  "put_msg m b = b\<lparr>waiting_msgs := waiting_msgs b @ [m], unfinished := unfinished b + 1\<rparr>"

text \<open>A state of the service: the broker and the pool.\<close>

type_synonym 's desk = "broker \<times> 's"

definition get_msg :: "('s desk, message) py" where
  "get_msg = (\<lambda>(b, s). case waiting_msgs b of
     [] \<Rightarrow> (Inl WouldBlock, (b, s))
   | m # ms \<Rightarrow> (Inr m, (b\<lparr>waiting_msgs := ms\<rparr>, s)))"

definition task_done :: "('s desk, unit) py" where
  "task_done = (\<lambda>(b, s).
     if unfinished b = 0 then (Inl (ValueErr ''task_done() called too many times''), (b, s))
     else (Inr (), (b\<lparr>unfinished := unfinished b - 1\<rparr>, s)))"

text \<open>\<open>at_path n\<close> is what the host has at \<^verbatim>\<open>os.path.join(REGISTRY, n)\<close>.\<close>

definition handle :: "'c kube \<Rightarrow> (string \<Rightarrow> host option) \<Rightarrow> job \<Rightarrow> ('c pool, unit) py" where
  "handle kb at_path j =
     andThen (run_project kb (at_path (package j)) [''python'', ''.''] (Some 10) (CollectPaths [''out.json''])
       (Some (job_env j)) default_project_excludes False (input_files j))
     (\<lambda>r. case py_decode (dict_get (files r) ''out.json'' []) of Inl e \<Rightarrow> throw e | Inr artifact \<Rightarrow> ret ())"

section \<open>The consumer loop\<close>

text \<open>
  The \<^verbatim>\<open>try\<close> statement around one message: whether the loop ends. An exception of the handler is swallowed, and
  \<^verbatim>\<open>finally\<close> acknowledges; a handler that waits for a worker has not come so far.
\<close>

definition process_msg :: "(job \<Rightarrow> ('s, unit) py) \<Rightarrow> message \<Rightarrow> ('s desk, bool) py" where
  "process_msg h m = (\<lambda>(b, s).
     case m of
       Stop \<Rightarrow> andThen task_done (\<lambda>_. ret True) (b, s)
     | Message j \<Rightarrow> (case h j s of
           (Inl WouldBlock, s') \<Rightarrow> (Inl WouldBlock, (b, s'))
         | (_, s') \<Rightarrow> andThen task_done (\<lambda>_. ret False) (b, s')))"

text \<open>The loop as far as the fuel goes.\<close>

fun consume_queue :: "(job \<Rightarrow> ('s, unit) py) \<Rightarrow> nat \<Rightarrow> ('s desk, unit) py" where
  "consume_queue h 0 = throw WouldBlock"
| "consume_queue h (Suc n) =
     andThen get_msg (\<lambda>m. andThen (process_msg h m) (\<lambda>stop. if stop then ret () else consume_queue h n))"

text \<open>A handler that comes back, with whatever result.\<close>

definition comes_back :: "(job \<Rightarrow> ('s, unit) py) \<Rightarrow> bool" where
  "comes_back h \<longleftrightarrow> (\<forall>j s. fst (h j s) \<noteq> Inl WouldBlock)"

lemma process_job:
  assumes "comes_back h" "0 < unfinished b"
  shows "process_msg h (Message j) (b, s) = (Inr False, (b\<lparr>unfinished := unfinished b - 1\<rparr>, snd (h j s)))"
proof -
  obtain r s' where r: "h j s = (r, s')" by fastforce
  with assms(1) have "r \<noteq> Inl WouldBlock" unfolding comes_back_def by (metis fst_conv)
  with assms(2) r show ?thesis
    by (auto simp: process_msg_def task_done_def andThen_def ret_def split: sum.splits exn.splits)
qed

lemma consume_jobs:
  assumes "comes_back h"
  shows "length js < n \<Longrightarrow> length js < unfinished b \<Longrightarrow> waiting_msgs b = map Message js @ Stop # ms \<Longrightarrow>
    consume_queue h n (b, s) = (Inr (), (b\<lparr>waiting_msgs := ms, unfinished := unfinished b - Suc (length js)\<rparr>,
      foldl (\<lambda>s j. snd (h j s)) s js))"
proof (induction js arbitrary: n b s)
  case Nil
  then show ?case
    by (cases n) (auto simp: get_msg_def process_msg_def task_done_def andThen_def ret_def)
next
  case (Cons j js)
  then obtain m where m: "n = Suc m" "length js < m" by (cases n) auto
  let ?b = "b\<lparr>waiting_msgs := map Message js @ Stop # ms\<rparr>"
  have "get_msg (b, s) = (Inr (Message j), (?b, s))" using Cons.prems by (simp add: get_msg_def)
  moreover have "process_msg h (Message j) (?b, s) = (Inr False, (?b\<lparr>unfinished := unfinished b - 1\<rparr>, snd (h j s)))"
    using process_job [OF assms, of ?b j s] Cons.prems by simp
  moreover have "consume_queue h m (?b\<lparr>unfinished := unfinished b - 1\<rparr>, snd (h j s)) =
      (Inr (), (?b\<lparr>unfinished := unfinished b - 1, waiting_msgs := ms, unfinished := unfinished b - 1 - Suc (length js)\<rparr>,
        foldl (\<lambda>s j. snd (h j s)) (snd (h j s)) js))"
    using Cons.IH [of m "?b\<lparr>unfinished := unfinished b - 1\<rparr>" "snd (h j s)"] m(2) Cons.prems by simp
  ultimately show ?case
    by (simp add: m(1) andThen_def)
qed

text \<open>
  One bad job does not stop a consumer: with the jobs and a stop message on the queue, the loop runs the handler once on
  every job, in order, whatever exceptions the handler raises, acknowledges each message, and ends at the
  stop message; one turn per message is enough.
\<close>

lemma consumer_handles_all:
  assumes "comes_back h" "waiting_msgs b = map Message js @ Stop # ms" "length js < unfinished b"
  shows "consume_queue h (Suc (length js)) (b, s) = (Inr (), (b\<lparr>waiting_msgs := ms, unfinished := unfinished b - Suc (length js)\<rparr>,
      foldl (\<lambda>s j. snd (h j s)) s js))"
  by (rule consume_jobs [OF assms(1)]) (use assms in simp_all)

section \<open>The whole service\<close>

text \<open>Where a consumer and where \<^verbatim>\<open>main\<close> is; the jobs still to publish belong to the producer \<^verbatim>\<open>main\<close> waits for.\<close>

datatype consumer_point = Idle | Busy message | Ended

datatype main_point =
    Producing "job list"
  | Joining        \<comment> \<open>\<^verbatim>\<open>broker.join()\<close>\<close>
  | Stopping nat   \<comment> \<open>stop messages still to put\<close>
  | Collecting     \<comment> \<open>\<^verbatim>\<open>c.join()\<close>\<close>
  | Closing

record 's service =
  the_broker :: broker
  pool_state :: 's
  consumers :: "consumer_point list"
  main_at :: main_point
  handled :: "job list"  \<comment> \<open>history: the jobs whose handler has ended\<close>

fun jobs_of :: "message \<Rightarrow> job list" where
  "jobs_of Stop = []"
| "jobs_of (Message j) = [j]"

inductive service_step :: "(job \<Rightarrow> ('s, unit) py) \<Rightarrow> 's service \<Rightarrow> 's service \<Rightarrow> bool" for h where
  svc_publish: "main_at v = Producing (j # js) \<Longrightarrow>
    service_step h v (v\<lparr>the_broker := put_msg (Message j) (the_broker v), main_at := Producing js\<rparr>)"
| svc_published: "main_at v = Producing [] \<Longrightarrow> service_step h v (v\<lparr>main_at := Joining\<rparr>)"
| svc_joined: "main_at v = Joining \<Longrightarrow> unfinished (the_broker v) = 0 \<Longrightarrow>
    service_step h v (v\<lparr>main_at := Stopping (length (consumers v))\<rparr>)"
| svc_stop: "main_at v = Stopping (Suc k) \<Longrightarrow>
    service_step h v (v\<lparr>the_broker := put_msg Stop (the_broker v), main_at := Stopping k\<rparr>)"
| svc_stopped: "main_at v = Stopping 0 \<Longrightarrow> service_step h v (v\<lparr>main_at := Collecting\<rparr>)"
| svc_collected: "main_at v = Collecting \<Longrightarrow> set (consumers v) \<subseteq> {Ended} \<Longrightarrow> service_step h v (v\<lparr>main_at := Closing\<rparr>)"
| svc_take: "i < length (consumers v) \<Longrightarrow> consumers v ! i = Idle \<Longrightarrow>
    get_msg (the_broker v, pool_state v) = (Inr m, (b, s)) \<Longrightarrow>
    service_step h v (v\<lparr>the_broker := b, pool_state := s, consumers := (consumers v)[i := Busy m]\<rparr>)"
| svc_process: "i < length (consumers v) \<Longrightarrow> consumers v ! i = Busy m \<Longrightarrow>
    process_msg h m (the_broker v, pool_state v) = (Inr stop, (b, s)) \<Longrightarrow>
    service_step h v (v\<lparr>the_broker := b, pool_state := s,
      consumers := (consumers v)[i := if stop then Ended else Idle], handled := handled v @ jobs_of m\<rparr>)"
| svc_pool: "service_step h v (v\<lparr>pool_state := s\<rparr>)"

definition service_start :: "'s \<Rightarrow> nat \<Rightarrow> job list \<Rightarrow> 's service" where
  "service_start s n js = \<lparr>the_broker = \<lparr>waiting_msgs = [], unfinished = 0\<rparr>, pool_state = s,
     consumers = replicate n Idle, main_at = Producing js, handled = []\<rparr>"

fun held_jobs :: "consumer_point \<Rightarrow> job multiset" where
  "held_jobs (Busy m) = mset (jobs_of m)"
| "held_jobs c = {#}"

fun pending :: "main_point \<Rightarrow> job multiset" where
  "pending (Producing js) = mset js"
| "pending c = {#}"

definition busy_n :: "consumer_point list \<Rightarrow> nat" where
  "busy_n cs = size (filter_mset (\<lambda>c. c \<noteq> Idle \<and> c \<noteq> Ended) (mset cs))"

definition stops_n :: "consumer_point list \<Rightarrow> nat" where
  "stops_n cs = size (filter_mset (\<lambda>c. c = Ended \<or> c = Busy Stop) (mset cs))"

fun stops_put :: "nat \<Rightarrow> main_point \<Rightarrow> nat" where
  "stops_put n (Producing js) = 0"
| "stops_put n Joining = 0"
| "stops_put n (Stopping k) = n - k"
| "stops_put n c = n"

text \<open>Past \<^verbatim>\<open>broker.join()\<close>.\<close>

fun past_join :: "main_point \<Rightarrow> bool" where
  "past_join (Producing js) = False"
| "past_join Joining = False"
| "past_join c = True"

definition service_inv :: "nat \<Rightarrow> job list \<Rightarrow> 's service \<Rightarrow> bool" where
  "service_inv n js v \<longleftrightarrow>
     length (consumers v) = n \<and>
     unfinished (the_broker v) = length (waiting_msgs (the_broker v)) + busy_n (consumers v) \<and>
     mset (handled v) + sum_mset (image_mset held_jobs (mset (consumers v))) +
       mset (concat (map jobs_of (waiting_msgs (the_broker v)))) + pending (main_at v) = mset js \<and>
     count (mset (waiting_msgs (the_broker v))) Stop + stops_n (consumers v) = stops_put n (main_at v) \<and>
     (\<forall>k. main_at v = Stopping k \<longrightarrow> k \<le> n) \<and>
     (past_join (main_at v) \<longrightarrow> mset (handled v) = mset js)"

lemma mset_at:
  assumes "i < length xs"
  obtains R where "mset xs = add_mset (xs ! i) R" "\<And>c. mset (xs[i := c]) = add_mset c R"
proof (rule that)
  show "mset xs = add_mset (xs ! i) (mset xs - {#xs ! i#})" using assms by simp
  show "mset (xs[i := c]) = add_mset c (mset xs - {#xs ! i#})" for c using assms by (rule mset_update)
qed

lemma service_inv_step:
  assumes inv: "service_inv n js v" and st: "service_step h v v'"
  shows "service_inv n js v'"
  using st
proof cases
  case (svc_joined)
  with inv have none: "waiting_msgs (the_broker v) = []" "busy_n (consumers v) = 0"
    by (auto simp: service_inv_def)
  then have "held_jobs c = {#}" if "c \<in> set (consumers v)" for c
    using that by (cases c) (auto simp: busy_n_def mset_filter [symmetric] filter_empty_conv simp del: mset_filter)
  then have "sum_mset (image_mset held_jobs (mset (consumers v))) = {#}" by (auto simp: sum_mset_0_iff)
  with none inv svc_joined show ?thesis by (auto simp: service_inv_def)
next
  case (svc_take i m b s)
  obtain R where R: "mset (consumers v) = add_mset Idle R" "\<And>c. mset ((consumers v)[i := c]) = add_mset c R"
    using mset_at [OF svc_take(2)] svc_take(3) by metis
  from svc_take(4) obtain ms where "waiting_msgs (the_broker v) = m # ms" "b = (the_broker v)\<lparr>waiting_msgs := ms\<rparr>"
    by (auto simp: get_msg_def split: list.splits)
  with inv svc_take(1,2) R show ?thesis
    by (cases m) (auto simp: service_inv_def busy_n_def stops_n_def)
next
  case (svc_process i m stop b s)
  obtain R where R: "mset (consumers v) = add_mset (Busy m) R" "\<And>c. mset ((consumers v)[i := c]) = add_mset c R"
    using mset_at [OF svc_process(2)] svc_process(3) by metis
  have b: "b = (the_broker v)\<lparr>unfinished := unfinished (the_broker v) - 1\<rparr>" "stop \<longleftrightarrow> m = Stop" "0 < unfinished (the_broker v)"
    using svc_process(4) by (auto simp: process_msg_def task_done_def andThen_def ret_def
      split: message.splits prod.splits sum.splits exn.splits if_splits)
  with inv svc_process(1,2) R show ?thesis
    by (cases m) (auto simp: service_inv_def busy_n_def stops_n_def)
qed (use inv in \<open>auto simp: service_inv_def put_msg_def\<close>)

interpretation service_system: invariant_system "service_step h" "service_inv n js" for h n js
  by unfold_locales (rule service_inv_step)

lemma service_inv_start: "service_inv n js (service_start s n js)"
  by (simp add: service_inv_def service_start_def busy_n_def stops_n_def)

definition service_reachable :: "(job \<Rightarrow> ('s, unit) py) \<Rightarrow> nat \<Rightarrow> job list \<Rightarrow> 's service \<Rightarrow> bool" where
  "service_reachable h n js v \<longleftrightarrow> (\<exists>s. (service_step h)\<^sup>*\<^sup>* (service_start s n js) v)"

lemma service_reachable_inv: "service_reachable h n js v \<Longrightarrow> service_inv n js v"
  unfolding service_reachable_def by (elim exE) (rule service_system.inv_steps [OF _ service_inv_start])

text \<open>
  C31: \<^verbatim>\<open>broker.join()\<close> is a barrier: however producer and consumers interleave and whatever the handlers raise, once \<^verbatim>\<open>main\<close> is past
  it every job has been handled exactly once, none is on the queue or in the hands of a consumer, and no stop message was
  put before.
\<close>

theorem join_after_all_jobs:
  assumes "service_reachable h n js v" "past_join (main_at v)"
  shows "mset (handled v) = mset js \<and> set (waiting_msgs (the_broker v)) \<subseteq> {Stop} \<and>
    set (consumers v) \<subseteq> {Idle, Ended, Busy Stop}"
proof -
  from service_reachable_inv [OF assms(1)] assms(2) have all: "mset (handled v) = mset js"
    and none: "sum_mset (image_mset held_jobs (mset (consumers v))) + mset (concat (map jobs_of (waiting_msgs (the_broker v)))) = {#}"
    by (auto simp: service_inv_def add.assoc)
  from none have queue: "\<forall>m \<in> set (waiting_msgs (the_broker v)). jobs_of m = []" and
    held: "\<forall>c \<in> set (consumers v). held_jobs c = {#}"
    by (auto simp: sum_mset_0_iff)
  have "set (waiting_msgs (the_broker v)) \<subseteq> {Stop}"
  proof
    fix m assume "m \<in> set (waiting_msgs (the_broker v))"
    with queue show "m \<in> {Stop}" by (cases m) auto
  qed
  moreover have "set (consumers v) \<subseteq> {Idle, Ended, Busy Stop}"
  proof
    fix c assume "c \<in> set (consumers v)"
    with held have "held_jobs c = {#}" by blast
    then show "c \<in> {Idle, Ended, Busy Stop}" by (cases c rule: held_jobs.cases; cases) (auto elim: jobs_of.elims)
  qed
  ultimately show ?thesis using all by simp
qed

section \<open>The service comes to its end\<close>

text \<open>What is left to do: a message is published or put, taken and processed.\<close>

fun main_left :: "nat \<Rightarrow> main_point \<Rightarrow> nat" where
  "main_left n (Producing js) = 3 * length js + 3 * n + 4"
| "main_left n Joining = 3 * n + 3"
| "main_left n (Stopping k) = 3 * k + 2"
| "main_left n Collecting = 1"
| "main_left n Closing = 0"

definition steps_left :: "nat \<Rightarrow> 's service \<Rightarrow> nat" where
  "steps_left n v = 2 * length (waiting_msgs (the_broker v)) + busy_n (consumers v) + main_left n (main_at v)"

lemma take_possible:
  assumes "i < length (consumers v)" "consumers v ! i = Idle" "waiting_msgs (the_broker v) = m # ms"
  shows "\<exists>v'. service_step h v v' \<and> steps_left n v' < steps_left n v"
proof -
  let ?b = "(the_broker v)\<lparr>waiting_msgs := ms\<rparr>"
  obtain R where R: "mset (consumers v) = add_mset Idle R" "\<And>c. mset ((consumers v)[i := c]) = add_mset c R"
    using mset_at [OF assms(1)] assms(2) by metis
  have "get_msg (the_broker v, pool_state v) = (Inr m, (?b, pool_state v))" using assms(3) by (simp add: get_msg_def)
  from svc_take [OF assms(1,2) this, of h] R assms(3) show ?thesis
    by (intro exI conjI) (assumption, simp add: steps_left_def busy_n_def)
qed

lemma process_possible:
  assumes "service_inv k js v" "comes_back h" "i < length (consumers v)" "consumers v ! i = Busy m"
  shows "\<exists>v'. service_step h v v' \<and> steps_left n v' < steps_left n v"
proof -
  obtain R where R: "mset (consumers v) = add_mset (Busy m) R" "\<And>c. mset ((consumers v)[i := c]) = add_mset c R"
    using mset_at [OF assms(3)] assms(4) by metis
  with assms(1) have un: "0 < unfinished (the_broker v)" by (simp add: service_inv_def busy_n_def)
  obtain b s where run: "process_msg h m (the_broker v, pool_state v) = (Inr (m = Stop), (b, s))"
    and b: "waiting_msgs b = waiting_msgs (the_broker v)"
  proof (cases m)
    case Stop
    with un show thesis
      by (intro that [of "(the_broker v)\<lparr>unfinished := unfinished (the_broker v) - 1\<rparr>"])
        (simp_all add: process_msg_def task_done_def andThen_def ret_def)
  next
    case (Message j)
    with process_job [OF assms(2) un, of j "pool_state v"] show thesis
      by (intro that [of "(the_broker v)\<lparr>unfinished := unfinished (the_broker v) - 1\<rparr>" "snd (h j (pool_state v))"]) simp_all
  qed
  from svc_process [OF assms(3,4) run] R b show ?thesis
    by (intro exI conjI) (assumption, simp add: steps_left_def busy_n_def)
qed

lemma main_possible:
  assumes "main_at v = Producing js \<or> main_at v = Joining \<and> unfinished (the_broker v) = 0 \<or> main_at v = Stopping k \<or>
    main_at v = Collecting \<and> set (consumers v) \<subseteq> {Ended}" "length (consumers v) = n"
  shows "\<exists>v'. service_step h v v' \<and> steps_left n v' < steps_left n v"
  using assms(1)
proof (elim disjE conjE)
  assume at: "main_at v = Producing js"
  show ?thesis
  proof (cases js)
    case Nil
    with svc_published [of v h] at show ?thesis by (intro exI conjI) (auto simp: steps_left_def)
  next
    case (Cons j js')
    with svc_publish [of v j js' h] at show ?thesis by (intro exI conjI) (auto simp: steps_left_def put_msg_def)
  qed
next
  assume "main_at v = Joining" "unfinished (the_broker v) = 0"
  from svc_joined [OF this, of h] \<open>main_at v = Joining\<close> assms(2) show ?thesis
    by (intro exI conjI) (assumption, simp add: steps_left_def)
next
  assume at: "main_at v = Stopping k"
  show ?thesis
  proof (cases k)
    case 0
    with svc_stopped [of v h] at show ?thesis by (intro exI conjI) (auto simp: steps_left_def)
  next
    case (Suc k')
    with svc_stop [of v k' h] at show ?thesis by (intro exI conjI) (auto simp: steps_left_def put_msg_def)
  qed
next
  assume "main_at v = Collecting" "set (consumers v) \<subseteq> {Ended}"
  from svc_collected [OF this, of h] \<open>main_at v = Collecting\<close> show ?thesis
    by (intro exI conjI) (assumption, simp add: steps_left_def)
qed

lemma steps_left_mono: "service_step h v v' \<Longrightarrow> length (consumers v) = n \<Longrightarrow> steps_left n v' \<le> steps_left n v"
proof (induction rule: service_step.induct)
  case (svc_take i v m b s)
  obtain R where R: "mset (consumers v) = add_mset Idle R" "\<And>c. mset ((consumers v)[i := c]) = add_mset c R"
    using mset_at [OF svc_take(1)] svc_take(2) by metis
  from svc_take(3) obtain ms where "waiting_msgs (the_broker v) = m # ms" "b = (the_broker v)\<lparr>waiting_msgs := ms\<rparr>"
    by (auto simp: get_msg_def split: list.splits)
  with R show ?case by (simp add: steps_left_def busy_n_def)
next
  case (svc_process i v m stop b s)
  obtain R where R: "mset (consumers v) = add_mset (Busy m) R" "\<And>c. mset ((consumers v)[i := c]) = add_mset c R"
    using mset_at [OF svc_process(1)] svc_process(2) by metis
  have "waiting_msgs b = waiting_msgs (the_broker v)"
    using svc_process(3) by (auto simp: process_msg_def task_done_def andThen_def ret_def
      split: message.splits prod.splits sum.splits exn.splits if_splits)
  with R show ?case by (simp add: steps_left_def busy_n_def)
qed (auto simp: steps_left_def put_msg_def)

lemma steps_left_bound:
  "service_reachable h n js v \<Longrightarrow> steps_left n v \<le> 3 * length js + 3 * n + 4"
proof -
  have "(service_step h)\<^sup>*\<^sup>* (service_start s n js) v \<Longrightarrow> service_inv n js v \<and> steps_left n v \<le> 3 * length js + 3 * n + 4" for s
  proof (induction rule: rtranclp_induct)
    case base
    show ?case using service_inv_start [of n js s] by (simp add: steps_left_def service_start_def busy_n_def)
  next
    case (step v w)
    from service_inv_step [OF _ step.hyps(2)] steps_left_mono [OF step.hyps(2)] step.IH
    show ?case by (auto simp: service_inv_def dest: order_trans)
  qed
  moreover assume "service_reachable h n js v"
  ultimately show ?thesis by (auto simp: service_reachable_def)
qed

lemma stops_all: "stops_n cs = length cs \<Longrightarrow> c \<in> set cs \<Longrightarrow> c = Ended \<or> c = Busy Stop"
  using length_filter_less [of c cs "\<lambda>c. c = Ended \<or> c = Busy Stop"] by (auto simp: stops_n_def simp flip: mset_filter)

lemma all_stops: "set cs \<subseteq> {Ended} \<Longrightarrow> stops_n cs = length cs"
proof -
  assume "set cs \<subseteq> {Ended}"
  then have "filter (\<lambda>c. c = Ended \<or> c = Busy Stop) cs = cs" by (auto simp: filter_id_conv)
  then show ?thesis by (simp add: stops_n_def flip: mset_filter)
qed

text \<open>A state in which no consumer can move: \<^verbatim>\<open>main\<close> can, unless it has closed the pool.\<close>

lemma main_not_stuck:
  assumes inv: "service_inv n js v" and "0 < n" and cs: "set (consumers v) \<subseteq> {Idle, Ended}"
    and stuck: "set (consumers v) \<subseteq> {Ended} \<or> waiting_msgs (the_broker v) = []"
  shows "main_at v = Closing \<or> (\<exists>v'. service_step h v v' \<and> steps_left n v' < steps_left n v)"
proof -
  from inv have len: "length (consumers v) = n"
    and un: "unfinished (the_broker v) = length (waiting_msgs (the_broker v)) + busy_n (consumers v)"
    and stops: "count (mset (waiting_msgs (the_broker v))) Stop + stops_n (consumers v) = stops_put n (main_at v)"
    by (simp_all add: service_inv_def)
  have busy: "busy_n (consumers v) = 0" using cs by (auto simp: busy_n_def filter_empty_conv simp flip: mset_filter)
  show ?thesis
  proof (cases "main_at v")
    case Joining
    with stops have "stops_n (consumers v) = 0" by simp
    with all_stops [of "consumers v"] len \<open>0 < n\<close> stuck have "waiting_msgs (the_broker v) = []" by auto
    with un busy have "unfinished (the_broker v) = 0" by simp
    with main_possible [OF _ len, of "[]" 0 h] Joining show ?thesis by blast
  next
    case Collecting
    have "set (consumers v) \<subseteq> {Ended}"
    proof (cases "waiting_msgs (the_broker v) = []")
      case True
      with stops Collecting len have "stops_n (consumers v) = length (consumers v)" by simp
      with stops_all cs show ?thesis by fastforce
    qed (use stuck in blast)
    with main_possible [OF _ len, of "[]" 0 h] Collecting show ?thesis by blast
  next
    case (Producing js')
    with main_possible [OF _ len, of js' 0 h] show ?thesis by blast
  next
    case (Stopping k)
    with main_possible [OF _ len, of "[]" k h] show ?thesis by blast
  qed simp
qed


section \<open>The jobs of the example\<close>

definition numbers_input :: "nat list \<Rightarrow> (string, byte list) dict" where
  "numbers_input ns = [(''input.json'', py_encode (json_dumps (JArr (map (\<lambda>n. JInt (int n)) ns))))]"

definition text_input :: "string \<Rightarrow> (string, byte list) dict" where
  "text_input s = [(''input.txt'', py_encode s)]"

definition published_jobs :: "job list" where
  "published_jobs =
     [\<lparr>job_id = ''job-1'', package = ''stats'', input_files = numbers_input [3, 1, 4, 1, 5, 9, 2, 6], job_env = []\<rparr>,
      \<lparr>job_id = ''job-2'', package = ''wordcount'',
        input_files = text_input ''the quick brown fox the lazy dog the end'', job_env = []\<rparr>,
      \<lparr>job_id = ''job-3'', package = ''stats'', input_files = numbers_input [10, 20, 30], job_env = []\<rparr>,
      \<lparr>job_id = ''job-4'', package = ''wordcount'',
        input_files = text_input ''alpha beta beta gamma gamma gamma'', job_env = [(''RUN_TAG'', ''batch-7'')]\<rparr>,
      \<lparr>job_id = ''job-5'', package = ''stats'', input_files = numbers_input [0..<101], job_env = []\<rparr>]"

text \<open>Every one of them arrives whole: the input that is uploaded decodes to the document it was made from.\<close>

lemma published_numbers: "py_decode (the (map_of (numbers_input ns) ''input.json'')) = Inr (json_dumps (JArr (map (\<lambda>n. JInt (int n)) ns)))"
  by (simp add: numbers_input_def)

section \<open>A handler that fails on some jobs\<close>

definition flaky :: "job \<Rightarrow> (nat, unit) py" where
  "flaky j s = (if package j = ''bad'' then Inl (ValueErr ''unknown package'') else Inr (), s + 1)"

definition sample_job :: "string \<Rightarrow> job" where
  "sample_job nm = \<lparr>job_id = nm, package = nm, input_files = [], job_env = []\<rparr>"

lemma flaky_comes_back: "comes_back flaky"
  by (simp add: comes_back_def flaky_def)

lemma consumer_handles_all_example:
  "consume_queue flaky 3 (\<lparr>waiting_msgs = [Message (sample_job ''bad''), Message (sample_job ''stats''), Stop], unfinished = 3\<rparr>, 0) =
    (Inr (), (\<lparr>waiting_msgs = [], unfinished = 0\<rparr>, 2))"
  using consumer_handles_all [OF flaky_comes_back, of "\<lparr>waiting_msgs = [Message (sample_job ''bad''), Message (sample_job ''stats''), Stop], unfinished = 3\<rparr>"
      "[sample_job ''bad'', sample_job ''stats'']" "[]" 0]
  by (simp add: flaky_def numeral_3_eq_3)

text \<open>One consumer, one job that fails, up to the point where \<^verbatim>\<open>join\<close> has returned.\<close>

definition sample_end :: "nat service" where
  "sample_end = \<lparr>the_broker = \<lparr>waiting_msgs = [], unfinished = 0\<rparr>, pool_state = 1, consumers = [Idle],
     main_at = Stopping 1, handled = [sample_job ''bad'']\<rparr>"

lemma sample_end_reached: "service_reachable flaky 1 [sample_job ''bad''] sample_end"
proof -
  let ?j = "sample_job ''bad''"
  define v where "v i = \<lparr>the_broker = \<lparr>waiting_msgs = if i = (1::nat) then [Message ?j] else [], unfinished = if i = 1 \<or> i = 2 then 1 else 0\<rparr>,
     pool_state = if i \<le> 2 then 0 else 1 :: nat, consumers = [if i = 2 then Busy (Message ?j) else Idle],
     main_at = if i = 0 then Producing [?j] else if i \<le> 3 then Producing [] else if i = 4 then Joining else Stopping 1,
     handled = if i \<le> 2 then [] else [?j]\<rparr>" for i
  have "service_step flaky (v 0) (v 1)"
    using svc_publish [of "v 0" ?j "[]" flaky] by (simp add: v_def put_msg_def)
  moreover have "service_step flaky (v 1) (v 2)"
    using svc_take [of 0 "v 1" "Message ?j" "\<lparr>waiting_msgs = [], unfinished = 1\<rparr>" 0 flaky] by (simp add: v_def get_msg_def)
  moreover have "service_step flaky (v 2) (v 3)"
    using svc_process [of 0 "v 2" "Message ?j" flaky False "\<lparr>waiting_msgs = [], unfinished = 0\<rparr>" 1]
    by (simp add: v_def process_msg_def task_done_def flaky_def andThen_def ret_def sample_job_def)
  moreover have "service_step flaky (v 3) (v 4)" using svc_published [of "v 3" flaky] by (simp add: v_def)
  moreover have "service_step flaky (v 4) (v 5)" using svc_joined [of "v 4" flaky] by (simp add: v_def)
  ultimately have "(service_step flaky)\<^sup>*\<^sup>* (v 0) (v 5)"
    by (meson converse_rtranclp_into_rtranclp rtranclp.rtrancl_refl)
  moreover have "v 0 = service_start 0 1 [?j]" "v 5 = sample_end" by (simp_all add: v_def service_start_def sample_end_def)
  ultimately show ?thesis unfolding service_reachable_def by metis
qed

theorem join_after_all_jobs_witness:
  "mset (handled sample_end) = {#sample_job ''bad''#}"
  using join_after_all_jobs [OF sample_end_reached] by (simp add: sample_end_def)


end
