(* ===== verification/LoadClient.thy ===== *)
theory LoadClient
  imports JobServer
begin

text \<open>
  The load generator \<^verbatim>\<open>examples/stress_client.py\<close>: the requests it makes, what it counts as a success and the
  percentiles it reports. The theory shows that client and server understand each other and what a reported
  percentile means.
\<close>

section \<open>Requests\<close>

text \<open>\<^verbatim>\<open>json.dumps(list(range(size)))\<close> and the words of the other package.\<close>

definition range_json :: "int \<Rightarrow> json" where
  "range_json sz = JArr (map (\<lambda>i. JInt (int i)) [0..<nat sz])"

definition sample_words :: "int \<Rightarrow> string" where
  "sample_words sz = join_with (CHR '' '') (map (\<lambda>i. CHR ''w'' # dec (i mod 64)) [0..<nat sz])"

definition make_payload :: "string \<Rightarrow> int \<Rightarrow> nat \<Rightarrow> json" where
  "make_payload pkg sz index =
     (let pkg = (if pkg = ''mix'' then [''stats'', ''wordcount''] ! (index mod 2) else pkg)
      in if pkg = ''stats'' then
           JObj [(''package'', JStr ''stats''), (''files'', JObj [(''input.json'', JStr (json_dumps (range_json sz)))])]
         else
           JObj [(''package'', JStr ''wordcount''), (''files'', JObj [(''input.txt'', JStr (sample_words sz))]),
             (''env'', JObj [(''RUN_TAG'', JStr ''stress'')])])"

text \<open>The request as \<^verbatim>\<open>urllib\<close> sends it: the document is ASCII, so its length is that of the body.\<close>

definition fire_request :: "json \<Rightarrow> request" where
  "fire_request payload =
     \<lparr>rq_path = ''/run'', rq_length = Some (dec (length (json_dumps payload))), rq_body = json_dumps payload\<rparr>"

text \<open>What \<^verbatim>\<open>fire_one\<close> makes of the answer; \<^verbatim>\<open>urlopen\<close> raises for an error status.\<close>

definition fire_result :: "nat \<times> json \<Rightarrow> bool \<times> json" where
  "fire_result reply = (case reply of (code, data) \<Rightarrow>
     if 400 \<le> code then (False, JStr (''http '' @ dec code))
     else (case data of
         JObj ob \<Rightarrow> (truthy (dict_get ob ''ok'' JNull), dict_get ob ''sandbox_id'' (JStr []))
       | _ \<Rightarrow> (False, JStr ''AttributeError'')))"

definition json_field :: "json \<Rightarrow> string \<Rightarrow> json \<Rightarrow> json" where
  "json_field j k dflt = (case j of JObj ob \<Rightarrow> dict_get ob k dflt | _ \<Rightarrow> dflt)"

lemma printable_payload: "printable (make_payload pkg sz index)"
  by (simp add: make_payload_def Let_def dict_ok_def)

lemma payload_parsed:
  "\<exists>ob nm. make_payload pkg sz index = JObj ob \<and> nm \<in> {''stats'', ''wordcount''} \<and>
    parse_request (fire_request (make_payload pkg sz index)) = Inr (ob, JStr nm) \<and> map_of ob ''package'' = Some (JStr nm)"
proof -
  let ?j = "make_payload pkg sz index"
  have "\<exists>ob nm. ?j = JObj ob \<and> map_of ob ''package'' = Some (JStr nm) \<and> nm \<in> {''stats'', ''wordcount''}"
    by (simp add: make_payload_def Let_def)
  then obtain ob nm where ob: "?j = JObj ob" "map_of ob ''package'' = Some (JStr nm)" "nm \<in> {''stats'', ''wordcount''}"
    by blast
  have loads: "json_loads (json_dumps ?j) = Some ?j" by (rule json_loads_dumps [OF printable_payload])
  have "json_dumps ?j \<noteq> []" by (simp add: ob(1))
  with loads have "parse_request (fire_request ?j) = Inr (ob, JStr nm)"
    by (simp add: parse_request_def fire_request_def py_int_dec Let_def ob)
  with ob show ?thesis by blast
qed

lemma reply_counted: "fire_result (200, job_reply r a) = (ok r, JStr (sandbox_id r))"
  by (simp add: fire_result_def job_reply_def dict_get_def)

text \<open>
  Client and server agree: every request the client makes, for any package and size, is read by the server as
  the package, files and environment it was made from, and when the runner returns the reply for a result, the client counts the
  request as a success exactly when that run was \<^verbatim>\<open>ok\<close>, and notes the worker that ran it; when the runner
  raises, the client counts a failure.
\<close>

lemma client_counts_runs:
  assumes "fst (w_run w (json_field (make_payload pkg sz i) ''package'' JNull) (json_field (make_payload pkg sz i) ''files'' (JObj []))
      (json_field (make_payload pkg sz i) ''env'' (JObj [])) (JInt 10) b) = x"
    and "x = Inl e \<or> x = Inr (job_reply r a)"
  shows "fire_result (answer_of w (fire_request (make_payload pkg sz i)) b) =
    (case x of Inl e \<Rightarrow> (False, JStr (if bad_request e then ''http 400'' else ''http 500'')) | Inr _ \<Rightarrow> (ok r, JStr (sandbox_id r)))"
proof -
  let ?j = "make_payload pkg sz i"
  obtain ob nm where ob: "?j = JObj ob" "parse_request (fire_request ?j) = Inr (ob, JStr nm)" "map_of ob ''package'' = Some (JStr nm)"
    and t: "dict_get ob ''timeout_s'' (JInt 10) = JInt 10"
    using payload_parsed [of pkg sz i] by (auto simp: make_payload_def Let_def dict_get_def split: if_split_asm)
  have texts: "dec 400 = ''400''" "dec 500 = ''500''" by code_simp+
  have path: "rq_path (fire_request ?j) = ''/run''" by (simp add: fire_request_def)
  have logged: "andThen (log_result (job_reply r a)) (\<lambda>_. ret (job_reply r a)) c = (Inr (job_reply r a), c)" for c
    by (simp add: job_reply_def ret_andThen ret_def)
  from assms(1) have run: "fst (w_run w (JStr nm) (dict_get ob ''files'' (JObj [])) (dict_get ob ''env'' (JObj [])) (JInt 10) b) = x"
    unfolding json_field_def ob(1) by (simp add: dict_get_def ob(3))
  have "fst (job_outcome w ob (JStr nm) b) = x"
    using run assms(2) unfolding job_outcome_def log_arrival.simps ret_andThen t
    by (auto simp: andThen_def [of "w_run _ _ _ _ _"] logged split: prod.splits sum.splits)
  with assms(2) path ob(2) have "answer_of w (fire_request ?j) b = (case x of Inl e \<Rightarrow> error_answer w e | Inr v \<Rightarrow> (200, v))"
    by (simp add: answer_of_def)
  with assms(2) show ?thesis
    by (auto simp: error_answer_def fire_result_def reply_counted texts job_reply_def dict_get_def)
qed

section \<open>Percentiles\<close>

text \<open>
  The values are sorted and \<open>q\<close> is the value of a float that is not negative; \<^verbatim>\<open>int(q * len(sorted_vals))\<close> rounds the
  product to a float and drops its fraction.
\<close>

definition percentile :: "rat list \<Rightarrow> rat \<Rightarrow> exn + rat" where
  "percentile vals q =
     (if vals = [] then Inr 0
      else (case to_float (q * of_nat (length vals)) of
          FInf \<Rightarrow> Inl OverflowErr
        | Fin x \<Rightarrow> Inr (vals ! min (length vals - 1) (nat \<lfloor>x\<rfloor>))))"

lemma percentile_index:
  assumes "vals \<noteq> []" "0 \<le> q" "percentile vals q = Inr v"
  obtains x where "to_float (q * of_nat (length vals)) = Fin x" "0 \<le> x" "v = vals ! min (length vals - 1) (nat \<lfloor>x\<rfloor>)"
proof -
  obtain x where x: "to_float (q * of_nat (length vals)) = Fin x"
    using assms by (cases "to_float (q * of_nat (length vals))") (auto simp: percentile_def)
  moreover have "to_float 0 \<le> to_float (q * of_nat (length vals))" by (rule to_float_mono) (use assms(2) in simp_all)
  then have "0 \<le> x" using x by (simp add: to_float_def)
  ultimately show thesis using assms by (intro that) (auto simp: percentile_def)
qed

text \<open>
  The reported percentiles are ordered: for sorted latencies a larger fraction gives a value that is not smaller, and every
  percentile is one of the latencies, so p50, p95, p99 and the maximum come in this order.
\<close>

lemma percentiles_ordered:
  assumes "sorted vals" "vals \<noteq> []" "0 \<le> q" "q \<le> q'" "percentile vals q = Inr v" "percentile vals q' = Inr v'"
  shows "v \<le> v' \<and> v' \<le> last vals \<and> v \<in> set vals \<and> v' \<in> set vals"
proof -
  from assms(3,4) have "0 \<le> q'" by simp
  obtain x where x: "to_float (q * of_nat (length vals)) = Fin x" "v = vals ! min (length vals - 1) (nat \<lfloor>x\<rfloor>)"
    by (rule percentile_index [OF assms(2,3,5)])
  obtain y where y: "to_float (q' * of_nat (length vals)) = Fin y" "v' = vals ! min (length vals - 1) (nat \<lfloor>y\<rfloor>)"
    by (rule percentile_index [OF assms(2) \<open>0 \<le> q'\<close> assms(6)])
  have "to_float (q * of_nat (length vals)) \<le> to_float (q' * of_nat (length vals))"
    by (rule to_float_mono) (use assms(3,4) in \<open>auto intro: mult_right_mono\<close>)
  then have "x \<le> y" using x(1) y(1) by simp
  then have "nat \<lfloor>x\<rfloor> \<le> nat \<lfloor>y\<rfloor>" by (intro nat_mono floor_mono)
  define i j where "i = min (length vals - 1) (nat \<lfloor>x\<rfloor>)" and "j = min (length vals - 1) (nat \<lfloor>y\<rfloor>)"
  have "0 < length vals" using assms(2) by simp
  with \<open>nat \<lfloor>x\<rfloor> \<le> nat \<lfloor>y\<rfloor>\<close> have "i \<le> j" "j \<le> length vals - 1" "j < length vals" "length vals - 1 < length vals"
    by (auto simp: i_def j_def min_def)
  moreover have "v = vals ! i" "v' = vals ! j" using x(2) y(2) by (simp_all add: i_def j_def)
  ultimately show ?thesis
    using sorted_nth_mono [OF assms(1), of i j] sorted_nth_mono [OF assms(1), of j "length vals - 1"] assms(2)
    by (simp add: last_conv_nth)
qed

text \<open>
  A percentile covers its share: of the sorted latencies at least the fraction \<open>q\<close> is not above the value that is reported
  for \<open>q\<close>, although the index is computed in floating point.
\<close>

lemma percentile_covers:
  assumes "sorted vals" "vals \<noteq> []" "length vals < 2 ^ 53" "0 \<le> q" "q \<le> 1" "percentile vals q = Inr v"
  shows "q * of_nat (length vals) \<le> of_nat (length (filter (\<lambda>x. x \<le> v) vals))"
proof -
  let ?n = "length vals"
  have n: "0 < ?n" using assms(2) by simp
  obtain x where x: "to_float (q * of_nat ?n) = Fin x" "v = vals ! min (?n - 1) (nat \<lfloor>x\<rfloor>)"
    by (rule percentile_index [OF assms(2,4,6)])
  define f where "f = nat \<lfloor>q * of_nat ?n\<rfloor>"
  have f: "of_nat f \<le> q * of_nat ?n" "q * of_nat ?n < of_nat f + 1"
    using assms(4) by (simp_all add: f_def of_nat_nat floor_less_iff) linarith+
  have "q * of_nat ?n \<le> of_nat ?n" using assms(5) mult_right_mono [of q 1 "of_nat ?n"] by simp
  with f(1) have "(of_nat f :: rat) \<le> of_nat ?n" by linarith
  then have "f \<le> ?n" by simp
  with assms(3) have "to_float (of_nat f) = Fin (of_nat f)" by (intro to_float_of_nat) simp
  moreover have "to_float (of_nat f) \<le> to_float (q * of_nat ?n)" by (rule to_float_mono) (use f(1) in simp_all)
  ultimately have "of_nat f \<le> x" using x(1) by simp
  then have "int f \<le> \<lfloor>x\<rfloor>" by (simp add: le_floor_iff)
  then have "f \<le> nat \<lfloor>x\<rfloor>" by linarith
  define i where "i = min (?n - 1) (nat \<lfloor>x\<rfloor>)"
  have i: "i < ?n" using n by (auto simp: i_def min_def)
  have v: "v = vals ! i" using x(2) by (simp add: i_def)
  have "set (take (Suc i) vals) \<subseteq> {x. x \<le> v}"
    using sorted_nth_mono [OF assms(1), of _ i] i v by (auto simp: in_set_conv_nth less_Suc_eq_le)
  then have "filter (\<lambda>x. x \<le> v) (take (Suc i) vals) = take (Suc i) vals" by (auto simp: filter_id_conv)
  moreover have "length (filter (\<lambda>x. x \<le> v) (take (Suc i) vals)) \<le> length (filter (\<lambda>x. x \<le> v) vals)"
    by (metis append_take_drop_id filter_append le_add1 length_append)
  ultimately have "Suc i \<le> length (filter (\<lambda>x. x \<le> v) vals)" using i by simp
  moreover have "q * of_nat ?n \<le> of_nat (Suc i)"
  proof (cases "nat \<lfloor>x\<rfloor> \<le> ?n - 1")
    case True
    then have "f \<le> i" using \<open>f \<le> nat \<lfloor>x\<rfloor>\<close> by (simp add: i_def)
    then have "(of_nat f :: rat) + 1 \<le> of_nat (Suc i)" by simp
    with f(2) show ?thesis by linarith
  next
    case False
    then have "Suc i = ?n" using n by (simp add: i_def)
    with \<open>q * of_nat ?n \<le> of_nat ?n\<close> show ?thesis by simp
  qed
  ultimately show ?thesis by (meson of_nat_le_iff order_trans)
qed

section \<open>On concrete inputs\<close>

lemma sample_percentiles: "percentile [1, 2, 3, 4] (1 / 2) = Inr 3" "percentile [1, 2, 3, 4] (3 / 4) = Inr 4"
  using to_float_of_nat [of 2] to_float_of_nat [of 3] by (simp_all add: percentile_def)

lemma percentiles_ordered_example: "(3::rat) \<le> 4 \<and> 3 \<in> set [1, 2, 3, 4::rat]"
  using percentiles_ordered [OF _ _ _ _ sample_percentiles] by simp

lemma percentile_covers_example:
  "1 / 2 * of_nat (length [1, 2, 3, 4::rat]) \<le> (of_nat (length (filter (\<lambda>x. x \<le> 3) [1, 2, 3, 4::rat])) :: rat)"
  using percentile_covers [OF _ _ _ _ _ sample_percentiles(1)] by simp

lemma client_counts_runs_example:
  "fire_result (answer_of toy_web (fire_request (make_payload ''stats'' 3 0)) (toy_warm, [])) = (True, JStr ''box-1'')"
proof -
  let ?r = "\<lparr>stdout = ''hello'', stderr = [], exit_code = Some 0, timed_out = False, duration_s = 0,
      sandbox_id = ''box-1'', files = [], files_truncated = []\<rparr>"
  have "fst (w_run toy_web (json_field (make_payload ''stats'' 3 0) ''package'' JNull) (json_field (make_payload ''stats'' 3 0) ''files'' (JObj []))
      (json_field (make_payload ''stats'' 3 0) ''env'' (JObj [])) (JInt 10) (toy_warm, [])) = Inr (job_reply ?r [])"
    by code_simp
  from client_counts_runs [OF this, of _ ?r "[]"] show ?thesis by (simp add: ok_def)
qed

section \<open>The tally\<close>

text \<open>\<^verbatim>\<open>main\<close> counts the answers in the order in which they complete, and reports the percentiles of the sorted latencies.\<close>

fun tally :: "(bool \<times> rat) list \<Rightarrow> (nat \<times> nat) \<times> rat list \<Rightarrow> (nat \<times> nat) \<times> rat list" where
  "tally [] c = c"
| "tally ((won, dt) # rs) ((oks, fails), lats) = tally rs (if won then (oks + 1, fails) else (oks, fails + 1), lats @ [dt])"

text \<open>The value of a decimal literal.\<close>

definition literal :: "rat \<Rightarrow> rat" where
  "literal q = (case to_float q of Fin x \<Rightarrow> x | FInf \<Rightarrow> 0)"

definition load_report :: "(bool \<times> rat) list \<Rightarrow> (nat \<times> nat) \<times> (exn + rat) list \<times> rat" where
  "load_report rs =
     (case tally rs ((0, 0), []) of (counts, lats) \<Rightarrow>
        let lats = sort lats
        in (counts, map (\<lambda>q. percentile lats (literal q)) [1 / 2, 19 / 20, 99 / 100], if lats = [] then 0 else last lats))"

lemma tally_counts:
  "tally rs ((n, m), lats) = ((n + length (filter fst rs), m + length (filter (\<lambda>r. \<not> fst r) rs)), lats @ map snd rs)"
  by (induction rs "((n, m), lats)" arbitrary: n m lats rule: tally.induct) auto

text \<open>Every answer is counted once, and the order in which the answers complete makes no difference to the report.\<close>

lemma report_complete:
  "fst (fst (load_report rs)) + snd (fst (load_report rs)) = length rs"
  using sum_length_filter_compl [of fst rs] by (simp add: load_report_def tally_counts Let_def)

lemma report_any_order:
  assumes "mset rs = mset rs'"
  shows "load_report rs = load_report rs'"
proof -
  have "length (filter P rs) = length (filter P rs')" for P
    using assms by (metis mset_filter size_mset)
  moreover have "mset (map snd rs) = mset (map snd rs')" using assms by simp
  then have "sort (map snd rs) = sort (map snd rs')" by (metis properties_for_sort sorted_sort mset_sort)
  ultimately show ?thesis by (simp add: load_report_def tally_counts Let_def)
qed

end
