(* ===== verification/JobPackages.thy ===== *)
theory JobPackages
  imports ExecChannel "HOL-Library.Multiset"
begin

text \<open>
  The programs that the example services run in the sandbox: \<^verbatim>\<open>wordcount\<close> and \<^verbatim>\<open>stats\<close> of \<^verbatim>\<open>examples/package_registry\<close>
  and the statistics module of \<^verbatim>\<open>examples/sample_project\<close>. A mean is computed in binary64 arithmetic.
\<close>

section \<open>Counting words\<close>

text \<open>\<^verbatim>\<open>s.split()\<close>.\<close>

fun words_from :: "string \<Rightarrow> string \<Rightarrow> string list" where
  "words_from acc [] = (if acc = [] then [] else [acc])"
| "words_from acc (c # cs) =
     (if is_space c then (if acc = [] then words_from [] cs else acc # words_from [] cs)
      else words_from (acc @ [c]) cs)"

definition py_split :: "string \<Rightarrow> string list" where
  "py_split s = words_from [] s"

text \<open>\<^verbatim>\<open>Counter(words)\<close> and \<^verbatim>\<open>most_common(n)\<close>: by falling count, words of equal count in the order of their first use.\<close>

definition counter :: "'a list \<Rightarrow> ('a, nat) dict" where
  "counter ws = foldl (\<lambda>d w. dict_put w (dict_get d w 0 + 1) d) [] ws"

definition most_common :: "nat \<Rightarrow> ('a, nat) dict \<Rightarrow> ('a \<times> nat) list" where
  "most_common n d = take n (sort_key (\<lambda>p. - int (snd p)) d)"

definition wordcount :: "string \<Rightarrow> string option \<Rightarrow> json" where
  "wordcount text run_tag =
     (let counts = counter (py_split text)
      in JObj [(''total_words'', JInt (int (sum_list (map snd counts)))), (''distinct'', JInt (int (length counts))),
           (''top'', JArr (map (\<lambda>(w, n). JArr [JStr w, JInt (int n)]) (most_common 3 counts))),
           (''run_tag'', JStr (case run_tag of None \<Rightarrow> [] | Some t \<Rightarrow> t))])"

lemma counter_snoc: "counter (ws @ [w]) = dict_put w (dict_get (counter ws) w 0 + 1) (counter ws)"
  by (simp add: counter_def)

lemma counter_counts: "dict_get (counter ws) w 0 = count_list ws w"
  by (induction ws rule: rev_induct) (auto simp: counter_snoc dict_get_def counter_def [of "[]"])

lemma counter_keys: "dict_ok (counter ws) \<and> fst ` set (counter ws) = set ws"
  by (induction ws rule: rev_induct) (auto simp: counter_snoc counter_def [of "[]"] dict_ok_def [of "[]"])

lemma counter_entry: "(w, n) \<in> set (counter ws) \<longleftrightarrow> w \<in> set ws \<and> n = count_list ws w"
proof -
  have "(w, n) \<in> set (counter ws) \<longleftrightarrow> map_of (counter ws) w = Some n"
    using counter_keys [of ws] by (simp add: dict_ok_def map_of_eq_Some_iff)
  moreover have "map_of (counter ws) w = None \<longleftrightarrow> w \<notin> set ws"
    using counter_keys [of ws] by (simp add: map_of_eq_None_iff)
  ultimately show ?thesis
    using counter_counts [of ws w] by (auto simp: dict_get_def split: option.splits)
qed

lemma sum_counts_put:
  "dict_ok d \<Longrightarrow> sum_list (map snd (dict_put w (dict_get d w 0 + 1) d)) = sum_list (map snd d) + (1::nat)"
proof (induction d)
  case (Cons kv d)
  obtain k v where kv: "kv = (k, v)" by (cases kv)
  show ?case
  proof (cases "k = w")
    case False
    with Cons kv show ?thesis by (simp add: dict_get_def dict_ok_def)
  qed (simp add: kv dict_get_def)
qed (simp add: dict_get_def)

lemma counter_total: "sum_list (map snd (counter ws)) = length ws"
proof (induction ws rule: rev_induct)
  case (snoc w ws)
  then show ?case using sum_counts_put [of "counter ws" w] counter_keys [of ws] by (simp add: counter_snoc)
qed (simp add: counter_def)

lemma most_common_top:
  assumes "p \<in> set (most_common n d)" "q \<in> set d" "q \<notin> set (most_common n d)"
  shows "snd q \<le> snd p"
proof -
  let ?s = "sort_key (\<lambda>p. - int (snd p)) d"
  have split: "?s = take n ?s @ drop n ?s" by simp
  have "q \<in> set ?s" using assms(2) by simp
  with assms(3) have "q \<in> set (drop n ?s)" unfolding most_common_def by (metis UnE set_append split)
  moreover have "sorted (map (\<lambda>p. - int (snd p)) (take n ?s @ drop n ?s))" by (simp only: append_take_drop_id sorted_sort_key)
  ultimately have "- int (snd p) \<le> - int (snd q)"
    using assms(1) unfolding most_common_def map_append sorted_append by auto
  then show ?thesis by simp
qed

lemma most_common_sorted: "sorted_wrt (\<ge>) (map snd (most_common n d))"
proof -
  have "sorted (map (\<lambda>p. - int (snd p)) (take n (sort_key (\<lambda>p. - int (snd p)) d)))"
    by (simp add: take_map [symmetric] sorted_wrt_take)
  then show ?thesis by (simp add: most_common_def sorted_wrt_map)
qed

text \<open>
  \<^verbatim>\<open>wordcount\<close> counts: the counter has every word of the text once, with the number of its occurrences, the total is the
  number of words, and the words it reports are three (or all, if there are fewer) that come by falling count, none of the others
  being more frequent.
\<close>

lemma wordcount_exact:
  fixes s :: string
  defines "ws \<equiv> py_split s"
  shows "set (counter ws) = (\<lambda>w. (w, count_list ws w)) ` set ws \<and> distinct (map fst (counter ws)) \<and>
    sum_list (map snd (counter ws)) = length ws \<and>
    length (most_common 3 (counter ws)) = min 3 (card (set ws)) \<and> sorted_wrt (\<ge>) (map snd (most_common 3 (counter ws))) \<and>
    set (most_common 3 (counter ws)) \<subseteq> set (counter ws) \<and>
    (\<forall>p \<in> set (most_common 3 (counter ws)). \<forall>q \<in> set (counter ws) - set (most_common 3 (counter ws)). snd q \<le> snd p)"
proof (intro conjI)
  show "set (counter ws) = (\<lambda>w. (w, count_list ws w)) ` set ws"
    using counter_entry [of _ _ ws] by (auto simp: image_iff)
  show keys: "distinct (map fst (counter ws))" using counter_keys [of ws] by (simp add: dict_ok_def)
  show "sum_list (map snd (counter ws)) = length ws" by (rule counter_total)
  have "length (counter ws) = card (set ws)"
    using distinct_card [OF keys] counter_keys [of ws] by simp
  then show "length (most_common 3 (counter ws)) = min 3 (card (set ws))" by (simp add: most_common_def min.commute)
  show "sorted_wrt (\<ge>) (map snd (most_common 3 (counter ws)))" by (rule most_common_sorted)
  show "set (most_common 3 (counter ws)) \<subseteq> set (counter ws)"
    by (auto simp: most_common_def dest: in_set_takeD)
  show "\<forall>p \<in> set (most_common 3 (counter ws)). \<forall>q \<in> set (counter ws) - set (most_common 3 (counter ws)). snd q \<le> snd p"
    using most_common_top by blast
qed

lemma wordcount_exact_example:
  "most_common 3 (counter (py_split ''a b  b c c c'')) = [(''c'', 3), (''b'', 2), (''a'', 1)] \<and>
    sum_list (map snd (counter (py_split ''a b  b c c c''))) = 6"
proof -
  have "py_split ''a b  b c c c'' = [''a'', ''b'', ''b'', ''c'', ''c'', ''c'']"
    "most_common 3 (counter [''a'', ''b'', ''b'', ''c'', ''c'', ''c'']) = [(''c'', 3), (''b'', 2), (''a'', 1)]" by code_simp+
  with wordcount_exact [of "''a b  b c c c''"] show ?thesis by simp
qed

section \<open>Statistics\<close>

text \<open>\<^verbatim>\<open>total / n\<close> of two integers, rounded once; the sign is kept apart.\<close>

definition int_quotient :: "int \<Rightarrow> nat \<Rightarrow> pyfloat" where
  "int_quotient tot n = to_float (of_int \<bar>tot\<bar> / of_nat n)"

text \<open>\<^verbatim>\<open>round(x, 2)\<close>: the nearest float to the nearest multiple of a hundredth, ties to even.\<close>

definition round2 :: "rat \<Rightarrow> pyfloat" where
  "round2 x = to_float (of_int (round_even (x * 100)) / 100)"

definition mean2 :: "int \<Rightarrow> nat \<Rightarrow> exn + json" where
  "mean2 tot n =
     (if n = 0 then Inr (JInt 0)
      else (case int_quotient tot n of FInf \<Rightarrow> Inl OverflowErr | Fin x \<Rightarrow> Inr (JFloat (tot < 0) (round2 x))))"

definition summarize :: "int list \<Rightarrow> exn + (string \<times> json) list" where
  "summarize numbers =
     (case mean2 (sum_list numbers) (length numbers) of
        Inl e \<Rightarrow> Inl e
      | Inr m \<Rightarrow> Inr [(''count'', JInt (int (length numbers))), (''sum'', JInt (sum_list numbers)), (''mean'', m)])"

text \<open>The one of the sample project also has the extremes.\<close>

definition summarize_range :: "int list \<Rightarrow> exn + (string \<times> json) list" where
  "summarize_range numbers =
     (case mean2 (sum_list numbers) (length numbers) of
        Inl e \<Rightarrow> Inl e
      | Inr m \<Rightarrow> Inr [(''count'', JInt (int (length numbers))), (''sum'', JInt (sum_list numbers)), (''mean'', m),
          (''min'', if numbers = [] then JNull else JInt (Min (set numbers))),
          (''max'', if numbers = [] then JNull else JInt (Max (set numbers)))])"

lemma to_float_nat_int: "0 \<le> i \<Longrightarrow> i < 2 ^ 53 \<Longrightarrow> to_float (of_int i) = Fin (of_int i)"
  using to_float_of_nat [of "nat i"] by simp

lemma to_float_between:
  assumes "0 \<le> lo" "hi < 2 ^ 53" "of_int lo \<le> x" "x \<le> of_int hi"
  obtains y where "to_float x = Fin y" "of_int lo \<le> y" "y \<le> of_int hi"
proof -
  have "lo \<le> hi" using assms(3,4) by (metis of_int_le_iff order_trans)
  have "to_float (of_int lo) \<le> to_float x" "to_float x \<le> to_float (of_int hi)"
    using assms \<open>lo \<le> hi\<close> by (auto intro!: to_float_mono order_trans [OF _ assms(3)])
  with assms \<open>lo \<le> hi\<close> to_float_nat_int [of lo] to_float_nat_int [of hi] that show thesis
    by (cases "to_float x") auto
qed

text \<open>
  Rounding never takes a mean out of the data: for numbers between 0 and \<open>2 ^ 53\<close> the mean that is reported, after two
  roundings of binary64 arithmetic and one to hundredths, lies between the smallest and the largest number.
\<close>

lemma mean_within_range:
  assumes "numbers \<noteq> []" "0 \<le> Min (set numbers)" "Max (set numbers) < 2 ^ 53"
  shows "\<exists>m. mean2 (sum_list numbers) (length numbers) = Inr (JFloat False (Fin m)) \<and>
    of_int (Min (set numbers)) \<le> m \<and> m \<le> of_int (Max (set numbers))"
proof -
  let ?lo = "Min (set numbers)" and ?hi = "Max (set numbers)" and ?n = "length numbers"
  have n: "0 < ?n" using assms(1) by simp
  have "int ?n * ?lo \<le> sum_list numbers"
    using sum_list_mono [of numbers "\<lambda>_. ?lo" id] by (simp add: sum_list_triv)
  moreover have "sum_list numbers \<le> int ?n * ?hi"
    using sum_list_mono [of numbers id "\<lambda>_. ?hi"] by (simp add: sum_list_triv)
  ultimately have tot: "of_nat ?n * (of_int ?lo :: rat) \<le> of_int (sum_list numbers)" "of_int (sum_list numbers) \<le> of_nat ?n * (of_int ?hi :: rat)"
    by (metis of_int_le_iff of_int_mult of_int_of_nat_eq)+
  have nonneg: "0 \<le> sum_list numbers"
    using assms(2) \<open>int ?n * ?lo \<le> sum_list numbers\<close> by (smt (verit) mult_nonneg_nonneg of_nat_0_le_iff)
  have "of_int ?lo \<le> (of_int (sum_list numbers) / of_nat ?n :: rat)" "(of_int (sum_list numbers) / of_nat ?n :: rat) \<le> of_int ?hi"
    using tot n by (simp_all add: le_divide_eq divide_le_eq mult.commute)
  then obtain x where x: "int_quotient (sum_list numbers) ?n = Fin x" "of_int ?lo \<le> x" "x \<le> of_int ?hi"
    using to_float_between [OF assms(2,3)] nonneg unfolding int_quotient_def by (metis abs_of_nonneg)
  have "?lo * 100 \<le> round_even (x * 100)" "round_even (x * 100) \<le> ?hi * 100"
    using x(2,3) by (auto intro!: round_even_ge_int round_even_le_int)
  then have "of_int (?lo * 100) \<le> (of_int (round_even (x * 100)) :: rat)" "(of_int (round_even (x * 100)) :: rat) \<le> of_int (?hi * 100)"
    by (simp_all only: of_int_le_iff)
  then have "of_int ?lo \<le> (of_int (round_even (x * 100)) / 100 :: rat)" "(of_int (round_even (x * 100)) / 100 :: rat) \<le> of_int ?hi"
    by simp_all
  then obtain m where "round2 x = Fin m" "of_int ?lo \<le> m" "m \<le> of_int ?hi"
    using to_float_between [OF assms(2,3)] unfolding round2_def by metis
  with x(1) n nonneg show ?thesis by (simp add: mean2_def)
qed

lemma mean_within_range_example:
  "\<exists>m. mean2 (sum_list [1, 2, 4]) (length [1, 2, 4 :: int]) = Inr (JFloat False (Fin m)) \<and> 1 \<le> m \<and> m \<le> 4"
  using mean_within_range [of "[1, 2, 4]"] by simp

end
