(* ===== verification/AgentState.thy ===== *)
theory AgentState
  imports Json
begin

text \<open>
  The harness of \<^verbatim>\<open>examples/stateful_agent.py\<close> that carries variables by name from one turn of an agent to the next: a prelude
  that restores the saved namespace, the agent's code and an epilogue that saves it. The values, which of them are modules or
  callables, and \<^verbatim>\<open>pickle\<close> are parameters; the agent is a function on its globals and files that leaves the names of the harness alone.
\<close>

type_synonym 'v namespace = "(string, 'v) dict"

text \<open>What the harness needs of the interpreter: which values are skipped, and \<^verbatim>\<open>pickle\<close>.\<close>

record 'v interp =
  skipped :: "'v \<Rightarrow> bool"       \<comment> \<open>a module, or \<^verbatim>\<open>callable\<close>\<close>
  pickles :: "'v \<Rightarrow> bool"       \<comment> \<open>\<^verbatim>\<open>pickle.dumps\<close> does not raise\<close>
  dump_ns :: "'v namespace \<Rightarrow> byte list"
  load_ns :: "byte list \<Rightarrow> 'v namespace option"

definition ns_file :: string where
  "ns_file = ''ns.pkl''"

text \<open>The prelude: no file is a first turn.\<close>

definition restore_ns :: "'v interp \<Rightarrow> (string, byte list) dict \<Rightarrow> 'v namespace \<Rightarrow> exn + 'v namespace" where
  "restore_ns it fs g =
     (case map_of fs ns_file of
        None \<Rightarrow> Inr g
      | Some b \<Rightarrow> (case load_ns it b of
          None \<Rightarrow> Inl (OtherErr ''UnpicklingError'')
        | Some d \<Rightarrow> Inr (dict_update g d)))"

text \<open>The loop of the epilogue.\<close>

fun keep_vars :: "'v interp \<Rightarrow> 'v namespace \<Rightarrow> 'v namespace \<Rightarrow> 'v namespace" where
  "keep_vars it [] keep = keep"
| "keep_vars it ((k, v) # g) keep =
     (if k \<noteq> [] \<and> hd k = CHR ''_'' then keep_vars it g keep
      else if skipped it v then keep_vars it g keep
      else if \<not> pickles it v then keep_vars it g keep
      else keep_vars it g (dict_put k v keep))"

definition capture_ns :: "'v interp \<Rightarrow> 'v namespace \<Rightarrow> (string, byte list) dict \<Rightarrow> (string, byte list) dict" where
  "capture_ns it g fs = dict_put ns_file (dump_ns it (keep_vars it g [])) fs"

text \<open>
  One turn, \<^verbatim>\<open>with_stdlib_harness(agent_code)\<close> in a fresh process with the globals \<open>g0\<close>: an exception of the agent ends the
  process before the epilogue.
\<close>

definition harness_turn :: "'v interp \<Rightarrow> ('v namespace \<Rightarrow> (string, byte list) dict \<Rightarrow> (exn + 'v namespace) \<times> (string, byte list) dict) \<Rightarrow>
    'v namespace \<Rightarrow> (string, byte list) dict \<Rightarrow> (exn + 'v namespace) \<times> (string, byte list) dict" where
  "harness_turn it agent g0 fs =
     (case restore_ns it fs g0 of
        Inl e \<Rightarrow> (Inl e, fs)
      | Inr g \<Rightarrow> (case agent g fs of
          (Inl e, fs') \<Rightarrow> (Inl e, fs')
        | (Inr g', fs') \<Rightarrow> (Inr g', capture_ns it g' fs')))"

section \<open>Variables survive by name\<close>

definition carried :: "'v interp \<Rightarrow> string \<Rightarrow> 'v \<Rightarrow> bool" where
  "carried it k v \<longleftrightarrow> \<not> (k \<noteq> [] \<and> hd k = CHR ''_'') \<and> \<not> skipped it v \<and> pickles it v"

lemma keep_vars_filter:
  "distinct (map fst (keep @ g)) \<Longrightarrow> keep_vars it g keep = keep @ filter (\<lambda>(k, v). carried it k v) g"
proof (induction it g keep rule: keep_vars.induct)
  case (2 it k v g keep)
  then show ?case by (auto simp: carried_def dict_put_fresh image_iff)
qed simp

text \<open>\<^verbatim>\<open>pickle\<close> gives back what it was given, for dictionaries of values it accepts.\<close>

definition pickle_round_trip :: "'v interp \<Rightarrow> bool" where
  "pickle_round_trip it \<longleftrightarrow> (\<forall>d. dict_ok d \<and> list_all (\<lambda>p. pickles it (snd p)) d \<longrightarrow> load_ns it (dump_ns it d) = Some d)"

lemma pickle_codec: "pickle_round_trip it \<Longrightarrow> codec (dump_ns it) (load_ns it) (\<lambda>d. dict_ok d \<and> list_all (\<lambda>p. pickles it (snd p)) d)"
  by unfold_locales (simp add: pickle_round_trip_def)

lemma map_of_filter_distinct:
  "dict_ok g \<Longrightarrow> map_of (filter (\<lambda>(k, v). P k v) g) k = (case map_of g k of None \<Rightarrow> None | Some v \<Rightarrow> if P k v then Some v else None)"
  by (induction g) (auto simp: dict_ok_def map_of_eq_None_iff image_iff split: option.splits)

lemma restored_variables:
  assumes "pickle_round_trip it" "harness_turn it agent g0 fs = (Inr g, fs')" "dict_ok g"
  shows "\<exists>b kept. map_of fs' ns_file = Some b \<and> load_ns it b = Some kept \<and>
    (\<forall>g1 k. map_of (dict_update g1 kept) k = (case map_of g k of
        Some v \<Rightarrow> if carried it k v then Some v else map_of g1 k
      | None \<Rightarrow> map_of g1 k))"
proof -
  let ?kept = "filter (\<lambda>(k, v). carried it k v) g"
  from assms(2) obtain fs1 where fs': "fs' = capture_ns it g fs1"
    by (auto simp: harness_turn_def split: sum.splits prod.splits)
  have keep: "keep_vars it g [] = ?kept"
    using keep_vars_filter [of "[]" g it] assms(3) by (simp add: dict_ok_def)
  have ok: "dict_ok ?kept"
    using assms(3) by (induction g) (auto simp: dict_ok_def image_iff)
  have "list_all (\<lambda>p. pickles it (snd p)) ?kept" by (auto simp: list_all_iff carried_def)
  with ok assms(1) have "load_ns it (dump_ns it ?kept) = Some ?kept" by (simp add: pickle_round_trip_def)
  moreover have "map_of fs' ns_file = Some (dump_ns it ?kept)"
    by (simp add: fs' capture_ns_def keep)
  moreover have "map_of (dict_update g1 ?kept) k = (case map_of g k of
        Some v \<Rightarrow> if carried it k v then Some v else map_of g1 k
      | None \<Rightarrow> map_of g1 k)" for g1 k
    using map_of_dict_update [OF ok, of g1] map_of_filter_distinct [OF assms(3), of "carried it" k]
    by (simp add: map_add_def split: option.splits)
  ultimately show ?thesis by blast
qed

text \<open>
  The variables of a turn are found by name in the next: after a turn that ended normally, the code of a following turn starts, in
  any fresh process that gets the files, with exactly the values that the variables had, for every name without a leading
  underscore whose value is data that \<^verbatim>\<open>pickle\<close> accepts, and with the fresh globals for every other name, functions
  included.
\<close>

lemma variables_survive:
  assumes "pickle_round_trip it" "harness_turn it agent g0 fs = (Inr g, fs')" "dict_ok g"
  shows "\<exists>g2. restore_ns it fs' g1 = Inr g2 \<and>
    (\<forall>k. map_of g2 k = (case map_of g k of
        Some v \<Rightarrow> if carried it k v then Some v else map_of g1 k
      | None \<Rightarrow> map_of g1 k))"
proof -
  from restored_variables [OF assms(1-3)] obtain b kept where "map_of fs' ns_file = Some b" "load_ns it b = Some kept"
    and look: "\<And>k. map_of (dict_update g1 kept) k = (case map_of g k of
        Some v \<Rightarrow> if carried it k v then Some v else map_of g1 k
      | None \<Rightarrow> map_of g1 k)" by blast
  then have "restore_ns it fs' g1 = Inr (dict_update g1 kept)" by (simp add: restore_ns_def)
  with look show ?thesis by blast
qed

section \<open>A small interpreter\<close>

text \<open>Values are JSON documents, \<open>JNull\<close> stands for a function, and a namespace is pickled as its document.\<close>

definition json_interp :: "json interp" where
  "json_interp = \<lparr>skipped = \<lambda>v. v = JNull, pickles = printable,
     dump_ns = \<lambda>d. map (\<lambda>c. of_nat (of_char c)) (json_dumps (JObj d)),
     load_ns = \<lambda>b. (case json_loads (map (\<lambda>x. char_of (unat x)) b) of Some (JObj d) \<Rightarrow> Some d | _ \<Rightarrow> None)\<rparr>"

lemma chars_bytes: "map (\<lambda>x. char_of (unat x)) (map (\<lambda>c. of_nat (of_char c) :: byte) s) = s"
proof -
  have "unat (of_nat (of_char c) :: byte) = of_char c" for c :: char
    by (simp add: unat_of_nat take_bit_eq_mod)
  then show ?thesis by (simp add: o_def map_idI)
qed

lemma json_interp_pickles: "pickle_round_trip json_interp"
  unfolding pickle_round_trip_def
proof (intro allI impI)
  fix d :: "json namespace"
  assume "dict_ok d \<and> list_all (\<lambda>p. pickles json_interp (snd p)) d"
  then have "json_loads (json_dumps (JObj d)) = Some (JObj d)" by (intro json_loads_dumps) (simp add: json_interp_def)
  then show "load_ns json_interp (dump_ns json_interp d) = Some d"
    by (simp only: json_interp_def interp.simps chars_bytes option.case json.case)
qed

interpretation json_pickle: codec "dump_ns json_interp" "load_ns json_interp" "\<lambda>d. dict_ok d \<and> list_all (\<lambda>p. pickles json_interp (snd p)) d"
  by (rule pickle_codec [OF json_interp_pickles])

definition toy_agent :: "json namespace \<Rightarrow> (string, byte list) dict \<Rightarrow> (exn + json namespace) \<times> (string, byte list) dict" where
  "toy_agent g fs = (Inr (dict_put ''last_answer'' (JInt 14) (dict_put ''bump'' JNull g)), fs)"

lemma variables_survive_example:
  "\<exists>g2. restore_ns json_interp (snd (harness_turn json_interp toy_agent [] [])) [(''bump'', JStr ''fresh'')] = Inr g2 \<and>
    map_of g2 ''last_answer'' = Some (JInt 14) \<and> map_of g2 ''bump'' = Some (JStr ''fresh'')"
proof -
  obtain fs' where run: "harness_turn json_interp toy_agent [] [] = (Inr [(''bump'', JNull), (''last_answer'', JInt 14)], fs')"
    by (simp add: harness_turn_def restore_ns_def toy_agent_def)
  have "dict_ok [(''bump'', JNull), (''last_answer'', JInt 14)]" by (simp add: dict_ok_def)
  from variables_survive [OF json_interp_pickles run this, of "[(''bump'', JStr ''fresh'')]"] obtain g2 where
    g2: "restore_ns json_interp fs' [(''bump'', JStr ''fresh'')] = Inr g2"
    and look: "\<And>k. map_of g2 k = (case map_of [(''bump'', JNull), (''last_answer'', JInt 14)] k of
        Some v \<Rightarrow> if carried json_interp k v then Some v else map_of [(''bump'', JStr ''fresh'')] k
      | None \<Rightarrow> map_of [(''bump'', JStr ''fresh'')] k)" by blast
  have "carried json_interp ''last_answer'' (JInt 14)" "\<not> carried json_interp ''bump'' JNull"
    by (simp_all add: carried_def json_interp_def)
  with look [of "''last_answer''"] look [of "''bump''"] g2 run show ?thesis by simp
qed

end
