(* ===== verification/UseCases.thy ===== *)
theory UseCases
  imports PoolCluster Session
begin

text \<open>
  How services hold a pool: the \<^verbatim>\<open>with\<close> blocks of pools and sessions, the life of a service from
  \<^verbatim>\<open>start\<close> to \<^verbatim>\<open>close\<close> or to a signal, and the scripts of \<^verbatim>\<open>examples/\<close> that show it
  (\<^verbatim>\<open>cleanup_and_leaks.py\<close>, \<^verbatim>\<open>hardening.py\<close>, \<^verbatim>\<open>use_in_service.py\<close>, \<^verbatim>\<open>sessions_and_checkpoints.py\<close>).
\<close>

section \<open>The with block of a pool\<close>

definition pool_enter :: "'c kube \<Rightarrow> ('c pool, unit) py" where
  "pool_enter kb = andThen (start kb) (\<lambda>_. ret ())"

definition pool_exit :: "'c kube \<Rightarrow> ('c pool, unit) py" where
  "pool_exit kb = close_pool kb"

text \<open>An entry that raises is not left; \<^verbatim>\<open>__exit__\<close> returns \<^verbatim>\<open>None\<close>, so an exception of the body goes on.\<close>

definition with_pool :: "'c kube \<Rightarrow> ('c pool, 'a) py \<Rightarrow> ('c pool, 'a) py" where
  "with_pool kb body = andThen (pool_enter kb) (\<lambda>_. tryFinally body (pool_exit kb))"

text \<open>The other calls of the API create no pods.\<close>

definition quiet_setup :: "'c kube \<Rightarrow> ('c \<Rightarrow> string set) \<Rightarrow> bool" where
  "quiet_setup kb pods \<longleftrightarrow>
     (\<forall>np c. pods (snd (k_create_np kb np c)) \<subseteq> pods c) \<and> (\<forall>np c. pods (snd (k_replace_np kb np c)) \<subseteq> pods c)"

lemma ensure_network_policy_pods:
  assumes "quiet_setup kb pods" "ensure_network_policy kb p = (r, q)"
  shows "pods (cluster q) \<subseteq> pods (cluster p)"
proof -
  let ?np = "egress_policy (cfg p)"
  obtain x c where x: "k_create_np kb ?np (cluster p) = (x, c)" by fastforce
  obtain y e where y: "k_replace_np kb ?np c = (y, e)" by fastforce
  from assms(1) x y have "pods c \<subseteq> pods (cluster p)" "pods e \<subseteq> pods c"
    unfolding quiet_setup_def by (metis snd_conv)+
  moreover from assms(2) x y have "cluster q \<in> {c, e}"
    by (auto simp: ensure_network_policy_def py_defs on_cluster_def split: sum.splits if_splits)
  ultimately show ?thesis by blast
qed

lemma warm_pods:
  assumes "pod_contract kb pods" "warm kb p = (Inr rep, q)" "pods (cluster p) = {}" "free_q p = []"
  shows "pods (cluster q) \<subseteq> w_name ` set (free_q q)"
proof -
  obtain r t where t: "spawn_loop kb (nat (pool_size (cfg p))) [] p = (r, t)" by fastforce
  with assms(2) obtain ws whys where r: "r = Inr (ws, whys)"
    by (cases r) (auto simp: warm_def py_defs)
  from spawn_loop_pods [OF assms(1) t [unfolded r], of "{}"] assms(3) have "pods (cluster t) \<subseteq> w_name ` set ws" by simp
  moreover from spawn_loop_frame [OF t] assms(4) have "free_q t = []" by auto
  ultimately show ?thesis
    using assms(2) t r by (auto simp: warm_def py_defs on_cluster_def split: if_splits prod.splits sum.splits)
qed

text \<open>With \<^verbatim>\<open>reclaim_on_start\<close> the orphans of an earlier run are gone after a start.\<close>

lemma reclaimed_start:
  assumes "pod_contract kb pods" "api_up kb" "honest_clock kb" "quiet_setup kb pods"
    and "\<not> is_started p" "free_q p = []" "reclaim_on_start (cfg p)" "start kb p = (Inr rep, q)"
  shows "pods (cluster q) \<subseteq> w_name ` set (free_q q)"
proof -
  let ?ns = "if manage_namespace (cfg p) then ensure_namespace kb else ret ()"
  let ?np = "if manage_network_policy (cfg p) then ensure_network_policy kb else ret ()"
  from assms(5,7,8) obtain p1 p2 p3 p4 where
    steps: "install_cleanup_hooks kb p = (Inr (), p1)" "?ns p1 = (Inr (), p2)"
      "delete_workers kb p2 = (Inr (), p3)" "?np p3 = (Inr (), p4)" and warm: "warm kb p4 = (Inr rep, q)"
    by (auto simp: start_def reads_andThen elim!: andThen_cases)
  have "keeps (frame p) (install_cleanup_hooks kb)" "keeps (frame p) ?ns" "keeps (frame p) (delete_workers kb)" "keeps (frame p) ?np"
    by (intro py_intros)+
  with steps have "frame p p4" by (meson frame_refl keepsD)
  then have free: "free_q p4 = []" using assms(6) by (simp add: frame_def)
  obtain c where c: "delete_workers kb p2 = (Inr (), p2\<lparr>cluster := c\<rparr>)" "pods c = {}"
    by (rule delete_workers_all [OF assms(1-3)])
  from c(1) steps(3) have "p3 = p2\<lparr>cluster := c\<rparr>" by simp
  with c(2) have "pods (cluster p3) = {}" by simp
  moreover have "pods (cluster p4) \<subseteq> pods (cluster p3)"
    using steps(4) ensure_network_policy_pods [OF assms(4)] by (cases "manage_network_policy (cfg p)") (auto simp: ret_def)
  ultimately show ?thesis using warm_pods [OF assms(1) warm _ free] by simp
qed

lemma with_pool_closes:
  assumes "pod_contract kb pods" "api_up kb" "honest_clock kb" "pool_enter kb p = (Inr (), q)"
  shows "\<exists>p'. with_pool kb body p = (fst (body q), p') \<and> pods (cluster p') = {} \<and> free_q p' = [] \<and> is_closed p'"
proof -
  obtain r t where t: "body q = (r, t)" by fastforce
  obtain c where "close_pool kb t = (Inr (), t\<lparr>is_closed := True, cluster := c, free_q := []\<rparr>)" "pods c = {}"
    by (rule close_leaves_none [OF assms(1-3)])
  with assms(4) t show ?thesis by (simp add: with_pool_def andThen_def tryFinally_def pool_exit_def)
qed


section \<open>cleanup\_and\_leaks.py\<close>

text \<open>A pool on its own configuration, as far as its construction does not raise.\<close>

definition with_config :: "sandbox_config \<Rightarrow> ('c pool, 'a) py \<Rightarrow> 'c \<Rightarrow> exn + (exn + 'a) \<times> 'c pool" where
  "with_config cf body c = (case new_pool cf c of Inl e \<Rightarrow> Inl e | Inr p \<Rightarrow> Inr (body p))"

definition graceful_with_block :: "'c kube \<Rightarrow> ('c pool, unit) py" where
  "graceful_with_block kb = tryExcept
     (with_pool kb (andThen (reads stats) (\<lambda>_. throw (OtherErr ''RuntimeError''))))
     (\<lambda>e. if e = OtherErr ''RuntimeError'' then ret () else throw e)"

definition auto_cleanup_on_signal :: "'c kube \<Rightarrow> ('c pool, unit) py" where
  "auto_cleanup_on_signal kb = andThen (start kb) (\<lambda>_. updates (\<lambda>p. p\<lparr>cluster := k_sleep kb 2 (cluster p)\<rparr>))"

definition idle_self_termination :: "'c kube \<Rightarrow> ('c pool, unit) py" where
  "idle_self_termination kb = andThen (start kb) (\<lambda>_. andThen (reads stats) (\<lambda>_. close_pool kb))"

definition reclaim_orphans :: "'c kube \<Rightarrow> ('c pool, int) py" where
  "reclaim_orphans kb = with_pool kb (andThen (reads stats) (\<lambda>st. ret (st_placed st)))"

definition cleanup_configs :: "sandbox_config list" where
  "cleanup_configs = [default_config\<lparr>pool_size := 2\<rparr>, default_config\<lparr>pool_size := 1\<rparr>,
     default_config\<lparr>pool_size := 1, idle_shutdown_s := Some 20\<rparr>, default_config\<lparr>pool_size := 1, reclaim_on_start := True\<rparr>]"

text \<open>What differs from the defaults only in settings that are not bounded, or keeps their bounds, is valid.\<close>

lemma default_like_valid:
  assumes "cpu_request cf = cpu_request default_config" "cpu_limit cf = cpu_limit default_config"
    "memory_request cf = memory_request default_config" "memory_limit cf = memory_limit default_config"
    "interpreter cf \<noteq> []" "scratch_dir cf \<noteq> []" "min_pool_size cf = None" "acquire_timeout_s cf = None"
    "1 \<le> pool_size cf" "1 \<le> max_uses cf" "0 < default_timeout_s cf" "\<forall>t. idle_shutdown_s cf = Some t \<longrightarrow> 0 < t"
  shows "validate cf = Inr []"
proof -
  have "check_resources cf = check_resources default_config"
    unfolding check_resources_def assms(1-4) by (rule refl)
  with default_resources have "check_resources cf = Inr []" by simp
  with assms(5-) show ?thesis by (auto simp: validate_def split: option.splits)
qed

lemma cleanup_configs_valid: "\<forall>cf \<in> set cleanup_configs. validate cf = Inr []"
  by (auto simp: cleanup_configs_def default_config_def intro!: default_like_valid)

lemma cleanup_pools_built:
  assumes "cf \<in> set cleanup_configs"
  shows "\<exists>p. with_config cf body c = Inr (body p) \<and> cfg p = cf \<and> \<not> is_started p \<and> free_q p = [] \<and> cluster p = c"
proof -
  have "validate cf = Inr []" using cleanup_configs_valid assms by blast
  then show ?thesis by (auto simp: with_config_def new_pool_def intro: exI [of _ "the_pool" for the_pool])
qed

text \<open>The crash in the body of the first script is caught outside and leaves nothing behind.\<close>

lemma graceful_leaves_nothing:
  assumes "pod_contract kb pods" "api_up kb" "honest_clock kb" "pool_enter kb p = (Inr (), q)"
  shows "\<exists>p'. graceful_with_block kb p = (Inr (), p') \<and> pods (cluster p') = {}"
proof -
  let ?body = "andThen (reads stats) (\<lambda>_. throw (OtherErr ''RuntimeError'')) :: ('a pool, unit) py"
  have "fst (?body q) = Inl (OtherErr ''RuntimeError'')" by (simp add: reads_andThen throw_def)
  with with_pool_closes [OF assms, of ?body] show ?thesis
    by (auto simp: graceful_with_block_def tryExcept_def ret_def)
qed

text \<open>
  Without a \<^verbatim>\<open>with\<close> block the second script relies on the hooks: the signal handler and the exit of the interpreter close
  the pool, and the handler ends the process as the handler before it would have.
\<close>

lemma signal_leaves_nothing:
  assumes "pod_contract kb pods" "api_up kb" "honest_clock kb"
  shows "\<exists>out p'. handle_sigterm kb signum p = (Inr out, p') \<and> pods (cluster p') = {} \<and> is_closed p' \<and>
    out = (case prev_sigterm p of Some SigCallable \<Rightarrow> Chained | Some SigIgnore \<Rightarrow> Ignored | _ \<Rightarrow> SystemExit (128 + signum))"
proof -
  obtain c where "close_pool kb p = (Inr (), p\<lparr>is_closed := True, cluster := c, free_q := []\<rparr>)" "pods c = {}"
    by (rule close_leaves_none [OF assms])
  then show ?thesis by (simp add: handle_sigterm_def atexit_close_def py_defs)
qed

section \<open>hardening.py\<close>

definition hardened_config :: sandbox_config where
  "hardened_config = default_config\<lparr>pool_size := 5, runtime_class := Some ''gvisor'',
     egress_proxy := Some ''http://egress-proxy.sandbox.svc:3128'', max_uses := 1, default_timeout_s := 10\<rparr>"

text \<open>The configuration is valid, its workers run under gVisor with the proxy in their environment, and none serves twice.\<close>

lemma hardened_valid: "validate hardened_config = Inr []"
  by (rule default_like_valid) (simp_all add: hardened_config_def default_config_def)

lemma hardened_worker:
  "runtime_class_name (build_worker_pod hardened_config nm) = Some ''gvisor'' \<and>
   (\<forall>c \<in> set (containers (build_worker_pod hardened_config nm)).
      map_of (ctr_env c) ''HTTPS_PROXY'' = Some ''http://egress-proxy.sandbox.svc:3128'' \<and> sc_read_only_root (security c) \<and>
      run_as_non_root (security c) \<and> drop_capabilities (security c) = Some [''ALL'']) \<and>
   egress_allowed (egress_policy hardened_config) None proto port = (port = 53)"
  by (cases proto) (auto simp: hardened_config_def default_config_def build_worker_pod_def egress_policy_def egress_allowed_def)

lemma hardened_single_use:
  assumes "reachable kb hardened_config (p, h, d)" "w \<in> set (free_q p)"
  shows "w_uses w < 1"
proof -
  from reachable_inv [OF assms(1)] have "cfg p = hardened_config" "inv_uses (p, h, d)" by (simp_all add: pool_inv_def)
  with assms(2) have "w_uses w < max_uses hardened_config" by (auto simp: inv_uses_def)
  then show ?thesis by (simp add: hardened_config_def default_config_def)
qed

lemma hardened_retires:
  assumes "cfg p = hardened_config" "0 \<le> w_uses w"
  shows "release kb w retire clean p = (Inr (), p\<lparr>tasks := tasks p @ [ReplaceTask (w\<lparr>w_uses := w_uses w + 1\<rparr>)]\<rparr>)"
proof -
  have "max_uses hardened_config = 1" by (simp add: hardened_config_def default_config_def)
  with assms show ?thesis
    by (simp add: release_def clock_def reads_andThen andThen_def reads_def Let_def spent_def start_task_def updates_def)
qed

section \<open>use\_in\_service.py\<close>

definition service_config :: sandbox_config where
  "service_config = default_config\<lparr>pool_size := 5, max_uses := 25, default_timeout_s := 15\<rparr>"

definition boot :: "'c kube \<Rightarrow> ('c pool, unit) py" where
  "boot kb = andThen (start kb) (\<lambda>_. ret ())"

text \<open>The reply to a request; a duration is the nearest float of the rounded seconds.\<close>

definition result_json :: "json run_result \<Rightarrow> json" where
  "result_json r = JObj [(''ok'', JBool (ok r)), (''stdout'', JStr (stdout r)), (''stderr'', JStr (stderr r)),
     (''exit_code'', case exit_code r of None \<Rightarrow> JNull | Some i \<Rightarrow> JInt i), (''timed_out'', JBool (timed_out r)),
     (''duration_s'', JFloat (duration_s r < 0) (to_float \<bar>duration_s r\<bar>)), (''sandbox_id'', JStr (sandbox_id r))]"

definition handle_request :: "'c kube \<Rightarrow> string \<Rightarrow> string \<Rightarrow> ('c pool, json) py" where
  "handle_request kb user_code user_token =
     andThen (run kb user_code (Some 10) CollectNone (Some [(''USER_TOKEN'', user_token)]) []) (\<lambda>r. ret (result_json r))"

definition shutdown :: "'c kube \<Rightarrow> ('c pool, unit) py" where
  "shutdown kb = close_pool kb"

text \<open>\<^verbatim>\<open>main\<close> around the work it does on the warm pool; with its \<^verbatim>\<open>finally\<close> it is a \<^verbatim>\<open>with\<close> block.\<close>

definition service_main :: "'c kube \<Rightarrow> ('c pool, 'a) py \<Rightarrow> ('c pool, 'a) py" where
  "service_main kb work = andThen (boot kb) (\<lambda>_. tryFinally work (shutdown kb))"

lemma service_is_with_block: "service_main kb = with_pool kb"
  by (simp add: fun_eq_iff service_main_def with_pool_def boot_def pool_enter_def shutdown_def pool_exit_def)

lemma service_config_valid: "validate service_config = Inr []"
  by (rule default_like_valid) (simp_all add: service_config_def default_config_def)

text \<open>A request that comes after the shutdown is refused.\<close>

lemma request_after_shutdown:
  "is_closed p \<Longrightarrow> handle_request kb c tok p = (Inl (SandboxPoolClosed ''run() called on a closed pool''), p)"
  by (simp add: handle_request_def run_def dispatch_def py_defs)

section \<open>sessions\_and\_checkpoints.py\<close>

text \<open>The \<^verbatim>\<open>with\<close> block of a session; a session whose entry raises is not closed.\<close>

definition with_session :: "'c kube \<Rightarrow> (string, byte list) dict \<Rightarrow> ('c session, 'a) py \<Rightarrow> ('c pool, 'a) py" where
  "with_session kb restore body p =
     (case andThen (session_enter kb) (\<lambda>_. tryFinally body (session_close kb)) (session_new p restore) of
        (r, s) \<Rightarrow> (r, s_pool s))"

definition quoted :: "string \<Rightarrow> string" where
  "quoted s = CHR 0x27 # s @ [CHR 0x27]"

text \<open>\<^verbatim>\<open>open(file, mode).write(line)\<close>, the line with the escape that ends it.\<close>

definition write_code :: "string \<Rightarrow> string \<Rightarrow> string \<Rightarrow> string" where
  "write_code file mode line =
     ''open('' @ quoted file @ '', '' @ quoted mode @ '').write('' @ quoted (line @ [CHR 0x5C, CHR ''n'']) @ '')''"

definition hello_line :: string where
  "hello_line = ''def hello(): return '' @ [CHR 0x22] @ ''hi from step 1'' @ [CHR 0x22]"

definition in_session :: "'c kube \<Rightarrow> string \<Rightarrow> ('c session, json run_result) py" where
  "in_session kb code = session_run kb code None CollectNone None []"

definition shared_workspace :: "'c kube \<Rightarrow> ('c pool, unit) py" where
  "shared_workspace kb = with_session kb []
     (andThen (in_session kb (write_code ''greet.py'' ''w'' hello_line)) (\<lambda>_.
      andThen (in_session kb ''import greet; print(greet.hello())'') (\<lambda>_.
      andThen (session_shell kb ''wc -l < greet.py'' None CollectNone None []) (\<lambda>_.
      andThen (in_session kb ''x = 42'') (\<lambda>_.
      andThen (in_session kb (''print('' @ quoted ''x'' @ '' in dir())'')) (\<lambda>_. ret ()))))))"

definition checkpoint_across_turns :: "'c kube \<Rightarrow> (member list \<Rightarrow> 'blob) \<Rightarrow> ('c pool, 'blob) py" where
  "checkpoint_across_turns kb tar = with_session kb []
     (andThen (in_session kb (write_code ''progress.txt'' ''w'' ''step 1 done'')) (\<lambda>_.
      andThen (in_session kb (write_code ''progress.txt'' ''a'' ''step 2 done'')) (\<lambda>_.
      checkpoint kb tar None)))"

text \<open>\<^verbatim>\<open>pool.resume(blob)\<close> may raise before there is a session.\<close>

definition resume_from_checkpoint :: "'c kube \<Rightarrow> (member list \<Rightarrow> 'blob) \<Rightarrow> ('blob \<Rightarrow> exn + member list) \<Rightarrow> 'blob \<Rightarrow> ('c pool, unit) py" where
  "resume_from_checkpoint kb tar untar blob p =
     (case resume untar blob p of
        Inl e \<Rightarrow> (Inl e, p)
      | Inr s \<Rightarrow> with_session kb (s_restore s)
          (andThen (in_session kb (''print(open('' @ quoted ''progress.txt'' @ '').read().strip())'')) (\<lambda>_.
           andThen (in_session kb (write_code ''progress.txt'' ''a'' ''step 3 done'')) (\<lambda>_.
           andThen (checkpoint kb tar None) (\<lambda>_. ret ())))) p)"

text \<open>
  A body that drives its session through its methods only: whatever it returns or raises, it has made some sequence of calls and
  checkpoints.
\<close>

definition drives :: "'c kube \<Rightarrow> ('c session, 'a) py \<Rightarrow> bool" where
  "drives kb body \<longleftrightarrow> (\<forall>s. \<exists>opers. snd (body s) = fold (session_do kb) opers s)"

lemma drives_ret [py_intros]: "drives kb (ret x)"
  and drives_throw [py_intros]: "drives kb (throw e)"
  and drives_reads [py_intros]: "drives kb (reads g)"
  unfolding drives_def by (intro allI exI [of _ "[]"], simp add: py_defs)+

lemma drives_call [py_intros]: "drives kb (session_call kb argv t k env input)"
  unfolding drives_def by (intro allI exI [of _ "[Call argv t k env input]"]) simp

lemma drives_checkpoint [py_intros]: "drives kb (checkpoint kb tar t)"
  unfolding drives_def
proof
  fix s
  have "snd (checkpoint kb tar t s) = snd (checkpoint kb id t s)"
    by (auto simp: checkpoint_def andThen_def throw_def ret_def split: prod.splits sum.splits if_splits)
  then show "\<exists>opers. snd (checkpoint kb tar t s) = fold (session_do kb) opers s"
    by (intro exI [of _ "[Checkpoint t]"]) simp
qed

lemma drives_andThen [py_intros]:
  assumes "drives kb m" "\<And>x. drives kb (f x)"
  shows "drives kb (andThen m f)"
  unfolding drives_def
proof
  fix s
  obtain r t where m: "m s = (r, t)" by fastforce
  with assms(1) obtain xs where xs: "t = fold (session_do kb) xs s" unfolding drives_def by (metis snd_conv)
  show "\<exists>opers. snd (andThen m f s) = fold (session_do kb) opers s"
  proof (cases r)
    case (Inl e)
    with m xs show ?thesis by (auto simp: andThen_def)
  next
    case (Inr x)
    from assms(2) obtain ys where "snd (f x t) = fold (session_do kb) ys t" unfolding drives_def by blast
    with m xs Inr show ?thesis by (intro exI [of _ "xs @ ys"]) (simp add: andThen_def)
  qed
qed

lemma drives_run [py_intros]: "drives kb (session_run kb code t k env input)"
  unfolding session_run_def by (intro py_intros)

lemma drives_shell [py_intros]: "drives kb (session_shell kb code t k env input)"
  unfolding session_shell_def by (intro py_intros)

lemma drives_in_session [py_intros]: "drives kb (in_session kb code)"
  unfolding in_session_def by (intro py_intros)

text \<open>Closing a session never raises.\<close>

lemma session_close_returns: "\<exists>s'. session_close kb s = (Inr (), s')"
  by (auto simp: session_close_def on_pool_def retire_worker_def start_task_def release_def clock_def put_free_def
    py_defs Let_def split: option.splits)

text \<open>So the \<^verbatim>\<open>with\<close> block is a life of the session, of which the theorem on sessions speaks.\<close>

lemma with_session_is_life:
  assumes "drives kb body"
  shows "\<exists>opers. snd (with_session kb restore body p) = s_pool (session_life kb opers (session_new p restore))"
proof -
  obtain r s where enter: "session_enter kb (session_new p restore) = (r, s)" by fastforce
  show ?thesis
  proof (cases r)
    case (Inl e)
    with enter show ?thesis by (simp add: with_session_def session_life_def andThen_def)
  next
    case (Inr u)
    obtain q t where body: "body s = (q, t)" by fastforce
    with assms obtain xs where xs: "t = fold (session_do kb) xs s" unfolding drives_def by (metis snd_conv)
    obtain t' where close: "session_close kb t = (Inr (), t')" using session_close_returns by blast
    have "snd (with_session kb restore body p) = s_pool t'"
      using enter Inr body close by (simp add: with_session_def andThen_def tryFinally_def)
    with enter Inr xs close show ?thesis by (intro exI [of _ xs]) (simp add: session_life_def)
  qed
qed

text \<open>In particular the three functions of the script.\<close>

lemma script_lives:
  "\<exists>opers. snd (shared_workspace kb p) = s_pool (session_life kb opers (session_new p []))"
  "\<exists>opers. snd (checkpoint_across_turns kb tar p) = s_pool (session_life kb opers (session_new p []))"
  unfolding shared_workspace_def checkpoint_across_turns_def by (intro with_session_is_life py_intros)+

lemma resume_script_life:
  "snd (resume_from_checkpoint kb tar untar blob p) = p \<or>
    (\<exists>opers restore. snd (resume_from_checkpoint kb tar untar blob p) = s_pool (session_life kb opers (session_new p restore)))"
proof (cases "resume untar blob p")
  case (Inr s)
  have "\<exists>opers. snd (with_session kb (s_restore s)
          (andThen (in_session kb (''print(open('' @ quoted ''progress.txt'' @ '').read().strip())'')) (\<lambda>_.
           andThen (in_session kb (write_code ''progress.txt'' ''a'' ''step 3 done'')) (\<lambda>_.
           andThen (checkpoint kb tar None) (\<lambda>_. ret ())))) p) = s_pool (session_life kb opers (session_new p (s_restore s)))"
    by (intro with_session_is_life py_intros)
  with Inr show ?thesis unfolding resume_from_checkpoint_def by auto
qed (simp add: resume_from_checkpoint_def)

section \<open>On the toy cluster\<close>

definition orphan_pool :: "toy pool" where
  "orphan_pool = toy_pool\<lparr>cfg := toy_config\<lparr>reclaim_on_start := True\<rparr>, cluster := toy_start\<lparr>live := [''box-7'']\<rparr>\<rparr>"

lemma calm_quiet: "quiet_setup calm_kube (\<lambda>c. set (live c))"
  by (simp add: quiet_setup_def calm_kube_def toy_kube_def)


end
