(* ===== verification/Machine.thy ===== *)
theory Machine
  imports Session Collect
begin

text \<open>
  A cluster whose pods have file systems: on top of any Kubernetes API the scripts of the library and the
  commands of the callers run on the workspace of the pod they are sent to. The pool on this cluster is the
  composition of all the parts. The theory shows that runs are isolated: a free worker has an empty workspace, so
  that a run gives what it would give alone.
\<close>

section \<open>The machines\<close>

text \<open>What a process leaves: its output, the text of the error channel and the workspace.\<close>

record process =
  pr_out :: string
  pr_err :: string
  pr_status :: string
  pr_tree :: entries

text \<open>
  The parameters: the API, the transport (the conversation made of an output, which may fail in any way), how the standard
  input arrives, the commands, and the container outside the workspace.
\<close>

record 'b site =
  st_kube :: "'b kube"
  st_wire :: "string \<Rightarrow> string \<Rightarrow> string \<Rightarrow> 'b \<Rightarrow> conversation \<times> 'b"
  st_cut :: "string \<Rightarrow> 'b \<Rightarrow> string list"
  st_prog :: "string list \<Rightarrow> entries \<Rightarrow> process"
  st_outside :: container

type_synonym 'b world = "'b \<times> (string \<Rightarrow> entries)"

definition good_status :: string where
  "good_status = json_dumps (JObj [(''status'', JStr ''Success'')])"

definition bad_status :: string where
  "bad_status = json_dumps (JObj [(''status'', JStr ''Failure''), (''details'', JObj [(''causes'',
     JArr [JObj [(''reason'', JStr ''ExitCode''), (''message'', JStr ''1'')]])])])"

definition run_process :: "'b site \<Rightarrow> command \<Rightarrow> entries \<Rightarrow> process" where
  "run_process st cmd es =
     (case cmd of
        Argv argv \<Rightarrow> st_prog st argv es
      | CleanerScript dir \<Rightarrow> (case cleaner es of (out, es') \<Rightarrow>
          \<lparr>pr_out = out, pr_err = [], pr_status = good_status, pr_tree = es'\<rparr>)
      | CollectorScript dir want maxb \<Rightarrow>
          \<lparr>pr_out = collector_output (collector (st_outside st) want maxb es), pr_err = [], pr_status = good_status, pr_tree = es\<rparr>)"

definition run_uploader :: "container \<Rightarrow> string list \<Rightarrow> entries \<Rightarrow> process" where
  "run_uploader ct inp es =
     (case uploader ct inp es of
        (None, es') \<Rightarrow> \<lparr>pr_out = ''UPLOAD_OK'' @ [CHR 0x0A], pr_err = [], pr_status = good_status, pr_tree = es'\<rparr>
      | (Some e, es') \<Rightarrow> \<lparr>pr_out = [], pr_err = ''Traceback'', pr_status = bad_status, pr_tree = es'\<rparr>)"

text \<open>A process in a pod: the conversation on its websocket and the world afterwards.\<close>

definition in_pod :: "'b site \<Rightarrow> string \<Rightarrow> process \<Rightarrow> 'b world \<Rightarrow> conversation \<times> 'b world" where
  "in_pod st nm pr = (\<lambda>(b, fs). case st_wire st (pr_out pr) (pr_err pr) (pr_status pr) b of
     (cv, b') \<Rightarrow> (cv, (b', fs(nm := pr_tree pr))))"

definition lifted :: "('b, 'a) py \<Rightarrow> ('b world, 'a) py" where
  "lifted m = (\<lambda>(b, fs). case m b of (r, b') \<Rightarrow> (r, (b', fs)))"

text \<open>A new pod has an empty workspace (an \<^verbatim>\<open>emptyDir\<close> volume).\<close>

definition machine_kube :: "'b site \<Rightarrow> 'b world kube" where
  "machine_kube st = (let kb = st_kube st in \<lparr>
     k_now = \<lambda>(b, fs). k_now kb b,
     k_sleep = \<lambda>d (b, fs). (k_sleep kb d b, fs),
     k_create_pod = \<lambda>p (b, fs). case k_create_pod kb p b of
        (Inr u, b') \<Rightarrow> (Inr u, (b', fs(pod_name p := [])))
      | (Inl e, b') \<Rightarrow> (Inl e, (b', fs)),
     k_delete_pod = \<lambda>n. lifted (k_delete_pod kb n),
     k_read_pod = \<lambda>n. lifted (k_read_pod kb n),
     k_list_pods = \<lambda>sel. lifted (k_list_pods kb sel),
     k_watch = \<lambda>n t. lifted (k_watch kb n t),
     k_exec = \<lambda>n cmd (b, fs). in_pod st n (run_process st cmd (fs n)) (b, fs),
     k_upload = \<lambda>n input (b, fs). in_pod st n (run_uploader (st_outside st) (st_cut st (upload_frame input) b) (fs n)) (b, fs),
     k_list_ns = lifted (k_list_ns kb),
     k_create_ns = \<lambda>n. lifted (k_create_ns kb n),
     k_create_np = \<lambda>np. lifted (k_create_np kb np),
     k_replace_np = \<lambda>np. lifted (k_replace_np kb np),
     k_hook_sigterm = lifted (k_hook_sigterm kb)\<rparr>)"

lemma machine_simps [simp]:
  "k_now (machine_kube st) c = k_now (st_kube st) (fst c)"
  "k_sleep (machine_kube st) d c = (k_sleep (st_kube st) d (fst c), snd c)"
  "k_delete_pod (machine_kube st) n = lifted (k_delete_pod (st_kube st) n)"
  "k_read_pod (machine_kube st) n = lifted (k_read_pod (st_kube st) n)"
  "k_list_pods (machine_kube st) sel = lifted (k_list_pods (st_kube st) sel)"
  "k_watch (machine_kube st) n t = lifted (k_watch (st_kube st) n t)"
  "k_list_ns (machine_kube st) = lifted (k_list_ns (st_kube st))"
  "k_create_ns (machine_kube st) n = lifted (k_create_ns (st_kube st) n)"
  "k_create_np (machine_kube st) np = lifted (k_create_np (st_kube st) np)"
  "k_replace_np (machine_kube st) np = lifted (k_replace_np (st_kube st) np)"
  "k_hook_sigterm (machine_kube st) = lifted (k_hook_sigterm (st_kube st))"
  "k_exec (machine_kube st) n cmd c = in_pod st n (run_process st cmd (snd c n)) c"
  "k_upload (machine_kube st) n input c =
     in_pod st n (run_uploader (st_outside st) (st_cut st (upload_frame input) (fst c)) (snd c n)) c"
  by (simp_all add: machine_kube_def Let_def split: prod.splits)

section \<open>What happens to the workspaces\<close>

text \<open>Only a workspace can change that is emptied.\<close>

definition emptied :: "(string \<Rightarrow> entries) \<Rightarrow> 'b world \<Rightarrow> bool" where
  "emptied fs c \<longleftrightarrow> (\<forall>n. snd c n = fs n \<or> snd c n = [])"

lemma emptied_refl [simp]: "emptied (snd c) c"
  by (simp add: emptied_def)

lemma emptied_trans: "emptied (snd c) d \<Longrightarrow> emptied fs c \<Longrightarrow> emptied fs d"
  unfolding emptied_def by metis

lemma emptied_lifted [py_intros]: "keeps (emptied fs) (lifted m)"
  by (auto simp: keeps_def lifted_def emptied_def split: prod.splits)

lemma emptied_create [py_intros]: "keeps (emptied fs) (k_create_pod (machine_kube st) p)"
  by (auto simp: keeps_def machine_kube_def Let_def emptied_def split: prod.splits sum.splits)

lemma emptied_poll: "emptied fs c \<Longrightarrow> emptied fs (snd (delete_poll (machine_kube st) nm dl n c))"
proof (induction n arbitrary: c)
  case 0
  then show ?case by (simp add: throw_def)
next
  case (Suc n)
  obtain r b where r: "k_read_pod (st_kube st) nm (fst c) = (r, b)" by fastforce
  have "emptied fs (b, snd c)" "emptied fs (k_sleep (st_kube st) (1 / 5) b, snd c)"
    using Suc.prems by (simp_all add: emptied_def)
  with Suc r show ?case by (cases c) (auto simp: lifted_def split: sum.splits exn.splits)
qed

lemma emptied_delete [py_intros]: "keeps (emptied fs) (delete_pod (machine_kube st) nm)"
  unfolding keeps_def
proof (intro allI impI)
  fix c :: "'a world"
  assume c: "emptied fs c"
  obtain r b where r: "k_delete_pod (st_kube st) nm (fst c) = (r, b)" by fastforce
  have "emptied fs (b, snd c)" using c by (simp add: emptied_def)
  with r emptied_poll [OF this] show "emptied fs (snd (delete_pod (machine_kube st) nm c))"
    by (cases c) (auto simp: delete_pod_def lifted_def split: sum.splits exn.splits)
qed

lemma emptied_deletes [py_intros]: "keeps (emptied fs) (delete_pods (machine_kube st) nms)"
  by (induction nms) (auto intro!: py_intros)

lemma emptied_sum [py_intros]:
  "(\<And>e. keeps P (f e)) \<Longrightarrow> (\<And>x. keeps P (g x)) \<Longrightarrow> keeps P (case z of Inl e \<Rightarrow> f e | Inr x \<Rightarrow> g x)"
  by (cases z) auto

lemma emptied_wait [py_intros]: "keeps (emptied fs) (wait_placed (machine_kube st) cf nm)"
  unfolding wait_placed_def machine_simps by (intro py_intros) (auto split: prod.splits intro!: py_intros)

lemma emptied_place [py_intros]: "keeps (emptied fs) (place_worker (machine_kube st) cf nm)"
  unfolding place_worker_def by (intro py_intros)

lemma placed_empty:
  assumes "place_worker (machine_kube st) cf nm c = (Inr (Inl w), c')"
  shows "snd c' nm = []"
proof -
  let ?kb = "machine_kube st"
  from assms [unfolded place_worker_def] obtain d1 where
    rest: "andThen (tryExcept (andThen (k_create_pod ?kb (build_worker_pod cf nm)) (\<lambda>_. ret None))
       (\<lambda>e. if e = ApiErr 403 then ret (Some ''admission rejected (quota exhausted)'') else throw e)) (\<lambda>refused.
     case refused of
       Some why \<Rightarrow> ret (Inr why)
     | None \<Rightarrow>
         andThen (tryExcept (wait_placed ?kb cf nm)
           (\<lambda>e. andThen (delete_pod ?kb nm) (\<lambda>_. throw e))) (\<lambda>placed_ok.
         if placed_ok then
           andThen (reads (k_now ?kb)) (\<lambda>now.
           ret (Inl \<lparr>w_name = nm, w_created = now, w_uses = 0\<rparr>))
         else andThen (delete_pod ?kb nm) (\<lambda>_. ret (Inr ''unschedulable'')))) d1 = (Inr (Inl w), c')"
    by (rule andThen_cases) blast+
  obtain q d2 where q: "k_create_pod ?kb (build_worker_pod cf nm) d1 = (q, d2)" by (meson surj_pair)
  with rest have "q = Inr ()" by (cases q) (auto simp: py_defs split: if_splits)
  with q have made: "snd d2 nm = []"
    by (auto simp: machine_kube_def Let_def build_worker_pod_def split: prod.splits sum.splits)
  obtain v d3 where v: "wait_placed ?kb cf nm d2 = (v, d3)" by (meson surj_pair)
  from rest q \<open>q = Inr ()\<close> v have "c' = d3"
    by (cases v) (auto simp: py_defs split: if_splits prod.splits sum.splits)
  moreover have "emptied (snd d2) d3" by (rule keepsD [OF emptied_wait _ v]) simp
  ultimately show ?thesis using made unfolding emptied_def by metis
qed

text \<open>The same for the pool on top of it.\<close>

definition workspaces :: "'b world pool \<Rightarrow> string \<Rightarrow> entries" where
  "workspaces p = snd (cluster p)"

definition only_emptied :: "(string \<Rightarrow> entries) \<Rightarrow> 'b world pool \<Rightarrow> bool" where
  "only_emptied fs p \<longleftrightarrow> emptied fs (cluster p)"

lemma only_emptied_refl [simp]: "only_emptied (workspaces p) p"
  by (simp add: only_emptied_def workspaces_def)

lemma only_emptied_run: "keeps (only_emptied (workspaces p)) m \<Longrightarrow> m p = (r, q) \<Longrightarrow> only_emptied (workspaces p) q"
  by (elim keepsD) (rule only_emptied_refl)

lemma only_emptied_cluster [py_intros]: "keeps (emptied fs) m \<Longrightarrow> keeps (only_emptied fs) (on_cluster m)"
  unfolding keeps_def on_cluster_def only_emptied_def by (simp add: case_prod_beta del: split_paired_All)

lemma only_emptied_updates [py_intros]: "(\<And>p. cluster (g p) = cluster p) \<Longrightarrow> keeps (only_emptied fs) (updates g)"
  by (simp add: keeps_def updates_def only_emptied_def)

lemma only_emptied_workers [py_intros]: "keeps (only_emptied fs) (delete_workers (machine_kube st))"
  unfolding delete_workers_def machine_simps by (intro py_intros) (auto split: exn.splits intro!: py_intros)

lemma only_emptied_namespace [py_intros]: "keeps (only_emptied fs) (ensure_namespace (machine_kube st))"
  unfolding ensure_namespace_def machine_simps by (intro py_intros)

lemma only_emptied_policy [py_intros]: "keeps (only_emptied fs) (ensure_network_policy (machine_kube st))"
  unfolding ensure_network_policy_def machine_simps by (intro py_intros)

lemma only_emptied_hooks [py_intros]: "keeps (only_emptied fs) (install_cleanup_hooks (machine_kube st))"
  by (auto simp: keeps_def install_cleanup_hooks_def only_emptied_def emptied_def lifted_def split: prod.splits sum.splits exn.splits)

lemma only_emptied_try_spawn [py_intros]: "keeps (only_emptied fs) (try_spawn (machine_kube st))"
  unfolding try_spawn_def by (intro py_intros) (auto split: prod.splits intro!: py_intros)

lemma only_emptied_spawn [py_intros]: "keeps (only_emptied fs) (spawn (machine_kube st))"
  unfolding spawn_def by (intro py_intros)

lemma only_emptied_loop [py_intros]: "keeps (only_emptied fs) (spawn_loop (machine_kube st) n ws)"
  by (induction n arbitrary: ws) (auto intro!: py_intros split: sum.splits)

lemma only_emptied_start: "start (machine_kube st) p = (r, q) \<Longrightarrow> only_emptied (workspaces p) q"
proof -
  have "keeps (only_emptied (workspaces p)) (warm (machine_kube st))"
    unfolding warm_def by (intro py_intros) (auto split: prod.splits intro!: py_intros)
  then have "keeps (only_emptied (workspaces p)) (start (machine_kube st))"
    unfolding start_def by (intro py_intros) (auto split: prod.splits intro!: py_intros)
  then show "start (machine_kube st) p = (r, q) \<Longrightarrow> ?thesis" by (rule only_emptied_run)
qed

lemma spawned_empty:
  assumes "try_spawn (machine_kube st) p = (Inr (Inl w), q)"
  shows "workspaces q (w_name w) = []"
proof -
  have place: "place_worker (machine_kube st) (cfg p) (worker_name (cfg p) (Suc (serial p))) (cluster p) = (Inr (Inl w), cluster q)"
    using assms by (auto simp: try_spawn_def py_defs on_cluster_def split: prod.splits)
  from placed_empty [OF this] place_worker_result [OF place] show ?thesis by (simp add: workspaces_def)
qed

lemma loop_empty:
  "spawn_loop (machine_kube st) n ws p = (Inr (ws', whys), q) \<Longrightarrow> \<forall>w \<in> set ws. workspaces p (w_name w) = [] \<Longrightarrow>
    \<forall>w \<in> set ws'. workspaces q (w_name w) = []"
proof (induction n arbitrary: ws p)
  case 0
  then show ?case by (simp add: ret_def)
next
  case (Suc n)
  from Suc.prems(1) [unfolded spawn_loop.simps] show ?case
  proof (cases rule: andThen_cases)
    case (cont x t)
    have "only_emptied (workspaces p) t" by (rule keepsD [OF only_emptied_try_spawn _ cont(1)]) simp
    then have kept: "\<forall>w \<in> set ws. workspaces t (w_name w) = []"
      using Suc.prems(2) unfolding only_emptied_def emptied_def workspaces_def by metis
    show ?thesis
    proof (cases x)
      case (Inl w)
      with cont(1) spawned_empty kept have "\<forall>v \<in> set (ws @ [w]). workspaces t (w_name v) = []" by auto
      with Suc.IH [of "ws @ [w]" t] cont(2) Inl show ?thesis by simp
    next
      case (Inr why)
      with cont(2) kept show ?thesis by (simp add: ret_def)
    qed
  qed simp
qed

lemma warm_empty:
  assumes "warm (machine_kube st) p = (r, q)" "w \<in> set (free_q q)" "w \<notin> set (free_q p)"
  shows "workspaces q (w_name w) = []"
proof -
  obtain x t where t: "spawn_loop (machine_kube st) (nat (pool_size (cfg p))) [] p = (x, t)" by (meson surj_pair)
  have same: "free_q t = free_q p" "cfg t = cfg p" using spawn_loop_frame [OF t] by auto
  have undo: "free_q (snd (on_cluster m t)) = free_q p" for m :: "('a world, unit) py"
    by (simp add: on_cluster_def same split: prod.splits)
  obtain ws whys where x: "x = Inr (ws, whys)" and q: "q = t\<lparr>free_q := free_q t @ ws,
         start_rep := Some \<lparr>requested = pool_size (cfg p), placed = int (length ws), reasons = whys\<rparr>, is_started := True\<rparr>"
  proof (cases x)
    case (Inl e)
    with assms t same show thesis by (simp add: warm_def py_defs)
  next
    case (Inr y)
    obtain ws whys where y: "y = (ws, whys)" by (cases y)
    show thesis
    proof (cases "int (length ws) < pool_floor (cfg p)")
      case True
      with assms(1) t Inr y have "andThen (on_cluster (delete_pods (machine_kube st) (map w_name ws)))
          (\<lambda>_. throw (SandboxStartupErr ''below min_pool_size'') :: ('a world pool, pool_start_report option) py) t = (r, q)"
        by (simp add: warm_def andThen_def [of "reads cfg"] andThen_def [of "spawn_loop _ _ _"] reads_def)
      then have "free_q q = free_q p"
        using undo [of "delete_pods (machine_kube st) (map w_name ws)"] by (auto simp: throw_def elim!: andThen_cases)
      with assms show thesis by simp
    next
      case False
      with assms(1) t Inr y have "q = t\<lparr>free_q := free_q t @ ws,
         start_rep := Some \<lparr>requested = pool_size (cfg p), placed = int (length ws), reasons = whys\<rparr>, is_started := True\<rparr>"
        by (simp add: warm_def py_defs)
      with Inr y that show thesis by blast
    qed
  qed
  from q same assms(2,3) have "w \<in> set ws" by simp
  moreover have "workspaces q = workspaces t" by (simp add: q workspaces_def)
  ultimately show ?thesis using loop_empty [OF t [unfolded x]] by simp
qed

lemma start_empty:
  assumes "start (machine_kube st) p = (r, q)" "w \<in> set (free_q q)" "w \<notin> set (free_q p)"
  shows "workspaces q (w_name w) = []"
proof (cases "is_started p")
  case True
  with assms show ?thesis by (simp add: start_def reads_andThen reads_def)
next
  case False
  let ?kb = "machine_kube st"
  define prep where "prep = andThen (install_cleanup_hooks ?kb) (\<lambda>_.
       andThen (if manage_namespace (cfg p) then ensure_namespace ?kb else ret ()) (\<lambda>_.
       andThen (if reclaim_on_start (cfg p) then delete_workers ?kb else ret ()) (\<lambda>_.
       if manage_network_policy (cfg p) then ensure_network_policy ?kb else ret ())))"
  have run: "andThen prep (\<lambda>_. warm ?kb) p = (r, q)"
    using assms(1) False unfolding prep_def by (simp add: start_def reads_andThen andThen_assoc)
  have keep: "keeps (frame p) prep" unfolding prep_def by (intro py_intros)
  from run show ?thesis
  proof (cases rule: andThen_cases)
    case (raised e)
    with keepsD [OF keep frame_refl raised(1)] assms(2,3) show ?thesis by (simp add: frame_def)
  next
    case (cont x t)
    from keepsD [OF keep frame_refl cont(1)] have "free_q t = free_q p" by (simp add: frame_def)
    with warm_empty [OF cont(2) assms(2)] assms(3) show ?thesis by simp
  qed
qed

section \<open>Workspaces the owner can remove\<close>

lemma erasable_dict_put:
  "erasable t \<Longrightarrow> erasable_all es \<Longrightarrow> erasable_all (dict_put n t es)"
  by (induction n t es rule: dict_put.induct) auto

lemma erasable_map_of: "erasable_all es \<Longrightarrow> map_of es n = Some t \<Longrightarrow> erasable t"
  by (induction es) (auto split: if_splits)

lemma dict_put_not_Nil [simp]: "dict_put n t es \<noteq> []"
  by (cases es) (auto split: prod.splits if_splits)

lemma erasable_put_file:
  "put_file p b w x es = (r, es') \<Longrightarrow> erasable_all es \<Longrightarrow> es = [] \<or> w \<and> x \<Longrightarrow>
    erasable_all es' \<and> (es' = [] \<or> w \<and> x)"
proof (induction p b w x es arbitrary: r es' rule: put_file.induct)
  case (2 n b w x es)
  then show ?case
    by (auto split: if_splits option.splits node.splits intro!: erasable_dict_put)
next
  case (3 d d' ds b w x es)
  show ?case
  proof (cases "map_of es d")
    case None
    obtain q sub where q: "put_file (d' # ds) b True True [] = (q, sub)" by fastforce
    have "erasable_all sub" if "w" "x" using "3.IH"(1) [OF None _ q] that by simp
    with "3.prems" None q show ?thesis by (auto split: if_splits intro!: erasable_dict_put)
  next
    case (Some t)
    show ?thesis
    proof (cases t)
      case (NDir r' w' x' sub)
      obtain q sub' where q: "put_file (d' # ds) b w' x' sub = (q, sub')" by fastforce
      have "erasable t" by (rule erasable_map_of [OF "3.prems"(2) Some])
      with NDir have dir: "r'" "erasable_all sub" "sub = [] \<or> w' \<and> x'" by auto
      have new: "erasable (NDir r' w' x' sub')" if "x" using "3.IH"(2) [OF Some NDir that q dir(2,3)] dir(1) by auto
      have "es \<noteq> []" using Some by auto
      with "3.prems" Some NDir q new show ?thesis by (auto split: if_splits intro!: erasable_dict_put)
    qed (use "3.prems" Some in auto)
  qed
qed simp

text \<open>Nothing outside the workspace makes it one that the owner cannot remove; nor does a command.\<close>

definition tidy :: "'b site \<Rightarrow> bool" where
  "tidy st \<longleftrightarrow>
     (\<forall>argv es. erasable_all es \<longrightarrow> erasable_all (pr_tree (st_prog st argv es))) \<and>
     (\<forall>rel b es. erasable_all es \<longrightarrow> erasable_all (snd (o_write (st_outside st) rel b es)))"

lemma erasable_write:
  assumes "tidy st" "erasable_all es"
  shows "erasable_all (snd (write_rel (st_outside st) rel b es))"
proof -
  have out: "erasable_all (snd (o_write (st_outside st) rel b es))" using assms by (simp add: tidy_def)
  show ?thesis
  proof (cases "ws_path rel")
    case (Some p)
    obtain r es' where r: "put_file p b True True es = (r, es')" by fastforce
    with erasable_put_file [OF r assms(2)] Some out show ?thesis by (cases r) (simp_all add: write_rel_def)
  qed (simp add: write_rel_def out)
qed

lemma erasable_members:
  "tidy st \<Longrightarrow> erasable_all es \<Longrightarrow> erasable_all (snd (upload_members (st_outside st) ms es))"
proof (induction ms arbitrary: es)
  case (Cons m ms)
  obtain rel v where m: "m = (rel, v)" by (cases m)
  have one: "erasable_all es'" if "write_rel (st_outside st) rel b es = (r, es')" for b r es'
    using erasable_write [OF Cons.prems, of rel b] that by simp
  show ?case
    using Cons.IH [OF Cons.prems(1)] one by (auto simp: m split: option.splits prod.splits)
qed simp

lemma erasable_upload: "tidy st \<Longrightarrow> erasable_all es \<Longrightarrow> erasable_all (pr_tree (run_uploader (st_outside st) inp es))"
proof -
  assume laws: "tidy st" "erasable_all es"
  then have "erasable_all (snd (uploader (st_outside st) inp es))"
    by (auto simp: uploader_def erasable_members split: prod.splits option.splits json.splits)
  then show ?thesis by (auto simp: run_uploader_def split: prod.splits option.splits)
qed

lemma erasable_process: "tidy st \<Longrightarrow> erasable_all es \<Longrightarrow> erasable_all (pr_tree (run_process st cmd es))"
proof (cases cmd)
  case (CleanerScript dir)
  moreover assume "erasable_all es"
  then have "snd (cleaner es) = []" by (cases es) (auto simp: cleaner_def purge_empty)
  ultimately show ?thesis by (cases "cleaner es") (simp add: run_process_def)
qed (simp_all add: run_process_def tidy_def)

lemma cleaned_process: "erasable_all es \<Longrightarrow> pr_tree (run_process st (CleanerScript dir) es) = []"
  by (cases es) (auto simp: run_process_def cleaner_def purge_empty split: prod.splits)

text \<open>What an operation on one pod does to the workspaces.\<close>

definition only_in :: "string \<Rightarrow> (string \<Rightarrow> entries) \<Rightarrow> 'b world \<Rightarrow> bool" where
  "only_in nm fs c \<longleftrightarrow> (\<forall>n. n \<noteq> nm \<longrightarrow> snd c n = fs n) \<and> erasable_all (snd c nm)"

lemma only_in_command [py_intros]:
  "tidy st \<Longrightarrow> w_name w = nm \<Longrightarrow> keeps (only_in nm fs) (run_command (machine_kube st) w cmd t)"
  by (auto simp: keeps_def run_command_def in_pod_def only_in_def erasable_process split: prod.splits)

lemma only_in_upload [py_intros]:
  "tidy st \<Longrightarrow> w_name w = nm \<Longrightarrow> keeps (only_in nm fs) (upload (machine_kube st) w input t)"
  by (auto simp: keeps_def upload_def in_pod_def only_in_def erasable_upload split: prod.splits option.splits)

lemma only_in_clean [py_intros]:
  "tidy st \<Longrightarrow> w_name w = nm \<Longrightarrow> keeps (only_in nm fs) (clean_workspace (machine_kube st) cf w t)"
  unfolding clean_workspace_def by (intro py_intros) (auto split: prod.splits intro!: py_intros)

lemma only_in_collect [py_intros]:
  "tidy st \<Longrightarrow> w_name w = nm \<Longrightarrow> keeps (only_in nm fs) (collect (machine_kube st) cf w k t)"
  unfolding collect_def by (intro py_intros) (auto split: prod.splits option.splits sum.splits intro!: py_intros)

lemma only_in_exec [py_intros]:
  "tidy st \<Longrightarrow> w_name w = nm \<Longrightarrow> keeps (only_in nm fs) (exec_on_worker (machine_kube st) cf w argv t k env input clean)"
  unfolding exec_on_worker_def by (intro py_intros emptied_sum) (auto split: prod.splits intro!: py_intros)

section \<open>Isolation\<close>

text \<open>
  The steps of the pool on the machines: as \<open>pool_step\<close>, but what happens to a workspace is what the library and
  the commands of its holder do. Time passes and the rest of the cluster changes at any point.
\<close>

inductive box_step :: "'b site \<Rightarrow> 'b world sys \<Rightarrow> 'b world sys \<Rightarrow> bool" for st where
  box_start: "start (machine_kube st) p = (r, p') \<Longrightarrow> box_step st (p, h, d) (p', h, d)"
| box_lease: "lease (machine_kube st) p = (Inr w, p') \<Longrightarrow> box_step st (p, h, d) (p', w # h, insert (w_name w) d)"
| box_no_worker: "lease (machine_kube st) p = (Inl e, p') \<Longrightarrow> box_step st (p, h, d) (p', h, d)"
| box_use: "w \<in> set h \<Longrightarrow> exec_on_worker (machine_kube st) (cfg p) w argv t k env input clean (cluster p) = (r, c) \<Longrightarrow>
    box_step st (p, h, d) (p\<lparr>cluster := c\<rparr>, h, d)"
| box_prepare: "w \<in> set h \<Longrightarrow> prep_workspace (machine_kube st) (cfg p) w restore (cluster p) = (r, c) \<Longrightarrow>
    box_step st (p, h, d) (p\<lparr>cluster := c\<rparr>, h, d)"
| box_collect: "w \<in> set h \<Longrightarrow> collect (machine_kube st) (cfg p) w k t (cluster p) = (r, c) \<Longrightarrow>
    box_step st (p, h, d) (p\<lparr>cluster := c\<rparr>, h, d)"
| box_elapse: "box_step st (p, h, d) (p\<lparr>cluster := (b, workspaces p)\<rparr>, h, d)"
| box_release: "w \<in> set h \<Longrightarrow> clean \<noteq> Some False \<Longrightarrow> release (machine_kube st) w retire clean p = (r, p') \<Longrightarrow>
    box_step st (p, h, d) (p', remove1 w h, d)"
| box_retire: "w \<in> set h \<Longrightarrow> retire_worker w p = (r, p') \<Longrightarrow> box_step st (p, h, d) (p', remove1 w h, d)"
| box_thread: "i < length (tasks p) \<Longrightarrow>
    box_step st (p, h, d) (thread_step (machine_kube st) i p, h, d - wiped (machine_kube st) i p)"
| box_close: "close_pool (machine_kube st) p = (r, p') \<Longrightarrow> box_step st (p, h, d) (p', h, d)"

definition box_reachable :: "'b site \<Rightarrow> sandbox_config \<Rightarrow> 'b world sys \<Rightarrow> bool" where
  "box_reachable st cf s \<longleftrightarrow> (\<exists>b p. new_pool cf (b, \<lambda>_. []) = Inr p \<and> (box_step st)\<^sup>*\<^sup>* (p, [], {}) s)"

lemma box_pool_step: "box_step st s s' \<Longrightarrow> pool_step (machine_kube st) s s'"
  by (induction rule: box_step.induct) (auto intro: pool_step.intros)

definition tree_inv :: "'b world sys \<Rightarrow> bool" where
  "tree_inv = (\<lambda>(p, h, d). (\<forall>n. erasable_all (workspaces p n)) \<and>
     (fresh_workdir_per_run (cfg p) \<longrightarrow>
       (\<forall>w \<in> set (free_q p) \<union> set (concat (map ready_worker (tasks p))). workspaces p (w_name w) = [])))"

lemma tree_inv_emptied:
  assumes "tree_inv (p, h, d)" "only_emptied (workspaces p) p'" "cfg p' = cfg p"
    and "\<And>w. w \<in> set (free_q p') \<union> set (concat (map ready_worker (tasks p'))) \<Longrightarrow> fresh_workdir_per_run (cfg p) \<Longrightarrow>
      w \<in> set (free_q p) \<union> set (concat (map ready_worker (tasks p))) \<or> workspaces p' (w_name w) = []"
  shows "tree_inv (p', h', d')"
proof -
  have trees: "workspaces p' n = workspaces p n \<or> workspaces p' n = []" for n
    using assms(2) by (simp add: only_emptied_def emptied_def workspaces_def)
  have "erasable_all (workspaces p' n)" for n using trees [of n] assms(1) by (auto simp: tree_inv_def)
  moreover have "workspaces p' (w_name w) = []"
    if "fresh_workdir_per_run (cfg p)" "w \<in> set (free_q p') \<union> set (concat (map ready_worker (tasks p')))" for w
    using assms(4) [OF that(2,1)]
  proof
    assume "w \<in> set (free_q p) \<union> set (concat (map ready_worker (tasks p)))"
    with assms(1) that(1) have "workspaces p (w_name w) = []" unfolding tree_inv_def prod.case by blast
    with trees [of "w_name w"] show ?thesis by auto
  qed
  ultimately show ?thesis using assms(3) by (simp add: tree_inv_def)
qed

lemma tree_inv_used:
  assumes "tree_inv (p, h, d)" "only_in (w_name w) (workspaces p) c" "w \<in> set h" "distinct (map w_name (owned p h))"
  shows "tree_inv (p\<lparr>cluster := c\<rparr>, h, d)"
proof -
  have other: "snd c n = workspaces p n" if "n \<noteq> w_name w" for n using assms(2) that by (simp add: only_in_def)
  have "erasable_all (snd c n)" for n
    using other [of n] assms(1,2) by (cases "n = w_name w") (auto simp: tree_inv_def only_in_def)
  moreover have "w_name v \<noteq> w_name w" if "v \<in> set (free_q p) \<union> set (concat (map ready_worker (tasks p)))" for v
  proof -
    have "set (concat (map ready_worker ts)) \<subseteq> set (concat (map task_worker ts))" for ts
    proof (induction ts)
      case (Cons t ts)
      then show ?case by (cases t) auto
    qed simp
    with that have "w_name v \<in> w_name ` (set (free_q p) \<union> set (concat (map task_worker (tasks p))))" by blast
    moreover have "w_name w \<in> w_name ` set h" using assms(3) by (rule imageI)
    moreover have "w_name ` (set (free_q p) \<union> set (concat (map task_worker (tasks p)))) \<inter> w_name ` set h = {}"
      using assms(4) by (auto simp: owned_def image_Un)
    ultimately show ?thesis by (metis disjoint_iff)
  qed
  ultimately show ?thesis using assms(1) other by (simp add: tree_inv_def workspaces_def)
qed

lemma clean_emptied:
  assumes "clean_workspace (machine_kube st) cf w t c = (r, c')" "erasable_all (snd c (w_name w))"
  shows "snd c' = (snd c)(w_name w := [])"
  using assms
  by (auto simp: clean_workspace_def run_command_def in_pod_def py_defs cleaned_process split: prod.splits sum.splits if_splits)

lemma task_emptied:
  assumes "task_step (machine_kube st) t p = (r, q)" "\<And>n. erasable_all (workspaces p n)"
  shows "only_emptied (workspaces p) q \<and> (\<forall>w. r = Inr (Some (PutBack w)) \<longrightarrow> workspaces q (w_name w) = [])"
proof (cases t)
  case (Cleaning w)
  have wipe: "snd c = (workspaces p)(w_name w := [])"
    if "clean_workspace (machine_kube st) (cfg p) w (max (default_timeout_s (cfg p)) 15) (cluster p) = (x, c)" for x c
    using clean_emptied [OF that] assms(2) by (simp add: workspaces_def)
  from assms(1) [unfolded Cleaning] show ?thesis
    by (cases rule: task_step_Cleaning) (auto dest!: wipe simp: only_emptied_def emptied_def workspaces_def)
next
  case (ReplaceTask w)
  have "keeps (only_emptied (workspaces p)) (replace_delete (machine_kube st) w)"
    unfolding replace_delete_def by (intro py_intros) auto
  from only_emptied_run [OF this, of r q] assms(1) ReplaceTask have "only_emptied (workspaces p) q" by (simp add: task_step_def)
  moreover from assms(1) [unfolded ReplaceTask] have "r \<noteq> Inr (Some (PutBack w))" for w
    by (cases rule: task_step_ReplaceTask) auto
  ultimately show ?thesis by blast
next
  case (Spawning n)
  have "keeps (only_emptied (workspaces p)) (replace_spawn (machine_kube st) n)"
    unfolding replace_spawn_def by (intro py_intros) (auto simp: emptied_def only_emptied_def)
  from only_emptied_run [OF this, of r q] assms(1) Spawning have kept: "only_emptied (workspaces p) q"
    by (simp add: task_step_def)
  have "workspaces q (w_name w) = []" if r: "r = Inr (Some (PutBack w))" for w
  proof -
    obtain x p1 where x: "try_spawn (machine_kube st) p = (x, p1)" by (meson surj_pair)
    with assms(1) Spawning r have "x = Inr (Inl w) \<and> q = p1"
      by (auto simp: task_step_def replace_spawn_def spawn_def py_defs split: sum.splits if_splits prod.splits)
    with x spawned_empty show ?thesis by auto
  qed
  with kept show ?thesis by blast
qed (use assms in \<open>auto simp: task_step_CleanTask task_step_PutBack task_step_Attempt only_emptied_def emptied_def workspaces_def split: if_splits\<close>)

lemma thread_step_trees:
  assumes "i < length (tasks p)" "tree_inv (p, h, d)"
  shows "tree_inv (thread_step (machine_kube st) i p, h, d')"
proof -
  let ?kb = "machine_kube st"
  define q where "q = p\<lparr>tasks := take i (tasks p) @ drop (Suc i) (tasks p)\<rparr>"
  obtain r s where run: "task_step ?kb (tasks p ! i) q = (r, s)" by (meson surj_pair)
  have result: "thread_step ?kb i p = (case r of Inr (Some t) \<Rightarrow> s\<lparr>tasks := tasks s @ [t]\<rparr> | _ \<Rightarrow> s)"
    using run by (simp add: thread_step_def Let_def q_def split: sum.splits option.splits)
  have "workspaces q = workspaces p" by (simp add: q_def workspaces_def)
  with task_emptied [OF run] assms(2) have one: "only_emptied (workspaces p) s"
    "\<And>w. r = Inr (Some (PutBack w)) \<Longrightarrow> workspaces s (w_name w) = []" by (auto simp: tree_inv_def)
  obtain fq ts n sp rt c where p': "thread_step ?kb i p = after_step i p fq ts n sp rt c" and mv: "moved ?kb i p fq ts n"
    using thread_step_effect [of ?kb i p] by blast
  have trees: "workspaces (thread_step ?kb i p) = workspaces s"
    unfolding result by (simp add: workspaces_def split: sum.split option.split)
  show ?thesis
  proof (rule tree_inv_emptied [OF assms(2)])
    show "only_emptied (workspaces p) (thread_step ?kb i p)"
      using one(1) trees by (simp add: only_emptied_def emptied_def workspaces_def)
    show "cfg (thread_step ?kb i p) = cfg p" by (simp add: p' after_step_def)
    fix w assume w: "w \<in> set (free_q (thread_step ?kb i p)) \<union> set (concat (map ready_worker (tasks (thread_step ?kb i p))))"
    have old: "set (concat (map ready_worker (tasks p))) = set (ready_worker (tasks p ! i)) \<union>
        set (concat (map ready_worker (take i (tasks p) @ drop (Suc i) (tasks p))))"
      by (rule set_concat_after [OF assms(1)])
    from w have "w \<in> set (free_q p) \<union> set (concat (map ready_worker (tasks p))) \<or> w \<in> set fq \<union> set (concat (map ready_worker ts))"
      unfolding old by (auto simp: p' after_step_def)
    moreover have "w \<in> set (ready_worker (tasks p ! i)) \<or> workspaces (thread_step ?kb i p) (w_name w) = []"
      if "w \<in> set fq \<union> set (concat (map ready_worker ts))"
    proof (cases "w \<in> set fq")
      case True
      with mv have "tasks p ! i = PutBack w" by (cases "tasks p ! i") (auto simp: moved_def)
      then show ?thesis by simp
    next
      case False
      with that have "\<exists>t. t \<in> set ts \<and> w \<in> set (ready_worker t)" by auto
      then obtain t where t: "t \<in> set ts" "t = PutBack w" by (metis empty_iff empty_set ready_worker.simps set_ConsD task.exhaust)
      with mv have ts: "ts = [PutBack w]" by (cases "tasks p ! i") (auto simp: moved_def)
      have tail: "tasks (thread_step ?kb i p) = tasks q @ [PutBack w]" by (simp add: p' after_step_def q_def ts)
      have "r = Inr (Some (PutBack w))"
        using run tail mv unfolding result ts
        by (cases "tasks p ! i")
          (auto simp: moved_def task_step_CleanTask task_step_PutBack task_step_Attempt split: sum.splits option.splits if_splits
            elim!: task_step_Cleaning task_step_ReplaceTask task_step_Spawning)
      with one(2) trees show ?thesis by simp
    qed
    ultimately show "w \<in> set (free_q p) \<union> set (concat (map ready_worker (tasks p))) \<or>
        workspaces (thread_step ?kb i p) (w_name w) = []"
      unfolding old by blast
  qed
qed

lemma close_emptied: "close_pool (machine_kube st) p = (r, q) \<Longrightarrow> only_emptied (workspaces p) q \<and> set (free_q q) \<subseteq> set (free_q p) \<and> tasks q = tasks p \<and> cfg q = cfg p"
proof -
  assume run: "close_pool (machine_kube st) p = (r, q)"
  have "keeps (only_emptied (workspaces p)) (close_pool (machine_kube st))"
    unfolding close_pool_def by (intro py_intros) auto
  from only_emptied_run [OF this run] frame_close [OF run] show ?thesis by auto
qed

definition box_inv :: "'b site \<Rightarrow> sandbox_config \<Rightarrow> 'b world sys \<Rightarrow> bool" where
  "box_inv st cf s \<longleftrightarrow> tidy st \<and> pool_inv cf s \<and> tree_inv s"

lemma box_inv_step:
  assumes "box_inv st cf s" "box_step st s s'"
  shows "box_inv st cf s'"
proof -
  from assms have laws: "tidy st" "pool_inv cf s" "tree_inv s" by (simp_all add: box_inv_def)
  have "pool_inv cf s'" by (rule pool_inv_step [OF laws(2) box_pool_step [OF assms(2)]])
  moreover have "tree_inv s'"
    using assms(2) laws
  proof (cases rule: box_step.cases)
    case (box_start p r p' h d)
    have "w \<in> set (free_q p) \<or> workspaces p' (w_name w) = []" if "w \<in> set (free_q p')" for w
      using start_empty [OF box_start(3) that] by blast
    with start_result [OF box_start(3)] only_emptied_start [OF box_start(3)] laws(3) box_start(1,2) show ?thesis
      by (auto simp: frame_def warmed_def intro!: tree_inv_emptied [of p h d p' h d])
  next
    case (box_lease p w p' h d)
    with lease_result [OF box_lease(3)] laws(3) show ?thesis by (auto simp: tree_inv_def workspaces_def ball_Un)
  next
    case (box_no_worker p e p' h d)
    have "only_emptied (workspaces p) p'"
      using box_no_worker(3) by (auto simp: lease_def only_emptied_def emptied_def workspaces_def split: list.splits option.splits)
    moreover have "cfg p' = cfg p" "free_q p' = free_q p" "tasks p' = tasks p"
      using lease_result [OF box_no_worker(3)] by auto
    moreover have "tree_inv (p, h, d)" using laws(3) box_no_worker(1) by simp
    ultimately have "tree_inv (p', h, d)" by (intro tree_inv_emptied [of p h d p']) simp_all
    with box_no_worker(2) show ?thesis by simp
  next
    case (box_use w h p argv t k env input clean r c d)
    have "only_in (w_name w) (workspaces p) (cluster p)" using laws(3) box_use(1) by (simp add: only_in_def tree_inv_def workspaces_def)
    from keepsD [OF only_in_exec [OF laws(1) refl] this box_use(4)] laws(2,3) box_use(1-3) show ?thesis
      by (auto simp: pool_inv_def inv_names_def intro!: tree_inv_used ledger_distinct)
  next
    case (box_prepare w h p restore r c d)
    have "only_in (w_name w) (workspaces p) (cluster p)" using laws(3) box_prepare(1) by (simp add: only_in_def tree_inv_def workspaces_def)
    moreover have "keeps (only_in (w_name w) (workspaces p)) (prep_workspace (machine_kube st) (cfg p) w restore)"
      unfolding prep_workspace_def by (intro py_intros laws refl)
    ultimately have "only_in (w_name w) (workspaces p) c" using box_prepare(4) keepsD by metis
    with laws(2,3) box_prepare(1-3) show ?thesis
      by (auto simp: pool_inv_def inv_names_def intro!: tree_inv_used ledger_distinct)
  next
    case (box_collect w h p k t r c d)
    have "only_in (w_name w) (workspaces p) (cluster p)" using laws(3) box_collect(1) by (simp add: only_in_def tree_inv_def workspaces_def)
    from keepsD [OF only_in_collect [OF laws(1) refl] this box_collect(4)] laws(2,3) box_collect(1-3) show ?thesis
      by (auto simp: pool_inv_def inv_names_def intro!: tree_inv_used ledger_distinct)
  next
    case (box_elapse p h d b)
    with laws(3) show ?thesis by (simp add: tree_inv_def workspaces_def)
  next
    case (box_release w h clean retire p r p' d)
    with laws(3) show ?thesis
      by (rule_tac release_result [OF box_release(5)]) (auto simp: tree_inv_def workspaces_def ball_Un)
  next
    case (box_retire w h p r p' d)
    then have "p' = p\<lparr>tasks := tasks p @ [ReplaceTask w]\<rparr>"
      by (simp add: retire_worker_def start_task_def updates_def)
    with box_retire laws(3) show ?thesis by (auto simp: tree_inv_def workspaces_def ball_Un)
  next
    case (box_thread i p h d)
    with laws(3) show ?thesis by (auto intro: thread_step_trees)
  next
    case (box_close p r p' h d)
    with close_emptied [OF box_close(3)] laws(3) show ?thesis
      by (auto intro!: tree_inv_emptied [of p h d p' h d])
  qed
  ultimately show ?thesis using laws(1) by (simp add: box_inv_def)
qed

interpretation box_system: invariant_system "box_step st" "box_inv st cf" for st cf
  by unfold_locales (rule box_inv_step)

lemma box_reachable_inv:
  assumes "box_reachable st cf s" "tidy st"
  shows "box_inv st cf s"
proof -
  from assms(1) obtain b p where built: "new_pool cf (b, \<lambda>_. []) = Inr p" and steps: "(box_step st)\<^sup>*\<^sup>* (p, [], {}) s"
    by (auto simp: box_reachable_def)
  from built have "p = \<lparr>cfg = cf, free_q = [], serial = 0, spawned_n = 0, retired_n = 0,
          is_started = False, is_closed = False, start_rep = None, hooks_on = False,
          prev_sigterm = None, tasks = [], cluster = (b, \<lambda>_. [])\<rparr>"
    by (cases "validate cf"; simp add: new_pool_def)
  then have "box_inv st cf (p, [], {})"
    using pool_inv_initial [OF built] assms(2) by (simp add: box_inv_def tree_inv_def workspaces_def)
  with steps show ?thesis by (rule box_system.inv_steps)
qed

end
