(* ===== verification/Isolation.thy ===== *)
theory Isolation
  imports Machine PoolRuns
begin

text \<open>
  What the pool promises its callers: a run gives the result that it would give alone, in an empty workspace with
  its own input files, whatever other callers have run before or are running. On the concrete machines of
  \<open>Machine\<close> this composes the pool, the websocket and the scripts.
\<close>

section \<open>The specification of a run\<close>

text \<open>The input files of a run on the tree \<open>es\<close>, and the process that then runs.\<close>

definition received :: "'b site \<Rightarrow> (string, byte list) dict \<Rightarrow> entries \<Rightarrow> exn option \<times> entries" where
  "received st input es = (if input = [] then (None, es) else uploader (st_outside st) [upload_frame input] es)"

definition process_on :: "'b site \<Rightarrow> string list \<Rightarrow> (string, byte list) dict \<Rightarrow> entries \<Rightarrow> process" where
  "process_on st argv input es = st_prog st argv (snd (received st input es))"

definition collected_from :: "'b site \<Rightarrow> sandbox_config \<Rightarrow> collect_arg \<Rightarrow> process \<Rightarrow> (string, byte list) dict \<times> json list" where
  "collected_from st cf k pr =
     (if collects k then
        (let c = collector (st_outside st) (collect_want k) (max_collect_bytes cf) (pr_tree pr) in (k_out c, map JStr (k_trunc c)))
      else ([], []))"

text \<open>
  The transport loses nothing: what is captured without an exception is what was written, and a confirmation was
  written before it is read. The standard input arrives whole, in pieces of any size.
\<close>

definition faithful_wire :: "'b site \<Rightarrow> bool" where
  "faithful_wire st \<longleftrightarrow> (\<forall>out err status b t.
     (\<forall>out' err' code. exec_capture (fst (st_wire st out err status b)) t = Inr (out', err', code) \<longrightarrow>
        out' = out \<and> err' = err \<and> exit_code_of status = Inr code) \<and>
     (upload_files (fst (st_wire st out err status b)) t = None \<longrightarrow> sublist ''UPLOAD_OK'' out))"

definition whole_stdin :: "'b site \<Rightarrow> bool" where
  "whole_stdin st \<longleftrightarrow> (\<forall>s b. concat (st_cut st s b) = s \<and> [] \<notin> set (st_cut st s b))"

section \<open>The uploader does not see the pieces\<close>

lemma readn_whole:
  assumes "\<forall>x \<in> set inp. x \<noteq> []"
  shows "fst (readn n [] inp) = take n (concat inp)" "concat (snd (readn n [] inp)) = drop n (concat inp)"
    "\<forall>x \<in> set (snd (readn n [] inp)). x \<noteq> []"
  using readn_spec [OF assms prod.collapse [symmetric], of n "[]"] by simp_all

lemma uploader_cut:
  assumes "\<forall>x \<in> set inp. x \<noteq> []" "concat inp = s" "s \<noteq> []"
  shows "uploader ct inp es = uploader ct [s] es"
proof -
  have one: "\<forall>x \<in> set [s]. x \<noteq> []" using assms(3) by simp
  obtain hdr rest hdr' rest' where r: "readn 16 [] inp = (hdr, rest)" "readn 16 [] [s] = (hdr', rest')" by fastforce
  with readn_whole [OF assms(1), of 16] readn_whole [OF one, of 16] assms(2)
  have same: "hdr = hdr'" "concat rest = concat rest'" "\<forall>x \<in> set rest. x \<noteq> []" "\<forall>x \<in> set rest'. x \<noteq> []" by simp_all
  then have body: "fst (readn n [] rest) = fst (readn n [] rest')" for n using readn_whole(1) by metis
  show ?thesis unfolding uploader_def r prod.case same(1) body by (rule refl)
qed

lemma upload_frame_not_Nil: "upload_frame input \<noteq> []"
proof -
  have "upload_payload input \<noteq> []" by (simp add: upload_payload_def)
  then show ?thesis by (simp add: upload_frame_def frame_payload_def)
qed

lemma received_as_upload: "received st input [] = uploader (st_outside st) [upload_frame input] []"
proof (cases "input = []")
  case True
  have "length (upload_payload []) < 10 ^ 16" by (simp add: upload_payload_def)
  from uploader_runs [of "[]" "[]" "[upload_frame []]", OF _ _ _ this] upload_frame_not_Nil [of "[]"] True show ?thesis
    by (simp add: received_def uploadable_def dict_ok_def)
qed (simp add: received_def)

lemma upload_on_machine:
  assumes "faithful_wire st" "whole_stdin st" "upload (machine_kube st) w input t c = (Inr (), c')" "input \<noteq> []"
  defines "rc \<equiv> received st input (snd c (w_name w))"
  shows "fst rc = None \<and> snd c' = (snd c)(w_name w := snd rc)"
proof -
  let ?inp = "st_cut st (upload_frame input) (fst c)" and ?ct = "st_outside st" and ?es = "snd c (w_name w)"
  have cut: "uploader ?ct ?inp ?es = rc"
    using uploader_cut [of ?inp "upload_frame input"] assms(2,4) upload_frame_not_Nil
    unfolding whole_stdin_def received_def rc_def by metis
  obtain r es where up: "rc = (r, es)" by fastforce
  let ?pr = "run_uploader ?ct ?inp ?es"
  have tree: "pr_tree ?pr = es" by (simp add: run_uploader_def cut up split: option.split)
  obtain cv b where wire: "st_wire st (pr_out ?pr) (pr_err ?pr) (pr_status ?pr) (fst c) = (cv, b)" by fastforce
  have c': "c' = (b, (snd c)(w_name w := es))" and sent: "upload_files cv t = None"
    using assms(3) wire tree by (auto simp: upload_def in_pod_def split: prod.splits option.splits)
  have "sublist ''UPLOAD_OK'' (pr_out ?pr)"
    using assms(1) sent wire unfolding faithful_wire_def by (metis fst_conv)
  then have "r = None" by (auto simp: run_uploader_def cut up split: option.splits)
  with c' up show ?thesis by simp
qed

lemma command_on_machine:
  assumes "faithful_wire st" "run_command (machine_kube st) w cmd t c = (Inr (out, err, code), c')"
  defines "pr \<equiv> run_process st cmd (snd c (w_name w))"
  shows "out = pr_out pr" "err = pr_err pr" "exit_code_of (pr_status pr) = Inr code" "snd c' = (snd c)(w_name w := pr_tree pr)"
proof -
  obtain cv b where wire: "st_wire st (pr_out pr) (pr_err pr) (pr_status pr) (fst c) = (cv, b)" by fastforce
  with assms(2) have "exec_capture cv t = Inr (out, err, code)" and c': "c' = (b, (snd c)(w_name w := pr_tree pr))"
    by (auto simp: run_command_def in_pod_def pr_def split: prod.splits)
  with assms(1) wire show "out = pr_out pr" "err = pr_err pr" "exit_code_of (pr_status pr) = Inr code"
    unfolding faithful_wire_def by (metis fst_conv)+
  from c' show "snd c' = (snd c)(w_name w := pr_tree pr)" by simp
qed

lemma good_status_code: "exit_code_of good_status = Inr 0"
  by code_simp

lemma collect_on_machine:
  assumes "faithful_wire st" "pr_tree pr = snd c (w_name w)" "collects k" "collect (machine_kube st) cf w k t c = (Inr x, c')"
  shows "x = collected_from st cf k pr \<or> x = ([], [])"
proof -
  let ?cmd = "CollectorScript (scratch_dir cf) (collect_want k) (max_collect_bytes cf)"
  let ?coll = "collector (st_outside st) (collect_want k) (max_collect_bytes cf) (snd c (w_name w))"
  obtain r d where run: "run_command (machine_kube st) w ?cmd (max t 15) c = (r, d)" by (meson surj_pair)
  show ?thesis
  proof (cases r)
    case (Inl e)
    with run assms(4) have "x = ([], [])"
      by (auto simp: collect_def py_defs split: if_splits prod.splits)
    then show ?thesis ..
  next
    case (Inr y)
    obtain out err code where y: "y = (out, err, code)" by (cases y)
    from command_on_machine [OF assms(1) run [unfolded Inr y]] have out: "out = collector_output ?coll" "code = 0"
      by (simp_all add: run_process_def good_status_code)
    have "collect_reply 0 (collector_output ?coll) = Inr (k_out ?coll, map JStr (k_trunc ?coll))" by (rule reply_of_collector)
    with run Inr y out assms(4) have "x = (k_out ?coll, map JStr (k_trunc ?coll))"
      by (simp add: collect_def py_defs)
    with assms(2,3) show ?thesis by (simp add: collected_from_def Let_def)
  qed
qed

lemma collect_tree:
  assumes "collect (machine_kube st) cf w k t c = (x, c')"
  shows "snd c' = snd c"
proof -
  let ?cmd = "CollectorScript (scratch_dir cf) (collect_want k) (max_collect_bytes cf)"
  have "snd d = snd c" if "run_command (machine_kube st) w ?cmd t' c = (r, d)" for r d t'
    using that by (auto simp: run_command_def in_pod_def run_process_def split: prod.splits)
  with assms show ?thesis by (auto simp: collect_def py_defs split: prod.splits sum.splits if_splits option.splits)
qed

text \<open>A run on the tree \<open>es\<close> that leaves \<open>es'\<close>; and one that is alone, in an empty workspace.\<close>

definition run_on :: "'b site \<Rightarrow> sandbox_config \<Rightarrow> string list \<Rightarrow> collect_arg \<Rightarrow> env_vars option \<Rightarrow> (string, byte list) dict \<Rightarrow>
    entries \<Rightarrow> json run_result \<Rightarrow> entries \<Rightarrow> bool" where
  "run_on st cf argv k env input es r es' \<longleftrightarrow> (\<exists>argv' code.
     with_env argv env = Inr argv' \<and> fst (received st input es) = None \<and> es' = pr_tree (process_on st argv' input es) \<and>
     stdout r = pr_out (process_on st argv' input es) \<and> stderr r = pr_err (process_on st argv' input es) \<and>
     exit_code r = Some code \<and> exit_code_of (pr_status (process_on st argv' input es)) = Inr code \<and>
     ((files r, files_truncated r) = collected_from st cf k (process_on st argv' input es) \<or> (files r, files_truncated r) = ([], [])))"

definition solo_result :: "'b site \<Rightarrow> sandbox_config \<Rightarrow> string list \<Rightarrow> collect_arg \<Rightarrow> env_vars option \<Rightarrow> (string, byte list) dict \<Rightarrow>
    json run_result \<Rightarrow> bool" where
  "solo_result st cf argv k env input r \<longleftrightarrow> (\<exists>es'. run_on st cf argv k env input [] r es')"

lemma exec_on_machine:
  assumes "faithful_wire st" "whole_stdin st"
    and "exec_on_worker (machine_kube st) cf w argv t k env input False c = (Inr r, c')"
  shows "run_on st cf argv k env input (snd c (w_name w)) r (snd c' (w_name w))"
proof -
  let ?kb = "machine_kube st" and ?es = "snd c (w_name w)"
  have small: "(input \<noteq> [] \<and> too_big cf input) = False" using assms(3) by (auto simp: exec_on_worker_def throw_def)
  note start_up = assms(3) [unfolded exec_on_worker_def small if_False]
  then obtain argv' where argv': "with_env argv env = Inr argv'"
    by (cases "with_env argv env") (simp_all add: throw_def)
  have run: "andThen (if input \<noteq> [] then upload ?kb w input t else ret ()) (\<lambda>_.
          andThen (run_command ?kb w (Argv argv') t) (\<lambda>(out, err, code).
          andThen (if collects k then collect ?kb cf w k t else ret ([], [])) (\<lambda>(fs, trunc).
          andThen (reads (k_now ?kb)) (\<lambda>t1.
          ret \<lparr>stdout = out, stderr = err, exit_code = Some code, timed_out = False,
               duration_s = round3 (t1 - k_now ?kb c), sandbox_id = w_name w,
               files = fs, files_truncated = trunc\<rparr>)))) c = (Inr r, c')"
    using start_up unfolding argv' sum.case reads_andThen ret_andThen .
  then obtain c1 where up: "(if input \<noteq> [] then upload ?kb w input t else ret ()) c = (Inr (), c1)"
    and run1: "andThen (run_command ?kb w (Argv argv') t) (\<lambda>(out, err, code).
          andThen (if collects k then collect ?kb cf w k t else ret ([], [])) (\<lambda>(fs, trunc).
          andThen (reads (k_now ?kb)) (\<lambda>t1.
          ret \<lparr>stdout = out, stderr = err, exit_code = Some code, timed_out = False,
               duration_s = round3 (t1 - k_now ?kb c), sandbox_id = w_name w,
               files = fs, files_truncated = trunc\<rparr>))) c1 = (Inr r, c')"
    by (rule andThen_cases) auto
  have c1: "snd c1 (w_name w) = snd (received st input ?es) \<and> fst (received st input ?es) = None"
    using up upload_on_machine [OF assms(1,2)]
    by (cases "input = []") (auto simp: ret_def received_def)
  let ?pr = "process_on st argv' input ?es"
  from run1 obtain out err code c2 where cmd: "run_command ?kb w (Argv argv') t c1 = (Inr (out, err, code), c2)"
    and run2: "andThen (if collects k then collect ?kb cf w k t else ret ([], [])) (\<lambda>(fs, trunc).
          andThen (reads (k_now ?kb)) (\<lambda>t1.
          ret \<lparr>stdout = out, stderr = err, exit_code = Some code, timed_out = False,
               duration_s = round3 (t1 - k_now ?kb c), sandbox_id = w_name w,
               files = fs, files_truncated = trunc\<rparr>)) c2 = (Inr r, c')"
    by (rule andThen_cases) auto
  have pr: "run_process st (Argv argv') (snd c1 (w_name w)) = ?pr" using c1 by (simp add: run_process_def process_on_def)
  from command_on_machine [OF assms(1) cmd] have done_cmd: "out = pr_out ?pr" "err = pr_err ?pr" "exit_code_of (pr_status ?pr) = Inr code"
    "snd c2 (w_name w) = pr_tree ?pr" by (simp_all add: pr)
  from run2 obtain fs trunc c3 where got: "(if collects k then collect ?kb cf w k t else ret ([], [])) c2 = (Inr (fs, trunc), c3)"
    and r: "r = \<lparr>stdout = out, stderr = err, exit_code = Some code, timed_out = False,
               duration_s = round3 (k_now ?kb c3 - k_now ?kb c), sandbox_id = w_name w,
               files = fs, files_truncated = trunc\<rparr>" "c' = c3"
    by (rule andThen_cases) (auto simp: reads_andThen ret_def)
  have last: "snd c3 (w_name w) = pr_tree ?pr"
  proof (cases "collects k")
    case True
    with got have "collect ?kb cf w k t c2 = (Inr (fs, trunc), c3)" by simp
    from collect_tree [OF this] done_cmd(4) show ?thesis by simp
  qed (use got done_cmd(4) in \<open>auto simp: ret_def\<close>)
  have "(fs, trunc) = collected_from st cf k ?pr \<or> (fs, trunc) = ([], [])"
  proof (cases "collects k")
    case True
    with got have "collect ?kb cf w k t c2 = (Inr (fs, trunc), c3)" by simp
    from collect_on_machine [OF assms(1) done_cmd(4) [symmetric] True this] show ?thesis .
  next
    case False
    with got show ?thesis by (auto simp: ret_def)
  qed
  with argv' c1 done_cmd r last show ?thesis unfolding run_on_def by auto
qed

section \<open>Every run is alone\<close>

lemma free_tree_empty:
  assumes "box_inv st cf (p, h, d)" "fresh_workdir_per_run cf" "w \<in> set (free_q p)"
  shows "workspaces p (w_name w) = []"
proof -
  from assms(1) have "cfg p = cf" "tree_inv (p, h, d)" by (simp_all add: box_inv_def pool_inv_def)
  with assms(2,3) show ?thesis unfolding tree_inv_def prod.case by blast
qed


lemma held_run_untimed:
  assumes "held_run kb w argv t k env input p = (Inr (Inr r, retire), p')" "\<not> timed_out r"
  shows "\<exists>c. exec_on_worker kb (cfg p) w argv t k env input False (cluster p) = (Inr r, c)"
  using assms
  by (auto simp: held_run_def run_outcome_def timeout_result_def split: prod.splits sum.splits exn.splits)

lemma dispatch_held:
  assumes "dispatch kb argv t k env input p = (Inr r, p')"
  obtains x q w u retire v where "(if is_started p then ret None else start kb) p = (Inr x, q)" "lease kb q = (Inr w, u)"
    "held_run kb w argv (timeout_of (cfg p) t) k env input u = (Inr (Inr r, retire), v)"
proof -
  have open_p: "\<not> is_closed p" using assms by (auto simp: dispatch_def reads_andThen throw_def)
  have "andThen (if is_started p then ret None else start kb) (\<lambda>_.
       andThen (lease kb) (\<lambda>w.
       andThen (held_run kb w argv (timeout_of (cfg p) t) k env input) (\<lambda>(r, retire).
       andThen (release kb w retire None) (\<lambda>_.
       case r of Inl e \<Rightarrow> throw e | Inr res \<Rightarrow> ret res)))) p = (Inr r, p')"
    using assms open_p by (simp add: dispatch_def reads_andThen)
  then obtain x q where started: "(if is_started p then ret None else start kb) p = (Inr x, q)"
    and rest: "andThen (lease kb) (\<lambda>w.
       andThen (held_run kb w argv (timeout_of (cfg p) t) k env input) (\<lambda>(r, retire).
       andThen (release kb w retire None) (\<lambda>_.
       case r of Inl e \<Rightarrow> throw e | Inr res \<Rightarrow> ret res))) q = (Inr r, p')"
    by (rule andThen_cases) auto
  from rest obtain w u where lease: "lease kb q = (Inr w, u)"
    and rest2: "andThen (held_run kb w argv (timeout_of (cfg p) t) k env input) (\<lambda>(r, retire).
       andThen (release kb w retire None) (\<lambda>_.
       case r of Inl e \<Rightarrow> throw e | Inr res \<Rightarrow> ret res)) u = (Inr r, p')"
    by (rule andThen_cases) auto
  from rest2 obtain y retire v where held: "held_run kb w argv (timeout_of (cfg p) t) k env input u = (Inr (y, retire), v)"
    and rest3: "andThen (release kb w retire None) (\<lambda>_. case y of Inl e \<Rightarrow> throw e | Inr res \<Rightarrow> ret res) v = (Inr r, p')"
    by (rule andThen_cases) auto
  from rest3 have "y = Inr r"
    by (rule andThen_cases) (auto simp: throw_def ret_def split: sum.splits)
  with started lease held that show thesis by blast
qed

lemma dispatch_alone:
  assumes "box_inv st cf (p, h, d)" "faithful_wire st" "whole_stdin st" "fresh_workdir_per_run cf"
    and "dispatch (machine_kube st) argv t k env input p = (Inr r, p')" "\<not> timed_out r"
  shows "solo_result st cf argv k env input r"
proof -
  let ?kb = "machine_kube st"
  from assms(1) have inv: "box_inv st cf (p, h, d)" and cf: "cfg p = cf" by (auto simp: box_inv_def pool_inv_def)
  from dispatch_held [OF assms(5)] obtain x q w u retire v where
    started: "(if is_started p then ret None else start ?kb) p = (Inr x, q)" and lease: "lease ?kb q = (Inr w, u)"
    and held: "held_run ?kb w argv (timeout_of cf t) k env input u = (Inr (Inr r, retire), v)"
    unfolding cf by blast
  have inv_q: "box_inv st cf (q, h, d)"
    using started inv box_inv_step [OF inv box_start] by (auto simp: ret_def split: if_splits)
  from lease_result [OF lease] have w: "w \<in> set (free_q q)" "workspaces u = workspaces q" "cfg u = cfg q"
    by (auto simp: workspaces_def)
  have cf_u: "cfg u = cf" using inv_q w(3) by (simp add: box_inv_def pool_inv_def)
  from held_run_untimed [OF held assms(6)] cf_u obtain c where
    ex: "exec_on_worker ?kb cf w argv (timeout_of cf t) k env input False (cluster u) = (Inr r, c)" by metis
  have "snd (cluster u) (w_name w) = []"
    using free_tree_empty [OF inv_q assms(4) w(1)] w(2) by (simp add: workspaces_def)
  with exec_on_machine [OF assms(2,3) ex] show ?thesis unfolding solo_result_def by metis
qed

lemma exec_untimed: "exec_on_worker kb cf w argv t k env input clean c = (Inr r, c') \<Longrightarrow> \<not> timed_out r"
  unfolding exec_on_worker_def
  by (auto simp: throw_def ret_def reads_def split: if_splits sum.splits prod.splits elim!: andThen_cases)

lemma dispatch_timed:
  assumes "dispatch kb argv t k env input p = (Inr r, p')" "timed_out r"
  shows "files r = []"
proof -
  from dispatch_held [OF assms(1)] obtain w u retire v where
    "held_run kb w argv (timeout_of (cfg p) t) k env input u = (Inr (Inr r, retire), v)" by metis
  with assms(2) exec_untimed show ?thesis
    by (fastforce simp: held_run_def run_outcome_def timeout_result_def split: prod.splits sum.splits exn.splits)
qed


section \<open>Machines that answer at once\<close>

definition prompt_wire :: "string \<Rightarrow> string \<Rightarrow> string \<Rightarrow> 'b \<Rightarrow> conversation \<times> 'b" where
  "prompt_wire out err status b =
     (\<lparr>c_connect = None, c_opened = 0, c_stdin_err = None,
       c_polls = [\<lparr>p_now = 1, p_err = None, p_out = out, p_errout = err\<rparr>], c_status = status\<rparr>, b)"

definition prompt_site :: "(string list \<Rightarrow> entries \<Rightarrow> process) \<Rightarrow> toy site" where
  "prompt_site prog = \<lparr>st_kube = toy_kube, st_wire = prompt_wire, st_cut = \<lambda>s b. (if s = [] then [] else [s]),
     st_prog = prog, st_outside = no_links\<rparr>"

lemma prompt_site_simps [simp]:
  "st_prog (prompt_site prog) = prog" "st_outside (prompt_site prog) = no_links" "st_kube (prompt_site prog) = toy_kube"
  by (simp_all add: prompt_site_def)

lemma prompt_capture: "1 \<le> t \<Longrightarrow> exec_capture (fst (prompt_wire out err status b)) t =
    (case exit_code_of status of Inl e \<Rightarrow> Inl e | Inr code \<Rightarrow> Inr (out, err, code))"
  by (simp add: prompt_wire_def exec_capture_def exec_stream_def split: sum.split)

lemma prompt_late: "\<not> 1 \<le> t \<Longrightarrow> exec_capture (fst (prompt_wire out err status b)) t = Inl ExecTimeout"
  by (simp add: prompt_wire_def exec_capture_def exec_stream_def)

lemma prompt_faithful: "faithful_wire (prompt_site prog)"
  unfolding faithful_wire_def
proof (intro allI conjI impI)
  fix out err status :: string and b :: toy and t and out' err' :: string and code
  assume "exec_capture (fst (st_wire (prompt_site prog) out err status b)) t = Inr (out', err', code)"
  then have "exec_capture (fst (prompt_wire out err status b)) t = Inr (out', err', code)" by (simp add: prompt_site_def)
  then show "out' = out" "err' = err" "exit_code_of status = Inr code"
    by (cases "1 \<le> t"; auto simp: prompt_capture prompt_late split: sum.splits)+
next
  fix out err status :: string and b :: toy and t
  assume "upload_files (fst (st_wire (prompt_site prog) out err status b)) t = None"
  then show "sublist ''UPLOAD_OK'' out"
    by (auto simp: prompt_site_def prompt_wire_def upload_files_def split: if_splits)
qed

lemma prompt_stdin: "whole_stdin (prompt_site prog)"
  by (auto simp: whole_stdin_def prompt_site_def)

lemma prompt_tidy: "(\<And>argv es. erasable_all es \<Longrightarrow> erasable_all (pr_tree (prog argv es))) \<Longrightarrow> tidy (prompt_site prog)"
  by (simp add: tidy_def prompt_site_def no_links_def)

text \<open>What such a machine does is computed without waiting.\<close>

lemma prompt_run:
  "1 \<le> t \<Longrightarrow> run_command (machine_kube (prompt_site prog)) w cmd t c =
    (let pr = run_process (prompt_site prog) cmd (snd c (w_name w)) in
      (case exit_code_of (pr_status pr) of Inl e \<Rightarrow> Inl e | Inr code \<Rightarrow> Inr (pr_out pr, pr_err pr, code),
       (fst c, (snd c)(w_name w := pr_tree pr))))"
  by (cases c) (simp add: run_command_def in_pod_def Let_def prompt_site_def prompt_capture prompt_wire_def
      prompt_capture [unfolded prompt_wire_def, simplified])

lemma prompt_upload:
  assumes "1 \<le> t" "input \<noteq> []" "received (prompt_site prog) input (snd c (w_name w)) = (None, es)"
  shows "upload (machine_kube (prompt_site prog)) w input t c = (Inr (), (fst c, (snd c)(w_name w := es)))"
proof -
  from assms(2,3) have up: "uploader no_links [upload_frame input] (snd c (w_name w)) = (None, es)"
    by (simp add: received_def prompt_site_def)
  let ?out = "''UPLOAD_OK'' @ [CHR 0x0A]"
  have "upload_files (fst (prompt_wire ?out [] good_status (fst c))) t = None"
    using assms(1) by (simp add: prompt_wire_def upload_files_def)
  with up show ?thesis
    by (cases c) (simp add: upload_def in_pod_def prompt_site_def upload_frame_not_Nil run_uploader_def prompt_wire_def)
qed

lemma prompt_clean:
  "clean_workspace (machine_kube (prompt_site prog)) cf w t c = (Inr (), (fst c, (snd c)(w_name w := snd (cleaner (snd c (w_name w))))))"
proof -
  obtain out es where out: "cleaner (snd c (w_name w)) = (out, es)" by fastforce
  then have "sublist ''CLEAN_OK'' out" by (auto simp: cleaner_def split: prod.splits)
  with out show ?thesis
    by (simp add: clean_workspace_def andThen_def tryExcept_def prompt_run Let_def run_process_def good_status_code ret_def)
qed

lemma round3_0: "round3 0 = 0"
  by code_simp

lemma prompt_exec:
  assumes "1 \<le> t" "st_prog (prompt_site prog) argv (snd c (w_name w)) = \<lparr>pr_out = out, pr_err = err, pr_status = status, pr_tree = es\<rparr>"
    and "exit_code_of status = Inr code"
  shows "exec_on_worker (machine_kube (prompt_site prog)) cf w argv t CollectNone None [] False c =
    (Inr \<lparr>stdout = out, stderr = err, exit_code = Some code, timed_out = False, duration_s = 0, sandbox_id = w_name w,
       files = [], files_truncated = []\<rparr>, (fst c, (snd c)(w_name w := es)))"
  using assms
  by (simp add: exec_on_worker_def with_env_def reads_andThen ret_andThen andThen_def [of "run_command _ _ _ _"] prompt_run Let_def
      run_process_def collects_def ret_def reads_def round3_0)

lemma prompt_exec_files:
  assumes "1 \<le> t" "input \<noteq> []" "\<not> too_big cf input" "with_env argv env = Inr argv'" "collects k"
    and "received (prompt_site prog) input (snd c (w_name w)) = (None, es)"
    and "prog argv' es = \<lparr>pr_out = out, pr_err = err, pr_status = good_status, pr_tree = es'\<rparr>"
  shows "\<exists>c'. exec_on_worker (machine_kube (prompt_site prog)) cf w argv t k env input False c =
    (Inr \<lparr>stdout = out, stderr = err, exit_code = Some 0, timed_out = False, duration_s = 0, sandbox_id = w_name w,
       files = k_out (collector no_links (collect_want k) (max_collect_bytes cf) es'),
       files_truncated = map JStr (k_trunc (collector no_links (collect_want k) (max_collect_bytes cf) es'))\<rparr>, c')"
proof -
  let ?kb = "machine_kube (prompt_site prog)" and ?c1 = "(fst c, (snd c)(w_name w := es))" and ?c2 = "(fst c, (snd c)(w_name w := es'))"
  let ?coll = "collector no_links (collect_want k) (max_collect_bytes cf) es'"
  have up: "upload ?kb w input t c = (Inr (), ?c1)" by (rule prompt_upload [OF assms(1,2,6)])
  have cmd: "run_command ?kb w (Argv argv') t ?c1 = (Inr (out, err, 0), ?c2)"
    using assms(1,7) by (simp add: prompt_run Let_def run_process_def good_status_code)
  have reply: "collect_reply 0 (collector_output ?coll) = Inr (k_out ?coll, map JStr (k_trunc ?coll))" by (rule reply_of_collector)
  have col: "collect ?kb cf w k t ?c2 = (Inr (k_out ?coll, map JStr (k_trunc ?coll)), ?c2)"
    using reply by (simp add: collect_def andThen_def tryExcept_def prompt_run Let_def run_process_def good_status_code py_defs)
  show ?thesis
    unfolding exec_on_worker_def
    using assms(2-5) by (simp add: reads_andThen ret_andThen andThen_Inr [of "upload _ _ _ _", OF up] andThen_Inr [of "run_command _ _ _ _", OF cmd]
        andThen_Inr [of "collect _ _ _ _ _", OF col] ret_def round3_0)
qed

lemma release_returns: "\<exists>q. release kb w retire clean p = (Inr (), q)"
  by (auto simp: release_def clock_def reads_andThen Let_def put_free_def start_task_def updates_def split: option.split)

lemma dispatch_returns:
  assumes "is_started p" "\<not> is_closed p" "free_q p = w # ws"
    and "exec_on_worker kb (cfg p) w argv (timeout_of (cfg p) t) k env input False (cluster p) = (Inr r, c)"
  shows "\<exists>q. dispatch kb argv t k env input p = (Inr r, q)"
proof -
  let ?p = "p\<lparr>free_q := ws\<rparr>"
  have leased: "lease kb p = (Inr w, ?p)" using assms(3) by (simp add: lease_def)
  have held: "held_run kb w argv (timeout_of (cfg p) t) k env input ?p = (Inr (Inr r, False), ?p\<lparr>cluster := c\<rparr>)"
    using assms(4) by (simp add: held_run_def run_outcome_def)
  obtain q where kept: "release kb w False None (?p\<lparr>cluster := c\<rparr>) = (Inr (), q)" using release_returns by blast
  show ?thesis
    using assms(1,2) by (simp add: dispatch_def reads_andThen ret_andThen andThen_Inr [of "lease _", OF leased]
        andThen_Inr [of "held_run _ _ _ _ _ _ _", OF held] andThen_Inr [of "release _ _ _ _", OF kept] ret_def)
qed

text \<open>A command that shows its input and leaves a file.\<close>

definition leave_file :: "string list \<Rightarrow> entries \<Rightarrow> process" where
  "leave_file argv es = \<lparr>pr_out = concat (map fst es), pr_err = [], pr_status = good_status,
     pr_tree = dict_put ''left'' (NFile True True [1]) es\<rparr>"

lemma leave_file_tidy: "tidy (prompt_site leave_file)"
  by (rule prompt_tidy) (simp add: leave_file_def erasable_dict_put)

definition world_pool :: "sandbox_config \<Rightarrow> toy world pool" where
  "world_pool cf = \<lparr>cfg = cf, free_q = [], serial = 0, spawned_n = 0, retired_n = 0,
     is_started = False, is_closed = False, start_rep = None, hooks_on = False,
     prev_sigterm = None, tasks = [], cluster = (toy_start, \<lambda>_. [])\<rparr>"

lemma world_reachable: "validate cf = Inr ws \<Longrightarrow> box_reachable st cf (world_pool cf, [], {})"
  unfolding box_reachable_def by (intro exI [of _ toy_start] exI [of _ "world_pool cf"]) (simp add: new_pool_def world_pool_def)

lemma toy_config_valid: "\<exists>ws. validate toy_config = Inr ws"
  using toy_built by (cases "validate toy_config") (simp_all add: new_pool_def)

definition world_warm :: "toy world pool" where
  "world_warm = snd (start (machine_kube (prompt_site leave_file)) (world_pool toy_config))"

lemma box_started:
  assumes "validate cf = Inr ws"
  shows "box_reachable (prompt_site prog) cf (snd (start (machine_kube (prompt_site prog)) (world_pool cf)), [], {})"
proof -
  from world_reachable [OF assms, of "prompt_site prog"] obtain b p where
    "new_pool cf (b, \<lambda>_. []) = Inr p" "(box_step (prompt_site prog))\<^sup>*\<^sup>* (p, [], {}) (world_pool cf, [], {})"
    by (auto simp: box_reachable_def)
  moreover have "box_step (prompt_site prog) (world_pool cf, [], {}) (snd (start (machine_kube (prompt_site prog)) (world_pool cf)), [], {})"
    by (rule box_start [OF prod.collapse [symmetric]])
  ultimately show ?thesis unfolding box_reachable_def by (meson rtranclp.rtrancl_into_rtrancl)
qed

lemma world_warm_reachable: "box_reachable (prompt_site leave_file) toy_config (world_warm, [], {})"
  using toy_config_valid box_started unfolding world_warm_def by blast

lemma world_warm_free: "map w_name (free_q world_warm) = [''box-1'', ''box-2'']"
  by code_simp



end
