(* ===== verification/SessionRuns.thy ===== *)
theory SessionRuns
  imports Isolation
begin

text \<open>
  What a session promises: it is one machine. Its calls run one after the other on the same workspace, each on what the one before
  has left, whatever the other callers, the background threads and closing threads do in between.
\<close>

section \<open>A held workspace is left alone\<close>

text \<open>The workspace of \<open>nm\<close> is \<open>es\<close>, and no pod to come has this name.\<close>

definition kept_tree :: "string \<Rightarrow> entries \<Rightarrow> 'b world \<Rightarrow> bool" where
  "kept_tree nm es c \<longleftrightarrow> snd c nm = es"

definition untouched :: "string \<Rightarrow> entries \<Rightarrow> 'b world pool \<Rightarrow> bool" where
  "untouched nm es p \<longleftrightarrow> kept_tree nm es (cluster p) \<and> (\<forall>i > serial p. worker_name (cfg p) i \<noteq> nm)"

lemma kept_lifted [py_intros]: "keeps (kept_tree nm es) (lifted m)"
  by (auto simp: keeps_def lifted_def kept_tree_def split: prod.splits)

lemma kept_create [py_intros]: "pod_name q \<noteq> nm \<Longrightarrow> keeps (kept_tree nm es) (k_create_pod (machine_kube st) q)"
  by (auto simp: keeps_def machine_kube_def Let_def kept_tree_def split: prod.splits sum.splits)

lemma kept_poll: "kept_tree nm es c \<Longrightarrow> kept_tree nm es (snd (delete_poll (machine_kube st) x dl n c))"
proof (induction n arbitrary: c)
  case 0
  then show ?case by (simp add: throw_def)
next
  case (Suc n)
  obtain r b where r: "k_read_pod (st_kube st) x (fst c) = (r, b)" by fastforce
  have "kept_tree nm es (b, snd c)" "kept_tree nm es (k_sleep (st_kube st) (1 / 5) b, snd c)"
    using Suc.prems by (simp_all add: kept_tree_def)
  with Suc r show ?case by (cases c) (auto simp: lifted_def split: sum.splits exn.splits)
qed

lemma kept_delete [py_intros]: "keeps (kept_tree nm es) (delete_pod (machine_kube st) x)"
  unfolding keeps_def
proof (intro allI impI)
  fix c :: "'a world"
  assume c: "kept_tree nm es c"
  obtain r b where r: "k_delete_pod (st_kube st) x (fst c) = (r, b)" by fastforce
  have "kept_tree nm es (b, snd c)" using c by (simp add: kept_tree_def)
  with r kept_poll [OF this] show "kept_tree nm es (snd (delete_pod (machine_kube st) x c))"
    by (cases c) (auto simp: delete_pod_def lifted_def split: sum.splits exn.splits)
qed

lemma kept_deletes [py_intros]: "keeps (kept_tree nm es) (delete_pods (machine_kube st) xs)"
  by (induction xs) (auto intro!: py_intros)

lemma kept_wait [py_intros]: "keeps (kept_tree nm es) (wait_placed (machine_kube st) cf x)"
  unfolding wait_placed_def machine_simps by (intro py_intros) (auto split: prod.splits intro!: py_intros)

lemma kept_place [py_intros]: "x \<noteq> nm \<Longrightarrow> keeps (kept_tree nm es) (place_worker (machine_kube st) cf x)"
  unfolding place_worker_def by (intro py_intros) (simp add: build_worker_pod_def)

lemma kept_command [py_intros]: "w_name w \<noteq> nm \<Longrightarrow> keeps (kept_tree nm es) (run_command (machine_kube st) w cmd t)"
  by (auto simp: keeps_def run_command_def in_pod_def kept_tree_def split: prod.splits)

lemma kept_clean [py_intros]: "w_name w \<noteq> nm \<Longrightarrow> keeps (kept_tree nm es) (clean_workspace (machine_kube st) cf w t)"
  unfolding clean_workspace_def by (intro py_intros) (auto split: prod.splits intro!: py_intros)

lemma untouched_cluster [py_intros]: "keeps (kept_tree nm es) m \<Longrightarrow> keeps (untouched nm es) (on_cluster m)"
  unfolding keeps_def on_cluster_def untouched_def by (simp add: case_prod_beta del: split_paired_All)

lemma untouched_updates [py_intros]:
  "(\<And>p. cluster (g p) = cluster p \<and> serial p \<le> serial (g p) \<and> cfg (g p) = cfg p) \<Longrightarrow> keeps (untouched nm es) (updates g)"
  by (simp add: keeps_def updates_def untouched_def) (metis order_le_less_trans)

lemma untouched_workers [py_intros]: "keeps (untouched nm es) (delete_workers (machine_kube st))"
  unfolding delete_workers_def machine_simps by (intro py_intros) (auto split: exn.splits intro!: py_intros)

lemma untouched_namespace [py_intros]: "keeps (untouched nm es) (ensure_namespace (machine_kube st))"
  unfolding ensure_namespace_def machine_simps by (intro py_intros)

lemma untouched_policy [py_intros]: "keeps (untouched nm es) (ensure_network_policy (machine_kube st))"
  unfolding ensure_network_policy_def machine_simps by (intro py_intros)

lemma untouched_hooks [py_intros]: "keeps (untouched nm es) (install_cleanup_hooks (machine_kube st))"
  by (auto simp: keeps_def install_cleanup_hooks_def untouched_def kept_tree_def lifted_def split: prod.splits sum.splits exn.splits)

text \<open>A new pod has a name of its own.\<close>

lemma untouched_try_spawn [py_intros]: "keeps (untouched nm es) (try_spawn (machine_kube st))"
  unfolding keeps_def
proof (intro allI impI)
  fix p :: "'a world pool"
  assume p: "untouched nm es p"
  let ?t = "p\<lparr>serial := Suc (serial p), spawned_n := Suc (spawned_n p)\<rparr>"
  let ?m = "place_worker (machine_kube st) (cfg p) (worker_name (cfg p) (Suc (serial p)))"
  have "keeps (untouched nm es) (on_cluster ?m)" using p by (intro py_intros) (simp add: untouched_def)
  moreover have "untouched nm es ?t" using p by (simp add: untouched_def)
  ultimately have "untouched nm es (snd (on_cluster ?m ?t))" unfolding keeps_def by blast
  moreover have "try_spawn (machine_kube st) p = on_cluster ?m ?t"
    by (simp add: try_spawn_def andThen_def updates_def reads_def)
  ultimately show "untouched nm es (snd (try_spawn (machine_kube st) p))" by simp
qed

lemma untouched_loop [py_intros]: "keeps (untouched nm es) (spawn_loop (machine_kube st) n ws)"
  by (induction n arbitrary: ws) (auto intro!: py_intros split: sum.splits)

lemma untouched_start [py_intros]: "keeps (untouched nm es) (start (machine_kube st))"
proof -
  have "keeps (untouched nm es) (warm (machine_kube st))"
    unfolding warm_def by (intro py_intros) (auto split: prod.splits intro!: py_intros)
  then show ?thesis unfolding start_def by (intro py_intros) (auto split: prod.splits intro!: py_intros)
qed

lemma untouched_close [py_intros]: "keeps (untouched nm es) (close_pool (machine_kube st))"
  unfolding close_pool_def by (intro py_intros) auto

lemma untouched_task:
  assumes "w_name ` set (task_worker t) \<inter> {nm} = {}"
  shows "keeps (untouched nm es) (task_step (machine_kube st) t)"
proof (cases t)
  case (CleanTask w)
  then show ?thesis by (simp add: task_step_def clean_check_def) (intro py_intros)
next
  case (Cleaning w)
  with assms show ?thesis
    by (simp add: task_step_def clean_wipe_def retire_worker_def start_task_def) (intro py_intros; simp)
next
  case (PutBack w)
  then show ?thesis by (simp add: task_step_def put_free_def) (intro py_intros; simp)
next
  case (ReplaceTask w)
  then show ?thesis by (simp add: task_step_def replace_delete_def) (intro py_intros; simp)
next
  case (Attempt n)
  then show ?thesis by (simp add: task_step_def replace_check_def) (intro py_intros)
next
  case (Spawning n)
  have "keeps (untouched nm es) (replace_spawn (machine_kube st) n)"
    unfolding replace_spawn_def spawn_def
    by (intro py_intros) (auto simp: untouched_def kept_tree_def split: sum.split intro!: py_intros)
  with Spawning show ?thesis by (simp add: task_step_def)
qed

lemma untouched_thread:
  assumes "untouched nm es p" "i < length (tasks p)" "nm \<notin> w_name ` set (task_worker (tasks p ! i))"
  shows "untouched nm es (thread_step (machine_kube st) i p)"
proof -
  let ?q = "p\<lparr>tasks := take i (tasks p) @ drop (Suc i) (tasks p)\<rparr>"
  obtain r s where run: "task_step (machine_kube st) (tasks p ! i) ?q = (r, s)" by (meson surj_pair)
  have "keeps (untouched nm es) (task_step (machine_kube st) (tasks p ! i))" using assms(3) by (intro untouched_task) auto
  from keepsD [OF this _ run] assms(1) have "untouched nm es s" by (simp add: untouched_def)
  then show ?thesis using run by (auto simp: thread_step_def Let_def untouched_def split: sum.splits option.splits)
qed

text \<open>The steps of the others: \<open>h\<close> is what they hold, \<open>w\<close> is held by somebody who does nothing.\<close>

lemma others_lift:
  assumes "box_step st (p, h, d) (p', h', d')"
  shows "box_step st (p, h @ [w], d) (p', h' @ [w], d')"
  using assms
proof (cases rule: box_step.cases)
  case (box_release v clean retire r)
  then have "remove1 v (h @ [w]) = h' @ [w]" by (simp add: remove1_append)
  with box_release box_step.box_release [of v "h @ [w]" clean st retire p r p' d] show ?thesis by simp
next
  case (box_retire v r)
  then have "remove1 v (h @ [w]) = h' @ [w]" by (simp add: remove1_append)
  with box_retire box_step.box_retire [of v "h @ [w]" p r p' st d] show ?thesis by simp
qed (auto intro: box_step.intros)

lemma held_apart:
  assumes "box_inv st cf (p, h @ [w], d)"
  shows "untouched (w_name w) (workspaces p (w_name w)) p"
    and "w_name w \<notin> w_name ` set (free_q p)" "w_name w \<notin> w_name ` set h"
    and "w_name w \<notin> w_name ` set (concat (map task_worker (tasks p)))"
proof -
  from assms have names: "names p (h @ [w]) \<subseteq># ledger (cfg p) (serial p)"
    unfolding box_inv_def pool_inv_def inv_names_def prod.case by blast
  have "w_name w \<in># names p (h @ [w])" by (simp add: names_def owned_def)
  with names have mem: "w_name w \<in># ledger (cfg p) (serial p)" by (rule mset_subset_eqD)
  have "worker_name (cfg p) i \<noteq> w_name w" if "serial p < i" for i
    using mem that in_ledger [of "cfg p" i "serial p"] by auto
  then show "untouched (w_name w) (workspaces p (w_name w)) p" by (simp add: untouched_def kept_tree_def workspaces_def)
  from ledger_distinct [OF names] show "w_name w \<notin> w_name ` set (free_q p)" "w_name w \<notin> w_name ` set h"
    "w_name w \<notin> w_name ` set (concat (map task_worker (tasks p)))"
    by (auto simp: owned_def)
qed

lemma others_step:
  assumes "box_inv st cf (p, h @ [w], d)" "box_step st (p, h, d) (p', h', d')"
  shows "workspaces p' (w_name w) = workspaces p (w_name w)"
proof -
  let ?es = "workspaces p (w_name w)"
  from assms(1) have "tidy st" by (simp add: box_inv_def)
  have used: "workspaces (p\<lparr>cluster := c\<rparr>) (w_name w) = ?es"
    if "v \<in> set h" "only_in (w_name v) (workspaces p) c" for v c
  proof -
    have "w_name v \<noteq> w_name w" using imageI [OF that(1), of w_name] held_apart(3) [OF assms(1)] by metis
    with that(2) show ?thesis by (auto simp: only_in_def workspaces_def)
  qed
  have start_in: "only_in (w_name v) (workspaces p) (cluster p)" for v
    using assms(1) by (simp add: only_in_def box_inv_def tree_inv_def workspaces_def)
  have kept: "workspaces q (w_name w) = ?es" if "untouched (w_name w) ?es q" for q
    using that by (simp add: untouched_def kept_tree_def workspaces_def)
  show ?thesis
    using assms(2)
  proof (cases rule: box_step.cases)
    case (box_start r)
    from kept [OF keepsD [OF untouched_start held_apart(1) [OF assms(1)] box_start(3)]] show ?thesis .
  next
    case (box_lease v)
    with lease_result [OF box_lease(3)] show ?thesis by (auto simp: workspaces_def)
  next
    case (box_no_worker e)
    then show ?thesis by (auto simp: lease_def workspaces_def split: list.splits option.splits)
  next
    case (box_use v argv t k env input clean r c)
    from keepsD [OF only_in_exec [OF \<open>tidy st\<close> refl] start_in box_use(5)] used [OF box_use(4)] box_use(1) show ?thesis by simp
  next
    case (box_prepare v restore r c)
    have "keeps (only_in (w_name v) (workspaces p)) (prep_workspace (machine_kube st) (cfg p) v restore)"
      unfolding prep_workspace_def by (intro py_intros \<open>tidy st\<close> refl)
    from keepsD [OF this start_in box_prepare(5)] used [OF box_prepare(4)] box_prepare(1) show ?thesis by simp
  next
    case (box_collect v k t r c)
    from keepsD [OF only_in_collect [OF \<open>tidy st\<close> refl] start_in box_collect(5)] used [OF box_collect(4)] box_collect(1) show ?thesis by simp
  next
    case (box_elapse b)
    then show ?thesis by (simp add: workspaces_def)
  next
    case (box_release v clean retire r)
    show ?thesis by (rule release_result [OF box_release(5)]) (auto simp: workspaces_def)
  next
    case (box_retire v r)
    then show ?thesis by (auto simp: retire_worker_def start_task_def updates_def workspaces_def)
  next
    case (box_thread i)
    have "w_name w \<notin> w_name ` set (task_worker (tasks p ! i))"
      using held_apart(4) [OF assms(1)] box_thread(4) by (auto simp: image_iff)
    with kept [OF untouched_thread [OF held_apart(1) [OF assms(1)] box_thread(4)]] box_thread(1) show ?thesis by simp
  next
    case (box_close r)
    from kept [OF keepsD [OF untouched_close held_apart(1) [OF assms(1)] box_close(3)]] show ?thesis .
  qed
qed

lemma others_steps:
  assumes "(box_step st)\<^sup>*\<^sup>* (p, h, d) (p', h', d')" "box_inv st cf (p, h @ [w], d)"
  shows "workspaces p' (w_name w) = workspaces p (w_name w) \<and> box_inv st cf (p', h' @ [w], d')"
  using assms
proof (induction "(p', h', d')" arbitrary: p' h' d' rule: rtranclp_induct)
  case (step s)
  obtain q g e where s: "s = (q, g, e)" by (cases s)
  from step.hyps(3) [OF s step.prems] have ih: "workspaces q (w_name w) = workspaces p (w_name w)" "box_inv st cf (q, g @ [w], e)"
    by blast+
  from step.hyps(2) s have st: "box_step st (q, g, e) (p', h', d')" by simp
  from others_step [OF ih(2) st] box_inv_step [OF ih(2) others_lift [OF st]] ih(1) show ?case by simp
qed simp

section \<open>A session is one machine\<close>

text \<open>A session that holds \<open>w\<close> of the pool.\<close>

definition holding :: "worker \<Rightarrow> 'b world pool \<Rightarrow> 'b world session" where
  "holding w p = \<lparr>s_pool = p, s_restore = [], s_worker = Some w, s_dead = False\<rparr>"

text \<open>
  Its user makes calls, each of which ends before its time-out, and checkpoints; between them others take any steps. The results of
  the calls are collected.
\<close>

inductive driven :: "'b site \<Rightarrow> worker \<Rightarrow> 'b world sys \<Rightarrow> session_op list \<Rightarrow> json run_result list \<Rightarrow> 'b world sys \<Rightarrow> bool"
  for st w where
  driven_done: "driven st w (p, h, d) [] [] (p, h, d)"
| driven_others: "box_step st (p, h, d) s \<Longrightarrow> driven st w s opers rs s' \<Longrightarrow> driven st w (p, h, d) opers rs s'"
| driven_call: "session_call (machine_kube st) argv t k env input (holding w p) = (Inr r, s) \<Longrightarrow> \<not> timed_out r \<Longrightarrow>
    driven st w (s_pool s, h, d) opers rs s' \<Longrightarrow> driven st w (p, h, d) (Call argv t k env input # opers) (r # rs) s'"
| driven_checkpoint: "checkpoint (machine_kube st) id t (holding w p) = (Inr ms, s) \<Longrightarrow>
    driven st w (s_pool s, h, d) opers rs s' \<Longrightarrow> driven st w (p, h, d) (Checkpoint t # opers) rs s'"

text \<open>The specification: the calls one after the other on one tree.\<close>

fun chain :: "'b site \<Rightarrow> sandbox_config \<Rightarrow> session_op list \<Rightarrow> json run_result list \<Rightarrow> entries \<Rightarrow> entries \<Rightarrow> bool" where
  "chain st cf [] [] es es' \<longleftrightarrow> es' = es"
| "chain st cf (Call argv t k env input # opers) (r # rs) es es' \<longleftrightarrow>
     (\<exists>em. run_on st cf argv k env input es r em \<and> chain st cf opers rs em es')"
| "chain st cf (Checkpoint t # opers) rs es es' \<longleftrightarrow> chain st cf opers rs es es'"
| "chain st cf _ _ es es' \<longleftrightarrow> False"

lemma holding_simps [simp]:
  "s_pool (holding w p) = p" "s_worker (holding w p) = Some w" "\<not> s_dead (holding w p)"
  by (simp_all add: holding_def)

lemma call_runs:
  assumes "session_call (machine_kube st) argv t k env input (holding w p) = (Inr r, s)" "\<not> timed_out r"
  obtains c where "s = holding w (p\<lparr>cluster := c\<rparr>)"
    "exec_on_worker (machine_kube st) (cfg p) w argv (timeout_of (cfg p) t) k env input False (cluster p) = (Inr r, c)"
proof -
  obtain x c where x: "exec_on_worker (machine_kube st) (cfg p) w argv (timeout_of (cfg p) t) k env input False (cluster p) = (x, c)"
    by (meson surj_pair)
  from call_live [of "holding w p" w "machine_kube st" argv t k env input x c] x assms(1)
  have out: "run_outcome (k_now (machine_kube st) c - k_now (machine_kube st) (cluster p)) (w_name w) x = (Inr r, \<exists>e. x = Inl e)"
    and s: "s = (if \<exists>e. x = Inl e then retired (holding w p\<lparr>s_pool := p\<lparr>cluster := c\<rparr>\<rparr>) w else holding w p\<lparr>s_pool := p\<lparr>cluster := c\<rparr>\<rparr>)"
    using run_outcome_retire [of "k_now (machine_kube st) c - k_now (machine_kube st) (cluster p)" "w_name w" x]
    by (auto intro: prod_eqI)
  from out assms(2) have "x = Inr r" by (auto simp: run_outcome_def timeout_result_def split: sum.splits exn.splits)
  with s x that show thesis by (simp add: holding_def)
qed

lemma checkpoint_runs:
  assumes "checkpoint (machine_kube st) tar t (holding w p) = (r, s)"
  obtains k x c where "s = holding w (p\<lparr>cluster := c\<rparr>)"
    "collect (machine_kube st) (cfg p) w CollectAll k (cluster p) = (x, c)"
  using assms by (auto simp: checkpoint_live [of _ w] holding_def split: prod.splits sum.splits)

lemma driven_chain:
  assumes "driven st w s opers rs s'" "box_inv st cf (fst s, fst (snd s) @ [w], snd (snd s))" "faithful_wire st" "whole_stdin st"
  shows "chain st cf opers rs (workspaces (fst s) (w_name w)) (workspaces (fst s') (w_name w))"
  using assms(1,2)
proof (induction rule: driven.induct)
  case (driven_others p h d s opers rs s')
  obtain q g e where s: "s = (q, g, e)" by (cases s)
  from driven_others.prems have inv: "box_inv st cf (p, h @ [w], d)" by simp
  from driven_others.hyps(1) s have st: "box_step st (p, h, d) (q, g, e)" by simp
  from others_step [OF inv st] box_inv_step [OF inv others_lift [OF st]] driven_others.IH show ?case by (simp add: s)
next
  case (driven_call argv t k env input p r s h d opers rs s')
  from driven_call.prems have inv: "box_inv st cf (p, h @ [w], d)" by simp
  then have cf: "cfg p = cf" by (simp add: box_inv_def pool_inv_def)
  from call_runs [OF driven_call.hyps(1,2)] obtain c where s: "s = holding w (p\<lparr>cluster := c\<rparr>)"
    and ex: "exec_on_worker (machine_kube st) cf w argv (timeout_of cf t) k env input False (cluster p) = (Inr r, c)"
    unfolding cf by blast
  have "box_step st (p, h @ [w], d) (p\<lparr>cluster := c\<rparr>, h @ [w], d)"
    by (rule box_use [of w]) (use ex cf in simp_all)
  from driven_call.IH box_inv_step [OF inv this] exec_on_machine [OF assms(3,4) ex] s show ?case
    by (auto simp: workspaces_def)
next
  case (driven_checkpoint t p ms s h d opers rs s')
  from driven_checkpoint.prems have inv: "box_inv st cf (p, h @ [w], d)" by simp
  from checkpoint_runs [OF driven_checkpoint.hyps(1)] obtain k x c where s: "s = holding w (p\<lparr>cluster := c\<rparr>)"
    and col: "collect (machine_kube st) (cfg p) w CollectAll k (cluster p) = (x, c)" by blast
  have "box_step st (p, h @ [w], d) (p\<lparr>cluster := c\<rparr>, h @ [w], d)"
    by (rule box_collect [of w]) (use col in simp_all)
  from driven_checkpoint.IH box_inv_step [OF inv this] collect_tree [OF col] s show ?case
    by (simp add: workspaces_def)
qed simp


text \<open>It starts with the restored files in an empty workspace.\<close>

lemma entered_tree:
  assumes "box_inv st cf (p, h, d)" "faithful_wire st" "whole_stdin st"
    and "session_enter (machine_kube st) (session_new p restore) = (Inr (), s)"
  obtains w q where "s = holding w q" "fst (received st restore []) = None"
    "workspaces q (w_name w) = snd (received st restore [])"
proof -
  let ?kb = "machine_kube st"
  obtain r q where q: "enter_pool ?kb p = (r, q)" by (meson surj_pair)
  with assms(4) obtain w where r: "r = Inr w" by (cases r) (simp_all add: enter_result session_new_def)
  obtain y c where y: "prep_workspace ?kb (cfg q) w restore (cluster q) = (y, c)" by (meson surj_pair)
  with assms(4) q r have "y = Inr ()" and s: "s = holding w (q\<lparr>cluster := c\<rparr>)"
    by (cases y; simp add: enter_result session_new_def holding_def)+
  have erasable: "erasable_all (snd (cluster q) n)" for n
  proof -
    from q r obtain u where "if is_started p then u = p else \<exists>v. start ?kb p = (v, u)" and lease: "lease ?kb u = (Inr w, q)"
      by (auto simp: enter_pool_def reads_andThen ret_def throw_def split: if_splits elim!: andThen_cases)
    then have "box_inv st cf (u, h, d)"
      using assms(1) box_inv_step [OF assms(1) box_start] by (auto split: if_splits)
    then have "erasable_all (snd (cluster u) n)" by (simp add: box_inv_def tree_inv_def workspaces_def)
    with lease_result [OF lease] show ?thesis by auto
  qed
  let ?t = "max (default_timeout_s (cfg q)) 30"
  from y \<open>y = Inr ()\<close> obtain c1 where clean: "clean_workspace ?kb (cfg q) w ?t (cluster q) = (Inr (), c1)"
    and rest: "(if restore \<noteq> [] then upload ?kb w restore ?t else ret ()) c1 = (Inr (), c)"
    unfolding prep_workspace_def by (auto elim!: andThen_cases)
  from clean_emptied [OF clean erasable] have empty: "snd c1 (w_name w) = []" by simp
  have "fst (received st restore []) = None \<and> snd c (w_name w) = snd (received st restore [])"
  proof (cases "restore = []")
    case True
    with rest empty show ?thesis by (simp add: ret_def received_def)
  next
    case False
    with rest have "upload ?kb w restore ?t c1 = (Inr (), c)" by simp
    from upload_on_machine [OF assms(2,3) this False] empty show ?thesis by simp
  qed
  with that [OF s] show thesis by (simp add: workspaces_def)
qed

section \<open>Sessions on machines that answer at once\<close>

lemma prompt_call:
  assumes "1 \<le> timeout_of (cfg p) t"
    and "st_prog (prompt_site prog) argv (workspaces p (w_name w)) = \<lparr>pr_out = out, pr_err = err, pr_status = status, pr_tree = es\<rparr>"
    and "exit_code_of status = Inr code"
  shows "session_call (machine_kube (prompt_site prog)) argv t CollectNone None [] (holding w p) =
    (Inr \<lparr>stdout = out, stderr = err, exit_code = Some code, timed_out = False, duration_s = 0, sandbox_id = w_name w,
       files = [], files_truncated = []\<rparr>, holding w (p\<lparr>cluster := (fst (cluster p), (workspaces p)(w_name w := es))\<rparr>))"
proof -
  have "st_prog (prompt_site prog) argv (snd (cluster p) (w_name w)) = \<lparr>pr_out = out, pr_err = err, pr_status = status, pr_tree = es\<rparr>"
    using assms(2) by (simp add: workspaces_def)
  from prompt_exec [OF assms(1) this assms(3)] call_live [of "holding w p" w] show ?thesis
    by (simp add: run_outcome_def holding_def workspaces_def)
qed

lemma prompt_checkpoint:
  assumes "collector no_links None (max_collect_bytes (cfg p)) (workspaces p (w_name w)) = \<lparr>k_out = fs, k_trunc = [], k_total = n\<rparr>"
  shows "fst (checkpoint (machine_kube (prompt_site prog)) tar t (holding w p)) = Inr (pack_snapshot tar fs)"
proof -
  let ?out = "collector_output \<lparr>k_out = fs, k_trunc = [], k_total = n\<rparr>"
  have reply: "collect_reply 0 ?out = Inr (fs, [])"
    using reply_of_collector [of no_links None "max_collect_bytes (cfg p)" "workspaces p (w_name w)"] assms by simp
  have "fst (collect (machine_kube (prompt_site prog)) (cfg p) w CollectAll (max (timeout_of (cfg p) t) 15) (cluster p)) = Inr (fs, [])"
    using assms reply by (simp add: collect_def andThen_def tryExcept_def collect_want_def prompt_run Let_def run_process_def workspaces_def
        good_status_code py_defs)
  then obtain c where "collect (machine_kube (prompt_site prog)) (cfg p) w CollectAll (max (timeout_of (cfg p) t) 15) (cluster p) =
      (Inr (fs, []), c)" by (metis prod.collapse)
  then show ?thesis by (simp add: checkpoint_live [of _ w])
qed

lemma prompt_enter:
  assumes "is_started p" "\<not> is_closed p" "free_q p = w # ws" "1 \<le> default_timeout_s (cfg p)" "restore \<noteq> []"
    and "workspaces p (w_name w) = []" "received (prompt_site prog) restore [] = (None, es)"
  shows "session_enter (machine_kube (prompt_site prog)) (session_new p restore) =
    (Inr (), holding w (p\<lparr>free_q := ws, cluster := (fst (cluster p), (workspaces p)(w_name w := es))\<rparr>))"
proof -
  let ?kb = "machine_kube (prompt_site prog)" and ?c = "(fst (cluster p), (workspaces p)(w_name w := []))"
  have enter: "enter_pool ?kb p = (Inr w, p\<lparr>free_q := ws\<rparr>)"
    using assms(1-3) by (simp add: enter_pool_def reads_andThen ret_andThen lease_def)
  have "upload ?kb w restore (max (default_timeout_s (cfg p)) 30) ?c = (Inr (), (fst ?c, (snd ?c)(w_name w := es)))"
    by (rule prompt_upload) (use assms(5,7) in \<open>simp_all add: workspaces_def\<close>)
  moreover have "clean_workspace ?kb (cfg p) w (max (default_timeout_s (cfg p)) 30) (cluster p) = (Inr (), ?c)"
    using assms(6) by (simp add: prompt_clean cleaner_def workspaces_def)
  ultimately have "prep_workspace ?kb (cfg p) w restore (cluster p) = (Inr (), (fst ?c, (snd ?c)(w_name w := es)))"
    using assms(5) by (simp add: prep_workspace_def andThen_def)
  with enter show ?thesis by (simp add: enter_result session_new_def holding_def)
qed

section \<open>A session on a toy machine\<close>

text \<open>Two calls of a command that shows the workspace and leaves a file; in between another caller leases the other worker.\<close>

definition toy_box :: "toy world kube" where
  "toy_box = machine_kube (prompt_site leave_file)"

definition leased :: "toy world pool \<Rightarrow> toy world pool" where
  "leased p = snd (lease toy_box p)"

definition first_held :: worker where
  "first_held = hd (free_q world_warm)"

definition called :: "toy world pool \<Rightarrow> (exn + json run_result) \<times> toy world session" where
  "called p = session_call toy_box [''id''] None CollectNone None [] (holding first_held p)"

definition after_call :: "toy world pool" where
  "after_call = s_pool (snd (called (leased world_warm)))"

definition shown :: "string \<Rightarrow> json run_result" where
  "shown out = \<lparr>stdout = out, stderr = [], exit_code = Some 0, timed_out = False, duration_s = 0,
     sandbox_id = ''box-1'', files = [], files_truncated = []\<rparr>"

lemma toy_calls: "fst (called (leased world_warm)) = Inr (shown [])" "fst (called (leased after_call)) = Inr (shown ''left'')"
  by code_simp+

lemma first_lease: "lease toy_box world_warm = (Inr first_held, leased world_warm)"
  using world_warm_free by (cases "free_q world_warm") (simp_all add: lease_def leased_def first_held_def)

lemma other_lease: "\<exists>v. lease toy_box after_call = (Inr v, leased after_call)"
proof -
  have "map w_name (free_q after_call) = [''box-2'']" by code_simp
  then show ?thesis by (cases "free_q after_call") (simp_all add: lease_def leased_def)
qed

lemma held_reachable: "box_reachable (prompt_site leave_file) toy_config (leased world_warm, [] @ [first_held], {w_name first_held})"
proof -
  have "box_step (prompt_site leave_file) (world_warm, [], {}) (leased world_warm, [first_held], {w_name first_held})"
    using box_lease [OF first_lease [unfolded toy_box_def], of "[]" "{}"] by simp
  with world_warm_reachable show ?thesis
    unfolding box_reachable_def append_Nil by (meson rtranclp.rtrancl_into_rtrancl)
qed


end
