(* ===== verification/Turns.thy ===== *)
theory Turns
  imports SessionRuns Resume AgentState UseCases
begin

text \<open>
  \<^verbatim>\<open>stateful_agent.py\<close> as a whole: a turn of an agent in a session, a checkpoint, and the next turn in a session that
  resumes it on another worker, of the same pool or of another one.
\<close>

section \<open>A resumed workspace\<close>

text \<open>
  A checkpoint on the machine is the snapshot of what the collector reads there, unless collecting was cut short, and then it is empty.
\<close>

lemma checkpoint_on_machine:
  assumes "faithful_wire st" "checkpoint (machine_kube st) tar t (holding w p) = (Inr blob, s)" "blob \<noteq> pack_snapshot tar []"
  shows "blob = pack_snapshot tar (k_out (collector (st_outside st) None (max_collect_bytes (cfg p)) (workspaces p (w_name w))))"
proof -
  let ?kb = "machine_kube st" and ?cut = "max (timeout_of (cfg p) t) 15"
  obtain x c where col: "collect ?kb (cfg p) w CollectAll ?cut (cluster p) = (x, c)" by (meson surj_pair)
  have live: "s_worker (holding w p) = Some w" "\<not> s_dead (holding w p)" by simp_all
  from col assms(2) obtain fs where x: "x = Inr (fs, [])" "blob = pack_snapshot tar fs"
    by (auto simp: checkpoint_live [OF live] split: sum.splits prod.splits if_splits)
  define pr where "pr = \<lparr>pr_out = [], pr_err = [], pr_status = [], pr_tree = snd (cluster p) (w_name w)\<rparr>"
  have "pr_tree pr = snd (cluster p) (w_name w)" "collects CollectAll" by (simp_all add: pr_def collects_def)
  from collect_on_machine [OF assms(1) this col [unfolded x(1)]] have "(fs, []) = collected_from st (cfg p) CollectAll pr \<or> fs = []" by auto
  with assms(3) x(2) show ?thesis
    by (auto simp: collected_from_def collects_def collect_want_def Let_def pr_def workspaces_def)
qed

text \<open>A session that resumes a checkpoint enters a workspace with the same files.\<close>

lemma resumed_tree:
  assumes "archives_files tar untar" "faithful_wire st" "checkpoint (machine_kube st) tar t (holding w p) = (Inr blob, s)"
    and "blob \<noteq> pack_snapshot tar []" "plain_entries (workspaces p (w_name w))"
    and "int (entries_size (workspaces p (w_name w))) \<le> max_collect_bytes (cfg p)"
    and "box_inv st2 cf2 (p2, h2, d2)" "faithful_wire st2" "whole_stdin st2"
    and "resume untar blob p2 = Inr s2" "length (upload_payload (s_restore s2)) < 10 ^ 16"
    and "session_enter (machine_kube st2) s2 = (Inr (), s3)"
  obtains v q where "s3 = holding v q"
    "\<forall>rel. file_at (name_path rel) (workspaces q (w_name v)) = file_at (name_path rel) (workspaces p (w_name w))"
proof -
  let ?es = "workspaces p (w_name w)" and ?max = "max_collect_bytes (cfg p)"
  obtain fs where
    fs: "unpack_snapshot untar (pack_snapshot tar (k_out (collector (st_outside st) None ?max ?es))) = Inr fs"
    and "int (total_size fs) \<le> ?max"
    and stored: "\<And>ct' inp. \<forall>x \<in> set inp. x \<noteq> [] \<Longrightarrow> concat inp = upload_frame fs \<Longrightarrow> length (upload_payload fs) < 10 ^ 16 \<Longrightarrow>
      \<exists>es'. uploader ct' inp [] = (None, es') \<and> (\<forall>rel. file_at (name_path rel) es' = file_at (name_path rel) ?es)"
    by (rule snapshot_uploads [OF assms(1,5,6), of "st_outside st"]) metis
  from assms(10) fs checkpoint_on_machine [OF assms(2-4)] have s2: "s2 = session_new p2 fs"
    by (auto simp: resume_def split: if_splits)
  from entered_tree [OF assms(7-9) assms(12) [unfolded s2]] obtain v q where q: "s3 = holding v q"
    "workspaces q (w_name v) = snd (received st2 fs [])" .
  have "s_restore s2 = fs" unfolding s2 session_new_def by simp
  then have short: "length (upload_payload fs) < 10 ^ 16" using assms(11) by (rule subst)
  have whole: "\<forall>x \<in> set [upload_frame fs]. x \<noteq> []" using upload_frame_not_Nil [of fs] by simp
  have "concat [upload_frame fs] = upload_frame fs" by simp
  from stored [OF whole this short, of "st_outside st2"] obtain es' where "uploader (st_outside st2) [upload_frame fs] [] = (None, es')"
    "\<forall>rel. file_at (name_path rel) es' = file_at (name_path rel) ?es" by blast
  then show thesis using that [OF q(1)] q(2) by (simp add: received_as_upload)
qed

section \<open>Two turns of an agent\<close>

type_synonym 'v agent = "'v namespace \<Rightarrow> (string, byte list) dict \<Rightarrow> (exn + 'v namespace) \<times> (string, byte list) dict"

text \<open>
  The command \<open>argv\<close> of a machine runs the harness around the code of an agent: a process that exits with code 0 has completed the turn
  on the files that it found.
\<close>

definition runs_turn :: "'b site \<Rightarrow> 'v interp \<Rightarrow> 'v agent \<Rightarrow> 'v namespace \<Rightarrow> string list \<Rightarrow> bool" where
  "runs_turn st it agent g0 argv \<longleftrightarrow> (\<forall>es. exit_code_of (pr_status (st_prog st argv es)) = Inr 0 \<longrightarrow>
     (\<exists>fs g fs'. map_of fs ns_file = file_at (name_path ns_file) es \<and> harness_turn it agent g0 fs = (Inr g, fs') \<and>
        map_of fs' ns_file = file_at (name_path ns_file) (pr_tree (st_prog st argv es))))"

text \<open>A turn in a session: a call without input files that ends with code 0.\<close>

definition turn :: "'b site \<Rightarrow> string list \<Rightarrow> env_vars option \<Rightarrow> worker \<Rightarrow> 'b world pool \<Rightarrow> 'b world pool \<Rightarrow> bool" where
  "turn st argv env w p q \<longleftrightarrow> (\<exists>t k r. session_call (machine_kube st) argv t k env [] (holding w p) = (Inr r, holding w q) \<and>
     \<not> timed_out r \<and> exit_code r = Some 0)"

lemma turn_on_machine:
  assumes "faithful_wire st" "whole_stdin st" "turn st argv env w p q" "with_env argv env = Inr argv'" "runs_turn st it agent g0 argv'"
  obtains fs g fs' where "map_of fs ns_file = file_at (name_path ns_file) (workspaces p (w_name w))"
    "harness_turn it agent g0 fs = (Inr g, fs')"
    "map_of fs' ns_file = file_at (name_path ns_file) (workspaces q (w_name w))"
proof -
  from assms(3) obtain t k r where call: "session_call (machine_kube st) argv t k env [] (holding w p) = (Inr r, holding w q)"
    and r: "\<not> timed_out r" "exit_code r = Some 0" by (auto simp: turn_def)
  from call_runs [OF call r(1)] obtain c where c: "holding w q = holding w (p\<lparr>cluster := c\<rparr>)"
    and ex: "exec_on_worker (machine_kube st) (cfg p) w argv (timeout_of (cfg p) t) k env [] False (cluster p) = (Inr r, c)" .
  from c have q: "q = p\<lparr>cluster := c\<rparr>" by (simp add: holding_def)
  from exec_on_machine [OF assms(1,2) ex] assms(4) r(2)
  have "exit_code_of (pr_status (st_prog st argv' (workspaces p (w_name w)))) = Inr 0"
    "workspaces q (w_name w) = pr_tree (st_prog st argv' (workspaces p (w_name w)))"
    by (auto simp: run_on_def process_on_def received_def workspaces_def q)
  with assms(5) that show thesis unfolding runs_turn_def by metis
qed


section \<open>The agent of the script\<close>

text \<open>The values of its variables; the lambda adds a constant.\<close>

datatype pyval = PInt int | PStr string | PTuple "pyval list" | PList "pyval list" | PDict "(pyval \<times> pyval) list" | PAdd int

definition agent_nums :: "int list" where
  "agent_nums = [3, 1, 4, 1, 5]"

definition turn_1_vars :: "pyval namespace" where
  "turn_1_vars =
     (let memo = foldl (\<lambda>m n. dict_put (PInt n) (PInt (sum_list [0..n])) m) [] agent_nums;
          last_answer = sum_list agent_nums;
          history = [PTuple [PStr (''sum '' @ join_with (CHR '' '') (map json_int agent_nums)), PInt last_answer]]
      in [(''memo'', PDict memo), (''history'', PList history), (''bump'', PAdd 100), (''nums'', PList (map PInt agent_nums)),
          (''n'', PInt (last agent_nums)), (''last_answer'', PInt last_answer)])"

definition agent_turn_1 :: "pyval agent" where
  "agent_turn_1 g fs = (Inr (dict_update g turn_1_vars), fs)"

fun bumped :: "pyval option \<Rightarrow> int \<Rightarrow> exn + int" where
  "bumped (Some (PAdd k)) a = Inr (a + k)"
| "bumped (Some _) a = Inl (OtherErr ''TypeError'')"
| "bumped None a = Inr (a + 100)"

text \<open>On variables of other types than the first turn gives them it raises \<^verbatim>\<open>TypeError\<close>.\<close>

definition agent_turn_2 :: "pyval agent" where
  "agent_turn_2 g fs =
     ((case (map_of g ''last_answer'', map_of g ''memo'', map_of g ''history'') of
         (Some (PInt a), Some (PDict memo), Some (PList history)) \<Rightarrow>
           (case bumped (map_of g ''bump'') a of
              Inl e \<Rightarrow> Inl e
            | Inr ans \<Rightarrow> Inr (dict_update g [(''answer'', PInt ans), (''last_answer'', PInt ans),
                (''history'', PList (history @ [PTuple [PStr ''add 100'', PInt ans]]))]))
       | (Some _, Some _, Some _) \<Rightarrow> Inl (OtherErr ''TypeError'')
       | _ \<Rightarrow> Inl (OtherErr ''NameError'')), fs)"

text \<open>The other harness: \<^verbatim>\<open>dill\<close> saves and loads the whole namespace.\<close>

definition dill_file :: string where
  "dill_file = ''session.pkl''"

definition dill_turn :: "('v namespace \<Rightarrow> byte list) \<Rightarrow> (byte list \<Rightarrow> 'v namespace option) \<Rightarrow> 'v agent \<Rightarrow> 'v namespace \<Rightarrow>
    (string, byte list) dict \<Rightarrow> (exn + 'v namespace) \<times> (string, byte list) dict" where
  "dill_turn dump_session load_session agent g0 fs =
     (case (case map_of fs dill_file of
         None \<Rightarrow> Inr g0
       | Some b \<Rightarrow> (case load_session b of None \<Rightarrow> Inl (OtherErr ''UnpicklingError'') | Some d \<Rightarrow> Inr (dict_update g0 d))) of
        Inl e \<Rightarrow> (Inl e, fs)
      | Inr g \<Rightarrow> (case agent g fs of
          (Inl e, fs') \<Rightarrow> (Inl e, fs')
        | (Inr g', fs') \<Rightarrow> (Inr g', dict_put dill_file (dump_session g') fs')))"

lemma turn_1_vars_eq: "turn_1_vars =
    [(''memo'', PDict [(PInt 3, PInt 6), (PInt 1, PInt 1), (PInt 4, PInt 10), (PInt 5, PInt 15)]),
     (''history'', PList [PTuple [PStr ''sum 3 1 4 1 5'', PInt 14]]), (''bump'', PAdd 100),
     (''nums'', PList [PInt 3, PInt 1, PInt 4, PInt 1, PInt 5]), (''n'', PInt 5), (''last_answer'', PInt 14)]"
  by code_simp

lemma turn_1_found:
  "map_of (dict_update g turn_1_vars) k = (case map_of turn_1_vars k of None \<Rightarrow> map_of g k | Some v \<Rightarrow> Some v)"
  "map_of turn_1_vars ''memo'' = Some (PDict [(PInt 3, PInt 6), (PInt 1, PInt 1), (PInt 4, PInt 10), (PInt 5, PInt 15)])"
  "map_of turn_1_vars ''history'' = Some (PList [PTuple [PStr ''sum 3 1 4 1 5'', PInt 14]])"
  "map_of turn_1_vars ''bump'' = Some (PAdd 100)" "map_of turn_1_vars ''last_answer'' = Some (PInt 14)"
  using map_of_dict_update [of turn_1_vars g]
  by (simp_all add: turn_1_vars_eq dict_ok_def map_add_def split: option.split)

text \<open>The second turn on what it finds by name.\<close>

lemma turn_2_found:
  assumes "map_of g ''last_answer'' = Some (PInt 14)" "map_of g ''memo'' = Some (PDict m)" "map_of g ''history'' = Some (PList [a])"
    and "map_of g ''bump'' \<in> {None, Some (PAdd 100)}"
  obtains g2 where "agent_turn_2 g fs = (Inr g2, fs)" "map_of g2 ''last_answer'' = Some (PInt 114)"
    "map_of g2 ''bump'' = map_of g ''bump''" "map_of g2 ''history'' = Some (PList [a, PTuple [PStr ''add 100'', PInt 114]])"
proof -
  have bump: "bumped (map_of g ''bump'') 14 = Inr 114" using assms(4) by auto
  let ?new = "[(''answer'', PInt 114), (''last_answer'', PInt 114), (''history'', PList ([a] @ [PTuple [PStr ''add 100'', PInt 114]]))]"
  have ok: "dict_ok ?new" by (simp add: dict_ok_def)
  have "agent_turn_2 g fs = (Inr (dict_update g ?new), fs)"
    unfolding agent_turn_2_def assms(1-3) by (simp add: bump)
  then show thesis by (rule that) (simp_all add: map_of_dict_update [OF ok] map_add_def)
qed

text \<open>
  C35: what the script shows: two turns with the stdlib harness in processes of their own (whose own globals are names with an
  underscore) end with the answer 114 and a history of two entries, and the function of the first turn is gone; with the
  harness of \<^verbatim>\<open>dill\<close>, if it restores the namespace it saved, the answer is the same and the function is there.
\<close>

theorem script_turns_answer:
  fixes it :: "pyval interp"
  assumes "pickle_round_trip it" "\<forall>v. skipped it v \<longleftrightarrow> (\<exists>k. v = PAdd k)" "\<forall>v. \<not> skipped it v \<longrightarrow> pickles it v"
    and "dict_ok g0" "\<forall>k \<in> fst ` set g0. k \<noteq> [] \<and> hd k = CHR ''_''" "\<forall>d. load_session (dump_session d) = Some d"
  shows "\<exists>g1 fs1 g2 fs2 h1 hfs1 h2 hfs2.
    harness_turn it agent_turn_1 g0 [] = (Inr g1, fs1) \<and> harness_turn it agent_turn_2 g0 fs1 = (Inr g2, fs2) \<and>
    map_of g2 ''last_answer'' = Some (PInt 114) \<and> map_of g2 ''bump'' = None \<and>
    dill_turn dump_session load_session agent_turn_1 g0 [] = (Inr h1, hfs1) \<and>
    dill_turn dump_session load_session agent_turn_2 g0 hfs1 = (Inr h2, hfs2) \<and>
    map_of h2 ''last_answer'' = Some (PInt 114) \<and> map_of h2 ''bump'' = Some (PAdd 100) \<and>
    (\<exists>a b. map_of g2 ''history'' = Some (PList [a, b]) \<and> map_of h2 ''history'' = Some (PList [a, b]))"
proof -
  have unnamed: "map_of g0 ''bump'' = None" using assms(5) by (force simp: map_of_eq_None_iff)
  have fresh: "carried it k v \<longleftrightarrow> \<not> (k \<noteq> [] \<and> hd k = CHR ''_'') \<and> (\<forall>a. v \<noteq> PAdd a)" for k v
    using assms(2,3) by (auto simp: carried_def)
  define g1 fs1 where "g1 = dict_update g0 turn_1_vars" and "fs1 = capture_ns it g1 []"
  have one: "harness_turn it agent_turn_1 g0 [] = (Inr g1, fs1)"
    by (simp add: harness_turn_def restore_ns_def agent_turn_1_def g1_def fs1_def)
  have "dict_ok g1" using assms(4) by (simp add: g1_def)
  from restored_variables [OF assms(1) one this] obtain b kept where kept: "map_of fs1 ns_file = Some b" "load_ns it b = Some kept"
    and look: "\<And>k. map_of (dict_update g0 kept) k = (case map_of g1 k of
        Some v \<Rightarrow> if carried it k v then Some v else map_of g0 k
      | None \<Rightarrow> map_of g0 k)" by blast
  let ?g = "dict_update g0 kept"
  have found: "map_of ?g ''last_answer'' = Some (PInt 14)"
    "map_of ?g ''memo'' = Some (PDict [(PInt 3, PInt 6), (PInt 1, PInt 1), (PInt 4, PInt 10), (PInt 5, PInt 15)])"
    "map_of ?g ''history'' = Some (PList [PTuple [PStr ''sum 3 1 4 1 5'', PInt 14]])" "map_of ?g ''bump'' = None"
    by (simp_all add: look g1_def turn_1_found fresh unnamed)
  obtain g2 where two: "agent_turn_2 ?g fs1 = (Inr g2, fs1)" "map_of g2 ''last_answer'' = Some (PInt 114)" "map_of g2 ''bump'' = None"
    "map_of g2 ''history'' = Some (PList [PTuple [PStr ''sum 3 1 4 1 5'', PInt 14], PTuple [PStr ''add 100'', PInt 114]])"
    by (rule turn_2_found [OF found(1-3), of fs1]) (use found(4) in auto)
  have "harness_turn it agent_turn_2 g0 fs1 = (Inr g2, capture_ns it g2 fs1)"
    by (simp add: harness_turn_def restore_ns_def kept two(1))
  define h where "h = dict_update g0 g1"
  have dill_one: "dill_turn dump_session load_session agent_turn_1 g0 [] = (Inr g1, [(dill_file, dump_session g1)])"
    by (simp add: dill_turn_def agent_turn_1_def g1_def)
  have "map_of h k = (case map_of g1 k of None \<Rightarrow> map_of g0 k | Some v \<Rightarrow> Some v)" for k
    using map_of_dict_update [OF \<open>dict_ok g1\<close>, of g0] by (simp add: h_def map_add_def)
  then have hfound: "map_of h ''last_answer'' = Some (PInt 14)"
    "map_of h ''memo'' = Some (PDict [(PInt 3, PInt 6), (PInt 1, PInt 1), (PInt 4, PInt 10), (PInt 5, PInt 15)])"
    "map_of h ''history'' = Some (PList [PTuple [PStr ''sum 3 1 4 1 5'', PInt 14]])" "map_of h ''bump'' = Some (PAdd 100)"
    by (simp_all add: g1_def turn_1_found)
  obtain h2 where h2: "agent_turn_2 h [(dill_file, dump_session g1)] = (Inr h2, [(dill_file, dump_session g1)])"
    "map_of h2 ''last_answer'' = Some (PInt 114)" "map_of h2 ''bump'' = Some (PAdd 100)"
    "map_of h2 ''history'' = Some (PList [PTuple [PStr ''sum 3 1 4 1 5'', PInt 14], PTuple [PStr ''add 100'', PInt 114]])"
    by (rule turn_2_found [OF hfound(1-3), of "[(dill_file, dump_session g1)]"]) (use hfound(4) in auto)
  have "dill_turn dump_session load_session agent_turn_2 g0 [(dill_file, dump_session g1)] =
      (Inr h2, [(dill_file, dump_session h2)])"
    using h2(1) by (simp add: dill_turn_def assms(6) h_def)
  with one two \<open>harness_turn it agent_turn_2 g0 fs1 = _\<close> dill_one h2(2-) show ?thesis by blast
qed

section \<open>The main function\<close>

definition with_harness :: "string \<Rightarrow> string \<Rightarrow> string \<Rightarrow> string" where
  "with_harness prelude epilogue agent_code = prelude @ [CHR 0x0A] @ agent_code @ [CHR 0x0A] @ epilogue"

definition saved_turn_of :: "'c kube \<Rightarrow> (member list \<Rightarrow> 'blob) \<Rightarrow> string \<Rightarrow> ('c session, 'blob) py" where
  "saved_turn_of kb tar code = andThen (session_run kb code None CollectNone (Some []) []) (\<lambda>_. checkpoint kb tar None)"

definition agent_main :: "'c kube \<Rightarrow> (member list \<Rightarrow> 'blob) \<Rightarrow> ('blob \<Rightarrow> exn + member list) \<Rightarrow> (string \<Rightarrow> string) \<Rightarrow> string \<Rightarrow> string \<Rightarrow>
    ('c pool, 'blob) py" where
  "agent_main kb tar untar wrap code1 code2 = with_pool kb
     (andThen (with_session kb [] (saved_turn_of kb tar (wrap code1))) (\<lambda>store p.
        case resume untar store p of
          Inl e \<Rightarrow> (Inl e, p)
        | Inr s \<Rightarrow> with_session kb (s_restore s) (saved_turn_of kb tar (wrap code2)) p))"

text \<open>Each of its blocks is the life of a session, and when it ends, with or without an exception, no pod is left.\<close>

lemma agent_sessions:
  "\<exists>opers. snd (with_session kb restore (saved_turn_of kb tar code) p) = s_pool (session_life kb opers (session_new p restore))"
  unfolding saved_turn_of_def by (intro with_session_is_life py_intros)

lemma agent_main_cleans:
  assumes "pod_contract kb pods" "api_up kb" "honest_clock kb" "pool_enter kb p = (Inr (), q)"
  shows "pods (cluster (snd (agent_main kb tar untar wrap code1 code2 p))) = {}"
proof -
  from with_pool_closes [OF assms] obtain r p' where "agent_main kb tar untar wrap code1 code2 p = (r, p')" "pods (cluster p') = {}"
    unfolding agent_main_def by blast
  then show ?thesis by simp
qed

subsection \<open>On concrete codecs\<close>

text \<open>The values as JSON documents, with a mark in front of the elements.\<close>

primrec js :: "pyval \<Rightarrow> json" where
  "js (PInt i) = JInt i"
| "js (PStr s) = JStr s"
| "js (PTuple xs) = JArr (JNull # map js xs)"
| "js (PList xs) = JArr (JBool True # map js xs)"
| "js (PDict kvs) = JArr (JBool False # map (\<lambda>(k, v). JArr [k, v]) (map (map_prod js js) kvs))"
| "js (PAdd k) = JArr [JInt k]"

fun unjs :: "json \<Rightarrow> pyval" and unjs_list :: "json list \<Rightarrow> pyval list" and unjs_pairs :: "json list \<Rightarrow> (pyval \<times> pyval) list" where
  "unjs (JInt i) = PInt i"
| "unjs (JStr s) = PStr s"
| "unjs (JArr (JNull # xs)) = PTuple (unjs_list xs)"
| "unjs (JArr (JBool b # xs)) = (if b then PList (unjs_list xs) else PDict (unjs_pairs xs))"
| "unjs (JArr (JInt k # xs)) = PAdd k"
| "unjs _ = PInt 0"
| "unjs_list [] = []"
| "unjs_list (x # xs) = unjs x # unjs_list xs"
| "unjs_pairs (JArr [k, v] # kvs) = (unjs k, unjs v) # unjs_pairs kvs"
| "unjs_pairs _ = []"

lemma unjs_lists: "unjs_list xs = map unjs xs" "unjs_pairs (map (\<lambda>(k, v). JArr [k, v]) ps) = map (map_prod unjs unjs) ps"
  by (induction xs, simp_all) (induction ps, auto)

lemma unjs_js: "unjs (js v) = v"
proof (induction v)
  case (PDict kvs)
  have "map_prod unjs unjs (map_prod js js p) = p" if "p \<in> set kvs" for p
    using PDict [OF that] by (cases p) auto
  then show ?case by (simp add: unjs_lists map_idI del: map_map) (simp add: map_idI)
qed (simp_all add: unjs_lists map_idI)

lemma printable_js: "printable (js v)"
proof (induction v)
  case (PDict kvs)
  have "printable (js a) \<and> printable (js b)" if "(a, b) \<in> set kvs" for a b
    using PDict [OF that] by auto
  then show ?case by (auto simp: list_all_iff)
qed (auto simp: list_all_iff)

definition save_vars :: "pyval namespace \<Rightarrow> byte list" where
  "save_vars d = map (\<lambda>c. of_nat (of_char c)) (json_dumps (js (PDict (map (\<lambda>(k, v). (PStr k, v)) d))))"

definition load_vars :: "byte list \<Rightarrow> pyval namespace option" where
  "load_vars b = (case json_loads (map (\<lambda>x. char_of (unat x)) b) of
     Some j \<Rightarrow> (case unjs j of PDict kvs \<Rightarrow> Some (map (\<lambda>(k, v). (case k of PStr s \<Rightarrow> s | _ \<Rightarrow> [], v)) kvs) | _ \<Rightarrow> None)
   | None \<Rightarrow> None)"

lemma load_save: "load_vars (save_vars d) = Some d"
proof -
  let ?v = "PDict (map (\<lambda>(k, v). (PStr k, v)) d)"
  have "json_loads (json_dumps (js ?v)) = Some (js ?v)" by (rule json_loads_dumps [OF printable_js])
  then have "load_vars (save_vars d) =
      Some (map (\<lambda>(k, v). (case k of PStr s \<Rightarrow> s | _ \<Rightarrow> [], v)) (map (\<lambda>(k, v). (PStr k, v)) d))"
    unfolding load_vars_def save_vars_def chars_bytes by (simp add: unjs_js del: map_map js.simps unjs.simps)
  then show ?thesis by (simp add: o_def case_prod_beta map_idI)
qed

fun is_add :: "pyval \<Rightarrow> bool" where
  "is_add (PAdd k) = True"
| "is_add _ = False"

definition py_interp :: "pyval interp" where
  "py_interp = \<lparr>skipped = is_add, pickles = \<lambda>v. \<not> is_add v, dump_ns = save_vars, load_ns = load_vars\<rparr>"

theorem script_turns_answer_witness:
  "\<exists>g1 fs1 g2 fs2. harness_turn py_interp agent_turn_1 [] [] = (Inr g1, fs1) \<and>
    harness_turn py_interp agent_turn_2 [] fs1 = (Inr g2, fs2) \<and> map_of g2 ''last_answer'' = Some (PInt 114)"
proof -
  have "pickle_round_trip py_interp" by (simp add: pickle_round_trip_def py_interp_def load_save)
  moreover have "skipped py_interp v \<longleftrightarrow> (\<exists>k. v = PAdd k)" for v by (cases v) (simp_all add: py_interp_def)
  moreover have "\<not> skipped py_interp v \<longrightarrow> pickles py_interp v" for v by (simp add: py_interp_def)
  ultimately show ?thesis
    using script_turns_answer [of py_interp "[]" load_vars save_vars] load_save by (simp add: dict_ok_def) blast
qed

text \<open>A machine whose commands are turns of a small agent, on its pool and on one that has just started.\<close>

definition small_agent :: "json agent" where
  "small_agent g fs = (Inr (dict_put ''x'' (JInt 1) g), fs)"

definition turn_prog :: "string list \<Rightarrow> entries \<Rightarrow> process" where
  "turn_prog argv es =
     (case harness_turn json_interp small_agent [] (case file_at (name_path ns_file) es of None \<Rightarrow> [] | Some b \<Rightarrow> [(ns_file, b)]) of
        (Inr g, fs) \<Rightarrow> \<lparr>pr_out = ''ok'', pr_err = [], pr_status = good_status,
          pr_tree = (case map_of fs ns_file of None \<Rightarrow> es | Some b \<Rightarrow> dict_put ns_file (NFile True True b) es)\<rparr>
      | (Inl e, fs) \<Rightarrow> \<lparr>pr_out = [], pr_err = ''Traceback'', pr_status = bad_status, pr_tree = es\<rparr>)"

lemma ns_path: "name_path ns_file = [ns_file]"
  by code_simp

lemma file_at_put: "file_at [n] (dict_put n (NFile r w b) es) = Some b"
  by simp

lemma turn_prog_runs: "runs_turn (prompt_site turn_prog) json_interp small_agent [] argv"
  unfolding runs_turn_def
proof (intro allI impI)
  fix es
  assume code: "exit_code_of (pr_status (st_prog (prompt_site turn_prog) argv es)) = Inr 0"
  let ?fs = "case file_at (name_path ns_file) es of None \<Rightarrow> [] | Some b \<Rightarrow> [(ns_file, b)]"
  have bad: "exit_code_of bad_status \<noteq> Inr 0" by code_simp
  obtain x fs where x: "harness_turn json_interp small_agent [] ?fs = (x, fs)" by fastforce
  with code bad obtain g where g: "x = Inr g" by (cases x) (auto simp: prompt_site_def turn_prog_def)
  with x obtain b where b: "map_of fs ns_file = Some b"
    by (auto simp: harness_turn_def capture_ns_def split: sum.splits prod.splits)
  have "map_of ?fs ns_file = file_at (name_path ns_file) es" by (simp split: option.split)
  moreover have "file_at (name_path ns_file) (pr_tree (st_prog (prompt_site turn_prog) argv es)) = map_of fs ns_file"
    using x g b by (simp add: prompt_site_def turn_prog_def ns_path file_at_put)
  ultimately show "\<exists>fs g fs'. map_of fs ns_file = file_at (name_path ns_file) es \<and>
      harness_turn json_interp small_agent [] fs = (Inr g, fs') \<and>
      map_of fs' ns_file = file_at (name_path ns_file) (pr_tree (st_prog (prompt_site turn_prog) argv es))"
    using x g by metis
qed

lemma turn_prog_tidy: "tidy (prompt_site turn_prog)"
  by (rule prompt_tidy) (simp add: turn_prog_def erasable_dict_put split: prod.split sum.split option.split)

definition agent_kube :: "toy world kube" where
  "agent_kube = machine_kube (prompt_site turn_prog)"

definition agent_pool :: "toy world pool" where
  "agent_pool = snd (start agent_kube (world_pool toy_config))"

definition agent_worker :: worker where
  "agent_worker = hd (free_q agent_pool)"

lemma agent_pool_reachable: "box_reachable (prompt_site turn_prog) toy_config (agent_pool, [], {})"
  using toy_config_valid box_started unfolding agent_pool_def agent_kube_def by blast

text \<open>The first turn, its checkpoint, the session that resumes it and the second turn.\<close>

definition turn_bytes :: "byte list" where
  "turn_bytes = map (\<lambda>c. of_nat (of_char c)) (json_dumps (JObj [(''x'', JInt 1)]))"

definition turn_tree :: entries where
  "turn_tree = [(ns_file, NFile True True turn_bytes)]"

definition with_tree :: "entries \<Rightarrow> toy world pool \<Rightarrow> toy world pool" where
  "with_tree es p = p\<lparr>cluster := (fst (cluster p), (workspaces p)(w_name agent_worker := es))\<rparr>"

lemma turn_results: "turn_prog argv [] = \<lparr>pr_out = ''ok'', pr_err = [], pr_status = good_status, pr_tree = turn_tree\<rparr>"
  "turn_prog argv turn_tree = \<lparr>pr_out = ''ok'', pr_err = [], pr_status = good_status, pr_tree = turn_tree\<rparr>"
  by code_simp+

lemma turn_collected: "collector no_links None maxb turn_tree = \<lparr>k_out = [(ns_file, turn_bytes)], k_trunc = [], k_total = 8\<rparr>"
  if "8 \<le> maxb"
proof -
  have facts: "rel_join [ns_file] = ns_file" "read_rel no_links ns_file turn_tree = Some turn_bytes" "length turn_bytes = 8"
    by code_simp+
  with that show ?thesis by (simp add: collector_def collect_add_def facts(2) [unfolded turn_tree_def] turn_tree_def)
qed

lemma turn_received: "received (prompt_site turn_prog) [(ns_file, turn_bytes)] [] = (None, turn_tree)"
  by code_simp

lemma agent_pool_facts:
  "is_started agent_pool" "\<not> is_closed agent_pool" "map w_name (free_q agent_pool) = [''box-1'', ''box-2'']"
  "workspaces agent_pool ''box-1'' = []" "1 \<le> default_timeout_s (cfg agent_pool)"
  "8 \<le> max_collect_bytes (cfg agent_pool)" "\<not> too_big (cfg agent_pool) [(ns_file, turn_bytes)]"
  by code_simp+

lemma turn_snapshot:
  "pack_snapshot id [(ns_file, turn_bytes)] \<noteq> pack_snapshot id []"
  "unpack_snapshot demo_untar (pack_snapshot id [(ns_file, turn_bytes)]) = Inr [(ns_file, turn_bytes)]"
  "length (upload_payload [(ns_file, turn_bytes)]) = 26" "plain_entries turn_tree" "entries_size turn_tree = 8"
  by code_simp+

lemma agent_worker_free: "free_q agent_pool = agent_worker # tl (free_q agent_pool)" "w_name agent_worker = ''box-1''"
  using agent_pool_facts(3) by (cases "free_q agent_pool"; simp add: agent_worker_def)+

lemma toy_turn:
  assumes "workspaces p ''box-1'' \<in> {[], turn_tree}" "1 \<le> default_timeout_s (cfg p)"
  shows "turn (prompt_site turn_prog) [''turn''] None agent_worker p (with_tree turn_tree p)"
proof -
  have "st_prog (prompt_site turn_prog) [''turn''] (workspaces p (w_name agent_worker)) =
      \<lparr>pr_out = ''ok'', pr_err = [], pr_status = good_status, pr_tree = turn_tree\<rparr>"
    using assms(1) turn_results by (auto simp: agent_worker_free(2))
  from prompt_call [OF _ this good_status_code, of None] assms(2) show ?thesis
    unfolding turn_def with_tree_def by (intro exI [of _ None] exI [of _ CollectNone] exI) (auto simp: timeout_of_def)
qed


end
