(* ===== verification/JobArtifacts.thy ===== *)
theory JobArtifacts
  imports Isolation JobPackages JobServer
begin

text \<open>
  A job from end to end: the job server has a package run on a worker, the package reads the input file of the job and writes its
  artifact, and the reply carries what it wrote, through the pool, the websockets and the scripts in the worker.
\<close>

section \<open>The package on the files of a workspace\<close>

text \<open>Python's text mode: \<^verbatim>\<open>open(name).read()\<close> and \<^verbatim>\<open>open(name, "w")\<close>, for names that are no links.\<close>

fun newlines :: "string \<Rightarrow> string" where
  "newlines [] = []"
| "newlines (c # cs) =
     (if c = CHR 0x0D then CHR 0x0A # newlines (if cs \<noteq> [] \<and> hd cs = CHR 0x0A then tl cs else cs) else c # newlines cs)"

definition open_text :: "string \<Rightarrow> entries \<Rightarrow> exn + string" where
  "open_text n es =
     (case map_of es n of
        Some (NFile r w b) \<Rightarrow> if r then (case py_decode b of Inl e \<Rightarrow> Inl e | Inr s \<Rightarrow> Inr (newlines s)) else Inl OsErr
      | _ \<Rightarrow> Inl OsErr)"

definition write_text :: "string \<Rightarrow> string \<Rightarrow> entries \<Rightarrow> exn option \<times> entries" where
  "write_text n s es =
     (case map_of es n of
        None \<Rightarrow> (None, dict_put n (NFile True True (py_encode s)) es)
      | Some (NFile r w b) \<Rightarrow> if w then (None, dict_put n (NFile r w (py_encode s)) es) else (Some OsErr, es)
      | Some _ \<Rightarrow> (Some OsErr, es))"

text \<open>\<^verbatim>\<open>main\<close> of \<^verbatim>\<open>wordcount\<close> up to the line it prints.\<close>

definition wordcount_main :: "string option \<Rightarrow> entries \<Rightarrow> exn option \<times> entries" where
  "wordcount_main run_tag es =
     (case open_text ''input.txt'' es of
        Inl e \<Rightarrow> (Some e, es)
      | Inr s \<Rightarrow> write_text ''out.json'' (json_dumps (wordcount s run_tag)) es)"

section \<open>The uploaded tree\<close>

lemma plain_put: "plain_entries es \<Longrightarrow> entry_name n \<Longrightarrow> plain_node t \<Longrightarrow> plain_entries (dict_put n t es)"
  by (induction n t es rule: dict_put.induct) auto

lemma put_file_plain:
  "put_file p b w x es = (r, es') \<Longrightarrow> plain_entries es \<Longrightarrow> list_all entry_name p \<Longrightarrow> plain_entries es'"
proof (induction p b w x es arbitrary: r es' rule: put_file.induct)
  case (2 n b w x es)
  with plain_entries_map_of [of es n] show ?case
    by (auto simp: plain_put split: if_splits option.splits node.splits)
next
  case (3 d d' ds b w x es)
  show ?case
  proof (cases "map_of es d")
    case None
    obtain q sub where q: "put_file (d' # ds) b True True [] = (q, sub)" by fastforce
    with "3.IH"(1) [OF None _ q] "3.prems" None show ?thesis by (auto simp: plain_put split: if_splits)
  next
    case (Some t)
    show ?thesis
    proof (cases t)
      case (NDir r' w' x' sub)
      have "plain_node t" using plain_entries_map_of [OF "3.prems"(2) Some] by simp
      obtain q sub' where q: "put_file (d' # ds) b w' x' sub = (q, sub')" by fastforce
      with "3.IH"(2) [OF Some NDir _ q] "3.prems" Some NDir \<open>plain_node t\<close> show ?thesis
        by (auto simp: plain_put split: if_splits)
    qed (use "3.prems" Some in auto)
  qed
qed simp

lemma put_file_top: "n \<noteq> hd p \<Longrightarrow> map_of (snd (put_file p b w x es)) n = map_of es n"
  by (induction p b w x es rule: put_file.induct) (auto split: option.splits node.splits prod.splits)

lemma plain_name_entries: "plain_name rel \<Longrightarrow> list_all entry_name (name_path rel)"
  by (auto simp: plain_name_def name_path_def entry_name_def list_all_iff dest: split_on_parts)

lemma stored_plain:
  "\<forall>m \<in> set ms. list_all entry_name (fst m) \<Longrightarrow> plain_entries es \<Longrightarrow> plain_entries (fold (\<lambda>(p, b). store_put p b) ms es)"
proof (induction ms arbitrary: es)
  case (Cons m ms)
  obtain p b where m: "m = (p, b)" by (cases m)
  obtain r es' where put: "put_file p b True True es = (r, es')" by fastforce
  with put_file_plain [OF put] Cons m show ?case by (simp add: store_put_def)
qed simp

lemma stored_top:
  "\<forall>m \<in> set ms. hd (fst m) \<noteq> n \<Longrightarrow> map_of (fold (\<lambda>(p, b). store_put p b) ms es) n = map_of es n"
proof (induction ms arbitrary: es)
  case (Cons m ms)
  then show ?case using put_file_top [of n "fst m" "snd m" True True es] by (auto simp: store_put_def case_prod_beta)
qed simp

lemma received_tree:
  assumes "uploadable [] fs" "length (upload_payload fs) < 10 ^ 16"
  obtains es where "received st fs [] = (None, es)" "plain_entries es" "\<And>rel. file_at (name_path rel) es = map_of fs rel"
    "\<And>n. \<forall>rel \<in> fst ` set fs. hd (name_path rel) \<noteq> n \<Longrightarrow> map_of es n = None"
proof -
  let ?ms = "map (\<lambda>(rel, b). (name_path rel, b)) fs"
  define es where "es = fold (\<lambda>(p, b). store_put p b) ?ms []"
  have whole: "\<forall>x \<in> set [upload_frame fs]. x \<noteq> []" using upload_frame_not_Nil [of fs] by simp
  have "received st fs [] = (None, es)"
    using uploader_runs [OF assms(1) whole _ assms(2)] by (simp add: received_as_upload es_def)
  moreover have "\<forall>m \<in> set ?ms. list_all entry_name (fst m)"
    using assms(1) plain_name_entries by (force simp: uploadable_def)
  then have "plain_entries es" unfolding es_def by (rule stored_plain) simp
  moreover have "file_at (name_path rel) es = map_of fs rel" for rel
    using fold_store_put [OF assms(1), of rel] by (simp add: es_def split: option.splits)
  moreover have "map_of es n = None" if "\<forall>rel \<in> fst ` set fs. hd (name_path rel) \<noteq> n" for n
  proof -
    have "\<forall>m \<in> set ?ms. hd (fst m) \<noteq> n" using that by force
    then show ?thesis unfolding es_def by (subst stored_top) simp_all
  qed
  ultimately show thesis using that by blast
qed

section \<open>The artifact of a job\<close>

text \<open>
  The command of the job runs the package: where its \<^verbatim>\<open>__main__.py\<close> has the source \<open>src\<close>, the process does what \<open>wordcount_main\<close>
  says and exits with code 1 for an exception.
\<close>

definition runs_wordcount :: "'b site \<Rightarrow> string list \<Rightarrow> string option \<Rightarrow> byte list \<Rightarrow> bool" where
  "runs_wordcount st argv run_tag src \<longleftrightarrow> (\<forall>es. file_at (name_path ''__main__.py'') es = Some src \<longrightarrow>
     pr_tree (st_prog st argv es) = snd (wordcount_main run_tag es) \<and>
     pr_status (st_prog st argv es) = (if fst (wordcount_main run_tag es) = None then good_status else bad_status))"

lemma job_names:
  "name_path ''__main__.py'' = [''__main__.py'']" "name_path ''input.txt'' = [''input.txt'']" "name_path ''out.json'' = [''out.json'']"
  by code_simp+

lemma wordcount_writes:
  assumes "plain_entries es" "file_at (name_path ''input.txt'') es = Some b" "py_decode b = Inr s" "map_of es ''out.json'' = None"
  shows "wordcount_main tag es =
    (None, dict_put ''out.json'' (NFile True True (py_encode (json_dumps (wordcount (newlines s) tag)))) es)"
proof -
  from assms(2) obtain r w where "map_of es ''input.txt'' = Some (NFile r w b)"
    by (auto simp: job_names split: option.splits node.splits)
  with plain_entries_map_of [OF assms(1) this] assms(3,4) show ?thesis
    by (simp add: wordcount_main_def open_text_def write_text_def)
qed

lemma collect_one:
  assumes "map_of es ''out.json'' = Some (NFile True w b)"
  shows "k_out (collector ct (Some [''out.json'']) maxb es) \<in> {[(''out.json'', b)], []}"
proof -
  have "ws_path ''out.json'' = Some [''out.json'']" by code_simp
  with assms have "read_rel ct ''out.json'' es = Some b" by (simp add: read_rel_def)
  then show ?thesis by (simp add: collector_def collect_add_def)
qed


section \<open>A job on a toy machine\<close>

definition job_prog :: "string list \<Rightarrow> entries \<Rightarrow> process" where
  "job_prog argv es =
     (case wordcount_main None es of
        (None, es') \<Rightarrow> \<lparr>pr_out = ''wordcount'', pr_err = [], pr_status = good_status, pr_tree = es'\<rparr>
      | (Some e, es') \<Rightarrow> \<lparr>pr_out = [], pr_err = ''Traceback'', pr_status = bad_status, pr_tree = es'\<rparr>)"

definition job_pool :: "toy world pool" where
  "job_pool = snd (start (machine_kube (prompt_site job_prog)) (world_pool toy_config))"

definition job_dir :: host where
  "job_dir = HDir True [(''__main__.py'', HFile True [112])]"

definition job_input :: "(string, byte list) dict" where
  "job_input = [(''__main__.py'', [112]), (''input.txt'', [98, 32, 97, 32, 98])]"

lemma job_prog_tidy: "tidy (prompt_site job_prog)"
  by (rule prompt_tidy)
    (auto simp: job_prog_def wordcount_main_def write_text_def split: prod.splits option.splits sum.splits node.splits if_splits
      intro!: erasable_dict_put dest: erasable_map_of)

lemma job_prog_runs: "runs_wordcount (prompt_site job_prog) argv None src"
  by (auto simp: runs_wordcount_def job_prog_def split: prod.splits option.splits)

lemma job_pool_reachable: "box_reachable (prompt_site job_prog) toy_config (job_pool, [], {})"
  using toy_config_valid box_started unfolding job_pool_def by blast

lemma job_facts:
  "is_started job_pool" "\<not> is_closed job_pool" "length (free_q job_pool) = 2" "default_timeout_s (cfg job_pool) = 30"
  "\<not> too_big (cfg job_pool) job_input" "200 \<le> max_collect_bytes (cfg job_pool)"
  "project_files toy_config (Some job_dir) default_project_excludes False [(''input.txt'', [98, 32, 97, 32, 98])] = Inr job_input"
  "length (upload_frame job_input) = 64" "uploadable [] job_input" "py_decode [98, 32, 97, 32, 98] = Inr ''b a b''"
  by code_simp+




end
