(* ===== verification/StateDemo.thy ===== *)
theory StateDemo
  imports JobArtifacts UseCases
begin

text \<open>
  The script \<^verbatim>\<open>isolation_and_state.py\<close>: two snippets, one that adds a character to a file and one that shows its length,
  run in turn on a pool of one worker under three settings. Its pool is the one of the machines, so that what it prints is a
  consequence of the settings; two of its comments say something else.
\<close>

section \<open>The snippets\<close>

definition state_file :: string where
  "state_file = ''state.txt''"

definition write_snippet :: string where
  "write_snippet = ''open('' @ quoted state_file @ '', '' @ quoted ''a'' @ '').write('' @ quoted ''x'' @ ''); print('' @ quoted ''wrote'' @ '')''"

definition read_snippet :: string where
  "read_snippet = ''import os; print('' @ quoted ''len'' @ '', len(open('' @ quoted state_file @ '').read()) if os.path.exists('' @
     quoted state_file @ '') else '' @ quoted ''MISSING'' @ '')''"

definition ended :: "string \<Rightarrow> entries \<Rightarrow> process" where
  "ended out es = \<lparr>pr_out = out @ [CHR 0x0A], pr_err = [], pr_status = good_status, pr_tree = es\<rparr>"

definition traceback :: "entries \<Rightarrow> process" where
  "traceback es = \<lparr>pr_out = [], pr_err = ''Traceback'', pr_status = bad_status, pr_tree = es\<rparr>"

text \<open>There are no links in these workspaces.\<close>

definition write_state :: "entries \<Rightarrow> process" where
  "write_state es =
     (case map_of es state_file of
        None \<Rightarrow> ended ''wrote'' (dict_put state_file (NFile True True [120]) es)
      | Some (NFile r w b) \<Rightarrow> if w then ended ''wrote'' (dict_put state_file (NFile r w (b @ [120])) es) else traceback es
      | Some _ \<Rightarrow> traceback es)"

definition read_state :: "entries \<Rightarrow> process" where
  "read_state es =
     (case map_of es state_file of
        None \<Rightarrow> ended ''len MISSING'' es
      | Some _ \<Rightarrow> (case open_text state_file es of
            Inl e \<Rightarrow> traceback es
          | Inr s \<Rightarrow> ended (''len '' @ dec (length s)) es))"

section \<open>The script\<close>

text \<open>
  A caller that waits for a worker lets the background threads run. With one worker there is at most one of them, and nine of its
  steps are enough.
\<close>

fun await_worker :: "'c kube \<Rightarrow> nat \<Rightarrow> 'c pool \<Rightarrow> 'c pool" where
  "await_worker kb 0 p = p"
| "await_worker kb (Suc n) p = (if free_q p = [] \<and> tasks p \<noteq> [] then await_worker kb n (thread_step kb 0 p) else p)"

definition snippet_run :: "'c kube \<Rightarrow> string \<Rightarrow> ('c pool, json run_result) py" where
  "snippet_run kb code = andThen (updates (await_worker kb 9)) (\<lambda>_. run kb code None CollectNone None [])"

fun state_rounds :: "'c kube \<Rightarrow> nat \<Rightarrow> ('c pool, string list) py" where
  "state_rounds kb 0 = ret []"
| "state_rounds kb (Suc n) =
     andThen (snippet_run kb write_snippet) (\<lambda>_.
     andThen (snippet_run kb read_snippet) (\<lambda>r.
     andThen (state_rounds kb n) (\<lambda>ls. ret (py_strip (stdout r) # ls))))"

text \<open>What the demo prints for a configuration.\<close>

definition state_demo :: "'c kube \<Rightarrow> ('c pool, string list) py" where
  "state_demo kb = with_pool kb (state_rounds kb 3)"

definition state_configs :: "sandbox_config list" where
  "state_configs = [default_config\<lparr>pool_size := 1\<rparr>, default_config\<lparr>pool_size := 1, fresh_workdir_per_run := False\<rparr>,
     default_config\<lparr>pool_size := 1, max_uses := 1, fresh_workdir_per_run := False\<rparr>]"

lemma state_configs_valid: "\<forall>cf \<in> set state_configs. validate cf = Inr []"
  by (auto simp: state_configs_def default_config_def intro!: default_like_valid)

section \<open>What it shows\<close>

definition runs_snippets :: "'b site \<Rightarrow> bool" where
  "runs_snippets st \<longleftrightarrow> (\<forall>es. st_prog st [''python'', ''-c'', write_snippet] es = write_state es \<and>
     st_prog st [''python'', ''-c'', read_snippet] es = read_state es)"

text \<open>
  With a fresh working directory per run nothing is ever read back: on any pool with this setting, at any point of its life and whatever
  was written before, the second snippet reports that there is no file.
\<close>

lemma fresh_reads_missing:
  assumes "box_inv st cf (p, h, d)" "faithful_wire st" "whole_stdin st" "runs_snippets st" "fresh_workdir_per_run cf"
    and "interpreter cf = [''python'', ''-c'']"
    and "run (machine_kube st) read_snippet t CollectNone None [] p = (Inr r, p')" "\<not> timed_out r"
  shows "py_strip (stdout r) = ''len MISSING''"
proof -
  have "cfg p = cf" using assms(1) by (simp add: box_inv_def pool_inv_def)
  with assms(6,7) have "dispatch (machine_kube st) [''python'', ''-c'', read_snippet] t CollectNone None [] p = (Inr r, p')"
    by (simp add: run_def reads_andThen)
  from dispatch_alone [OF assms(1-3,5) this assms(8)] have "stdout r = pr_out (read_state [])"
    using assms(4) by (auto simp: solo_result_def run_on_def process_on_def received_def with_env_def runs_snippets_def)
  moreover have "py_strip (pr_out (read_state [])) = ''len MISSING''" by code_simp
  ultimately show ?thesis by simp
qed

text \<open>Without it the file grows. First one run on a machine that answers at once.\<close>

definition wears :: "worker \<Rightarrow> nat \<Rightarrow> worker" where
  "wears w n = w\<lparr>w_uses := w_uses w + int n\<rparr>"

definition ready :: "toy world pool \<Rightarrow> worker \<Rightarrow> nat \<Rightarrow> bool" where
  "ready p w n \<longleftrightarrow> is_started p \<and> \<not> is_closed p \<and> free_q p = [w] \<and> \<not> fresh_workdir_per_run (cfg p) \<and>
     1 \<le> default_timeout_s (cfg p) \<and> interpreter (cfg p) = [''python'', ''-c''] \<and> w_uses w + int n < max_uses (cfg p) \<and>
     k_now toy_kube (fst (cluster p)) - w_created w < max_age_s (cfg p)"

definition used_once :: "worker \<Rightarrow> entries \<Rightarrow> toy world pool \<Rightarrow> toy world pool" where
  "used_once w es p = p\<lparr>free_q := [wears w 1], cluster := (fst (cluster p), (workspaces p)(w_name w := es))\<rparr>"

lemma snippet_on_prompt:
  assumes "ready p w (Suc n)" "prog [''python'', ''-c'', code] (workspaces p (w_name w)) = ended out es"
  defines "q \<equiv> used_once w es p"
  shows "\<exists>r. snippet_run (machine_kube (prompt_site prog)) code p = (Inr r, q) \<and> stdout r = out @ [CHR 0x0A]"
    and "ready q (wears w 1) n" "workspaces q (w_name (wears w 1)) = es"
proof -
  let ?kb = "machine_kube (prompt_site prog)" and ?p = "p\<lparr>free_q := []\<rparr>"
  let ?r = "\<lparr>stdout = out @ [CHR 0x0A], stderr = [], exit_code = Some 0, timed_out = False, duration_s = 0, sandbox_id = w_name w,
       files = [], files_truncated = []\<rparr> :: json run_result"
  let ?c = "(fst (cluster p), (workspaces p)(w_name w := es))"
  note p = assms(1) [unfolded ready_def]
  have wait: "await_worker ?kb 9 p = p" using p by (simp add: eval_nat_numeral)
  have "exec_on_worker ?kb (cfg p) w [''python'', ''-c'', code] (default_timeout_s (cfg p)) CollectNone None [] False (cluster p) = (Inr ?r, ?c)"
    using prompt_exec [of "default_timeout_s (cfg p)" prog "[''python'', ''-c'', code]" "cluster p" w "out @ [CHR 0x0A]" "[]" good_status es 0 "cfg p"]
      p assms(2) by (simp add: ended_def good_status_code workspaces_def)
  then have held: "held_run ?kb w [''python'', ''-c'', code] (default_timeout_s (cfg p)) CollectNone None [] ?p = (Inr (Inr ?r, False), ?p\<lparr>cluster := ?c\<rparr>)"
    by (simp add: held_run_def run_outcome_def)
  have leased_w: "lease ?kb p = (Inr w, ?p)" using p by (simp add: lease_def)
  have kept: "release ?kb w False None (?p\<lparr>cluster := ?c\<rparr>) = (Inr (), q)"
    using p by (simp add: release_def clock_def reads_andThen Let_def spent_def put_free_def updates_def q_def used_once_def wears_def)
  have "dispatch ?kb [''python'', ''-c'', code] None CollectNone None [] p = (Inr ?r, q)"
    using p by (simp add: dispatch_def reads_andThen ret_andThen timeout_of_def andThen_Inr [of "lease ?kb", OF leased_w] andThen_Inr [of "held_run _ _ _ _ _ _ _", OF held]
        andThen_Inr [of "release _ _ _ _", OF kept] ret_def)
  then show "\<exists>r. snippet_run ?kb code p = (Inr r, q) \<and> stdout r = out @ [CHR 0x0A]"
    using p by (simp add: snippet_run_def andThen_def [of "updates _"] updates_def wait run_def reads_andThen)
  show "ready q (wears w 1) n" "workspaces q (w_name (wears w 1)) = es"
    using p by (simp_all add: ready_def q_def used_once_def wears_def workspaces_def)
qed

definition state_prog :: "string list \<Rightarrow> entries \<Rightarrow> process" where
  "state_prog argv es = (if last argv = write_snippet then write_state es else read_state es)"

lemma state_prog_runs: "runs_snippets (prompt_site state_prog)"
proof -
  have "read_snippet \<noteq> write_snippet" by code_simp
  then show ?thesis by (simp add: runs_snippets_def state_prog_def)
qed

text \<open>The workspace after a number of writes.\<close>

definition written :: "nat \<Rightarrow> entries" where
  "written n = (if n = 0 then [] else [(state_file, NFile True True (replicate n 120))])"

lemma write_written: "write_state (written n) = ended ''wrote'' (written (Suc n))"
  by (simp add: write_state_def written_def replicate_append_same [symmetric])

lemma read_written: "read_state (written (Suc n)) = ended (''len '' @ dec (Suc n)) (written (Suc n))"
proof -
  have "py_decode (replicate m 120) = Inr (replicate m (CHR ''x''))" for m
    by (induction m) (simp_all, code_simp)
  moreover have "newlines (replicate m (CHR ''x'')) = replicate m (CHR ''x'')" for m by (induction m) simp_all
  ultimately show ?thesis by (simp add: read_state_def open_text_def written_def del: replicate_Suc)
qed

lemma strip_line: "py_strip (''len '' @ dec n @ [CHR 0x0A]) = ''len '' @ dec n"
proof -
  have "\<not> is_space c" if "is_digit c" for c using that by (auto simp: is_digit_def is_space_def Let_def)
  moreover have "dec n \<noteq> []" by (simp add: dec.simps [of n])
  then obtain ds d where "dec n = ds @ [d]" by (metis rev_exhaust)
  ultimately have "dec n = ds @ [d] \<and> \<not> is_space d" using dec_digits [of d n] by simp
  then show ?thesis by (simp add: py_strip_def is_space_def [of "CHR ''l''"] is_space_def [of "CHR 0x0A"])
qed

lemma rounds_from:
  "ready p w (2 * n) \<Longrightarrow> workspaces p (w_name w) = written i \<Longrightarrow>
    \<exists>q. state_rounds (machine_kube (prompt_site state_prog)) n p = (Inr (map (\<lambda>j. ''len '' @ dec (Suc j)) [i..<i + n]), q)"
proof (induction n arbitrary: p w i)
  case (Suc n)
  let ?kb = "machine_kube (prompt_site state_prog)"
  define p1 where "p1 = used_once w (written (Suc i)) p"
  define p2 where "p2 = used_once (wears w 1) (written (Suc i)) p1"
  have codes: "last [''python'', ''-c'', write_snippet] = write_snippet" "read_snippet \<noteq> write_snippet" by code_simp+
  have one: "ready p w (Suc (Suc (2 * n)))" using Suc.prems(1) by simp
  have "state_prog [''python'', ''-c'', write_snippet] (workspaces p (w_name w)) = ended ''wrote'' (written (Suc i))"
    by (simp add: state_prog_def Suc.prems(2) write_written)
  from snippet_on_prompt [of p w "Suc (2 * n)" state_prog write_snippet, OF one this] obtain r1 where
    first: "snippet_run ?kb write_snippet p = (Inr r1, p1)" and at1: "ready p1 (wears w 1) (Suc (2 * n))"
      "workspaces p1 (w_name (wears w 1)) = written (Suc i)"
    by (auto simp: p1_def)
  have "state_prog [''python'', ''-c'', read_snippet] (workspaces p1 (w_name (wears w 1))) = ended (''len '' @ dec (Suc i)) (written (Suc i))"
    unfolding at1(2) by (simp add: state_prog_def codes(2) read_written)
  from snippet_on_prompt [of p1 "wears w 1" "2 * n" state_prog read_snippet, OF at1(1) this] obtain r2 where
    second: "snippet_run ?kb read_snippet p1 = (Inr r2, p2)" "stdout r2 = (''len '' @ dec (Suc i)) @ [CHR 0x0A]"
    and at2: "ready p2 (wears (wears w 1) 1) (2 * n)" "workspaces p2 (w_name (wears (wears w 1) 1)) = written (Suc i)"
    by (auto simp: p2_def)
  from Suc.IH [OF at2] obtain q where
    "state_rounds ?kb n p2 = (Inr (map (\<lambda>j. ''len '' @ dec (Suc j)) [Suc i..<Suc i + n]), q)" by blast
  then have "state_rounds ?kb (Suc n) p = (Inr (py_strip (stdout r2) # map (\<lambda>j. ''len '' @ dec (Suc j)) [Suc i..<Suc i + n]), q)"
    by (simp add: andThen_def first second(1) ret_def del: upt_Suc)
  moreover have "[i..<i + Suc n] = i # [Suc i..<Suc i + n]" by (simp add: upt_rec [of i])
  ultimately show ?case using strip_line [of "Suc i"] by (simp add: second(2) del: upt_Suc)
qed (simp add: ret_def)

text \<open>
  Without a fresh working directory the state accumulates, by one character a round: on a pool of one warm worker with an
  empty workspace that is not yet worn out, the rounds of the script print \<^verbatim>\<open>len 1\<close>, \<^verbatim>\<open>len 2\<close>, \<^verbatim>\<open>len 3\<close> and so
  on. (The comment of the script says \<^verbatim>\<open>len 2, 4, 6\<close>.)
\<close>

lemma state_accumulates:
  assumes "ready p w (2 * n)" "workspaces p (w_name w) = []"
  shows "fst (state_rounds (machine_kube (prompt_site state_prog)) n p) = Inr (map (\<lambda>j. ''len '' @ dec (Suc j)) [0..<n])"
  using rounds_from [of p w n 0] assms by (auto simp: written_def)

definition demo_pool :: "sandbox_config \<Rightarrow> toy world pool" where
  "demo_pool cf = snd (start (machine_kube (prompt_site state_prog)) (world_pool cf))"

lemma state_accumulates_example:
  "fst (state_rounds (machine_kube (prompt_site state_prog)) 3 (demo_pool (state_configs ! 1))) = Inr [''len 1'', ''len 2'', ''len 3'']"
proof -
  let ?p = "demo_pool (state_configs ! 1)"
  have facts: "is_started ?p" "\<not> is_closed ?p" "map w_name (free_q ?p) = [''vomero-sandbox-1'']" "map w_uses (free_q ?p) = [0]"
    "map (\<lambda>w. k_now toy_kube (fst (cluster ?p)) - w_created w) (free_q ?p) = [0]" "workspaces ?p ''vomero-sandbox-1'' = []"
    "\<not> fresh_workdir_per_run (cfg ?p)" "default_timeout_s (cfg ?p) = 30" "interpreter (cfg ?p) = [''python'', ''-c'']"
    "max_uses (cfg ?p) = 25" "max_age_s (cfg ?p) = 600"
    by code_simp+
  then obtain w where "free_q ?p = [w]" "w_name w = ''vomero-sandbox-1''" "w_uses w = 0"
    "k_now toy_kube (fst (cluster ?p)) - w_created w = 0" by (cases "free_q ?p") auto
  with facts have "ready ?p w (2 * 3)" "workspaces ?p (w_name w) = []" by (simp_all add: ready_def)
  moreover have "map (\<lambda>j. ''len '' @ dec (Suc j)) [0..<3] = [''len 1'', ''len 2'', ''len 3'']" by code_simp
  ultimately show ?thesis using state_accumulates [of ?p w 3] by metis
qed

end
