(* ===== verification/Scripts.thy ===== *)
theory Scripts
  imports UseCases StreamLaws JobServer
begin

text \<open>
  The scripts of \<^verbatim>\<open>examples/\<close> that show single calls of the API: \<^verbatim>\<open>quickstart.py\<close>, \<^verbatim>\<open>env_vars.py\<close>,
  \<^verbatim>\<open>input_files.py\<close>, \<^verbatim>\<open>output_files.py\<close>, \<^verbatim>\<open>input_output_cycle.py\<close>, \<^verbatim>\<open>run_project.py\<close>,
  \<^verbatim>\<open>runtime_example.py\<close>, \<^verbatim>\<open>streaming.py\<close> and the probes of \<^verbatim>\<open>hardening.py\<close>. A script is the body of its
  \<^verbatim>\<open>with\<close> block; it returns what it prints, without the labels.
\<close>

section \<open>Scripts as steps of the pool\<close>

definition in_steps :: "'c kube \<Rightarrow> ('c pool, 'a) py \<Rightarrow> bool" where
  "in_steps kb m \<longleftrightarrow> (\<forall>p h d. \<exists>d'. (pool_step kb)\<^sup>*\<^sup>* (p, h, d) (snd (m p), h, d'))"

lemma in_steps_pure [py_intros]: "in_steps kb (ret x)" "in_steps kb (throw e)" "in_steps kb (reads g)"
  by (auto simp: in_steps_def py_defs)

lemma in_steps_andThen [py_intros]:
  assumes "in_steps kb m" "\<And>x. in_steps kb (f x)"
  shows "in_steps kb (andThen m f)"
  unfolding in_steps_def
proof (intro allI)
  fix p h d
  obtain r q where m: "m p = (r, q)" by (meson surj_pair)
  with assms(1) obtain d1 where one: "(pool_step kb)\<^sup>*\<^sup>* (p, h, d) (q, h, d1)" unfolding in_steps_def by (metis snd_conv)
  show "\<exists>d'. (pool_step kb)\<^sup>*\<^sup>* (p, h, d) (snd (andThen m f p), h, d')"
  proof (cases r)
    case (Inl e)
    with m one show ?thesis by (auto simp: andThen_def)
  next
    case (Inr x)
    from assms(2) obtain d2 where "(pool_step kb)\<^sup>*\<^sup>* (q, h, d1) (snd (f x q), h, d2)" unfolding in_steps_def by blast
    from rtranclp_trans [OF one this] m Inr show ?thesis by (auto simp: andThen_def)
  qed
qed

lemma in_steps_dispatch [py_intros]: "in_steps kb (dispatch kb argv t k env input)"
  unfolding in_steps_def using dispatch_refines_steps by (metis prod.collapse)

lemma in_steps_run [py_intros]: "in_steps kb (run kb code t k env input)"
  unfolding run_def by (intro py_intros)

lemma in_steps_shell [py_intros]: "in_steps kb (shell kb cmd t k env input)"
  unfolding shell_def by (intro py_intros)

lemma in_steps_exec [py_intros]: "in_steps kb (exec kb argv t k env input)"
  unfolding exec_def by (auto intro: py_intros)

lemma in_steps_project [py_intros]: "in_steps kb (run_project kb dir entry t k env excl follow extra)"
  unfolding run_project_def by (intro py_intros) (auto split: sum.split intro!: py_intros)

text \<open>The \<^verbatim>\<open>with\<close> block around a script: its start and its close are steps too.\<close>

lemma in_steps_with_pool:
  assumes "in_steps kb m"
  shows "in_steps kb (with_pool kb m)"
proof -
  have "in_steps kb (start kb)" unfolding in_steps_def using start_steps by (metis prod.collapse)
  moreover have "in_steps kb (tryFinally m (pool_exit kb))"
    unfolding in_steps_def
  proof (intro allI)
    fix p h d
    obtain r q where m: "m p = (r, q)" by (meson surj_pair)
    with assms obtain d1 where one: "(pool_step kb)\<^sup>*\<^sup>* (p, h, d) (q, h, d1)" unfolding in_steps_def by (metis snd_conv)
    obtain y u where close: "close_pool kb q = (y, u)" by (meson surj_pair)
    from one step_close [OF close, of h d1] have "(pool_step kb)\<^sup>*\<^sup>* (p, h, d) (u, h, d1)" by (rule rtranclp.rtrancl_into_rtrancl)
    then show "\<exists>d'. (pool_step kb)\<^sup>*\<^sup>* (p, h, d) (snd (tryFinally m (pool_exit kb) p), h, d')"
      using m close by (intro exI [of _ d1]) (auto simp: tryFinally_def pool_exit_def split: sum.split)
  qed
  ultimately show ?thesis unfolding with_pool_def pool_enter_def by (intro py_intros)
qed

section \<open>The scripts\<close>

definition plain_run :: "'c kube \<Rightarrow> string \<Rightarrow> ('c pool, json run_result) py" where
  "plain_run kb code = run kb code None CollectNone None []"

definition nl :: string where
  "nl = [CHR 0x0A]"

definition out_of :: "json run_result \<Rightarrow> string" where
  "out_of r = py_strip (stdout r)"

text \<open>\<^verbatim>\<open>s.splitlines()[-1]\<close>, for lines that end with a line feed.\<close>

definition last_line :: "string \<Rightarrow> exn + string" where
  "last_line s = (if s = [] then Inl (OtherErr ''IndexError'') else Inr (last (split_on (CHR 0x0A) (if last s = CHR 0x0A then butlast s else s))))"

definition quickstart :: "'c kube \<Rightarrow> ('c pool, string list \<times> bool \<times> int option \<times> bool \<times> bool) py" where
  "quickstart kb =
     andThen (plain_run kb ''print(sum(range(100)))'') (\<lambda>r1.
     andThen (shell kb ''seq 1 100 | tail -3'' None CollectNone None []) (\<lambda>r2.
     andThen (exec kb [''python'', ''-c'', ''import sys; print(sys.version.split()[0])''] None CollectNone None []) (\<lambda>r3.
     andThen (plain_run kb (''raise ValueError('' @ quoted ''boom'' @ '')'')) (\<lambda>r4.
     case last_line (py_strip (stderr r4)) of
       Inl e \<Rightarrow> throw e
     | Inr msg \<Rightarrow>
         andThen (run kb ''import time; time.sleep(10)'' (Some 1) CollectNone None []) (\<lambda>r5.
         ret ([out_of r1, py_strip (map (\<lambda>c. if c = CHR 0x0A then CHR '' '' else c) (stdout r2)), out_of r3, msg],
           ok r4, exit_code r4, timed_out r4, timed_out r5))))))"

definition env_vars_script :: "'c kube \<Rightarrow> ('c pool, string list) py" where
  "env_vars_script kb =
     andThen (run kb (''import os; print(os.environ['' @ quoted ''MODEL'' @ ''], os.environ['' @ quoted ''USER_TOKEN'' @ ''])'')
       None CollectNone (Some [(''MODEL'', ''gpt-x''), (''USER_TOKEN'', ''tok_abc123'')]) []) (\<lambda>r1.
     andThen (plain_run kb (''import os; print('' @ quoted ''MODEL'' @ '' in os.environ)'')) (\<lambda>r2.
     andThen (run kb (''import os; print(repr(os.environ['' @ quoted ''DANGEROUS'' @ '']))'')
       None CollectNone (Some [(''DANGEROUS'', ''$(whoami); rm -rf /'')]) []) (\<lambda>r3.
     andThen (shell kb (''echo '' @ [CHR 0x22] @ ''region=$REGION'' @ [CHR 0x22]) None CollectNone (Some [(''REGION'', ''eu-south-1'')]) []) (\<lambda>r4.
     ret (map out_of [r1, r2, r3, r4])))))"

definition input_files_code :: string where
  "input_files_code = ''import csv, json'' @ nl @
     ''rows = list(csv.DictReader(open('' @ quoted ''data.csv'' @ '')))'' @ nl @
     ''opts = json.load(open('' @ quoted ''cfg/opts.json'' @ ''))'' @ nl @
     ''best = max(rows, key=lambda x: int(x['' @ quoted ''score'' @ '']))'' @ nl @
     ''print(f'' @ [CHR 0x22] @ ''{len(rows)} rows, mode={opts['' @ quoted ''mode'' @ '']}, top={best['' @ quoted ''name'' @ '']}'' @ [CHR 0x22] @ '')''"

definition bytes_of :: "string \<Rightarrow> byte list" where
  "bytes_of s = map (\<lambda>c. of_nat (of_char c)) s"

definition input_files_script :: "'c kube \<Rightarrow> ('c pool, string) py" where
  "input_files_script kb =
     andThen (run kb input_files_code None CollectNone None
       [(''data.csv'', bytes_of (''name,score'' @ nl @ ''ada,90'' @ nl @ ''grace,95'' @ nl @ ''lin,88'' @ nl)),
        (''cfg/opts.json'', bytes_of (''{'' @ [CHR 0x22] @ ''mode'' @ [CHR 0x22] @ '': '' @ [CHR 0x22] @ ''fast'' @ [CHR 0x22] @ ''}''))]) (\<lambda>r.
     ret (out_of r))"

text \<open>\<^verbatim>\<open>r.files[name]\<close>.\<close>

definition file_of :: "json run_result \<Rightarrow> string \<Rightarrow> exn + byte list" where
  "file_of r n = (case map_of (files r) n of None \<Rightarrow> Inl key_error | Some b \<Rightarrow> Inr b)"

definition orThrow :: "exn + 'a \<Rightarrow> ('s, 'a) py" where
  "orThrow v = (case v of Inl e \<Rightarrow> throw e | Inr x \<Rightarrow> ret x)"

definition output_files_script :: "'c kube \<Rightarrow> ('c pool, string list \<times> string \<times> nat \<times> string list \<times> json list) py" where
  "output_files_script kb =
     andThen (run kb (''open('' @ quoted ''report.txt'' @ '', '' @ quoted ''w'' @ '').write('' @ quoted (''hello from the sandbox'' @ [CHR 0x5C, CHR ''n'']) @ '')'' @ nl @
         ''open('' @ quoted ''data.bin'' @ '', '' @ quoted ''wb'' @ '').write(bytes(range(256)))'')
       None (CollectPaths [''report.txt'', ''data.bin'']) None []) (\<lambda>r1.
     andThen (orThrow (file_of r1 ''report.txt'')) (\<lambda>b.
     andThen (orThrow (py_decode b)) (\<lambda>report.
     andThen (orThrow (file_of r1 ''data.bin'')) (\<lambda>data.
     andThen (shell kb ''mkdir -p out && echo built > out/artifact.txt'' None CollectAll None []) (\<lambda>r2.
     ret (sort_key id (map fst (files r1)), py_strip report, length data, sort_key id (map fst (files r2)), files_truncated r2))))))"

definition run_project_script :: "'c kube \<Rightarrow> host option \<Rightarrow> ('c pool, string \<times> string option) py" where
  "run_project_script kb proj =
     andThen (run_project kb proj [''python'', ''-m'', ''app''] None (CollectPaths [''out/result.json'']) (Some [(''RUN_ID'', ''demo-123'')])
       default_project_excludes False []) (\<lambda>r.
     if ok r \<and> map_of (files r) ''out/result.json'' \<noteq> None then
       andThen (orThrow (file_of r ''out/result.json'')) (\<lambda>b. andThen (orThrow (py_decode b)) (\<lambda>a. ret (out_of r, Some (py_strip a))))
     else ret (out_of r, None))"

definition sales_csv :: string where
  "sales_csv = ''region,amount'' @ nl @ ''north,120'' @ nl @ ''south,90'' @ nl @ ''north,30'' @ nl @ ''south,60'' @ nl"

definition summary_code :: string where
  "summary_code = ''import csv'' @ nl @ ''from collections import defaultdict'' @ nl @ nl @
     ''totals = defaultdict(int)'' @ nl @
     ''for row in csv.DictReader(open('' @ quoted ''sales.csv'' @ '')):'' @ nl @
     ''    totals[row['' @ quoted ''region'' @ '']] += int(row['' @ quoted ''amount'' @ ''])'' @ nl @ nl @
     ''with open('' @ quoted ''summary.csv'' @ '', '' @ quoted ''w'' @ '', newline='' @ quoted [] @ '') as f:'' @ nl @
     ''    w = csv.writer(f)'' @ nl @
     ''    w.writerow(['' @ quoted ''region'' @ '', '' @ quoted ''total'' @ ''])'' @ nl @
     ''    for region, total in sorted(totals.items()):'' @ nl @
     ''        w.writerow([region, total])'' @ nl @ nl @
     ''print(f'' @ quoted ''summarized {len(totals)} regions'' @ '')'' @ nl"

text \<open>Its last lines show the rows of the text that is returned here.\<close>

definition round_trip_script :: "'c kube \<Rightarrow> ('c pool, string \<times> string) py" where
  "round_trip_script kb =
     andThen (run kb summary_code None (CollectPaths [''summary.csv'']) None [(''sales.csv'', bytes_of sales_csv)]) (\<lambda>r.
     if \<not> ok r then ret (out_of r, stderr r)
     else andThen (orThrow (file_of r ''summary.csv'')) (\<lambda>b. andThen (orThrow (py_decode b)) (\<lambda>summary. ret (out_of r, summary))))"

definition chart_config :: sandbox_config where
  "chart_config = default_config\<lparr>image_ref := ''vomero-sandbox-runtime:1.0'', pool_size := 1\<rparr>"

text \<open>The picture is written to a file of the host.\<close>

definition chart_script :: "'c kube \<Rightarrow> string \<Rightarrow> ('c pool, string \<times> (string + byte list)) py" where
  "chart_script kb chart_code =
     andThen (plain_run kb (''import numpy, matplotlib; print('' @ quoted ''libs available'' @ '')'')) (\<lambda>r1.
     andThen (run kb chart_code None (CollectPaths [''chart.png'']) None []) (\<lambda>r2.
     let libs = (if ok r1 then out_of r1 else stderr r1)
     in if \<not> ok r2 then ret (libs, Inl (stderr r2))
        else andThen (orThrow (file_of r2 ''chart.png'')) (\<lambda>png. ret (libs, Inr png))))"

text \<open>A stream that is read in its \<^verbatim>\<open>with\<close> block, as far as \<open>n\<close> chunks; then the result.\<close>

definition read_stream :: "'c kube \<Rightarrow> nat \<Rightarrow> string \<Rightarrow> rat \<Rightarrow> ('c pool, stream_chunk list \<times> json run_result) py" where
  "read_stream kb n code t = (\<lambda>p.
     case streamed_run kb n (interpreter (cfg p) @ [code]) (Some t) CollectNone None [] p of
       ((cs, Some e, res), q) \<Rightarrow> (Inl e, q)
     | ((cs, None, None), q) \<Rightarrow> (Inl AttributeErr, q)
     | ((cs, None, Some r), q) \<Rightarrow> (Inr (cs, r), q))"

definition token_code :: string where
  "token_code = nl @ ''import sys, time'' @ nl @ ''for i in range(1, 6):'' @ nl @
     ''    print(f'' @ [CHR 0x22] @ ''token {i}'' @ [CHR 0x22] @ '', flush=True)'' @ nl @ ''    time.sleep(0.2)'' @ nl @
     ''print('' @ [CHR 0x22] @ ''done'' @ [CHR 0x22] @ '')'' @ nl"

definition tick_code :: string where
  "tick_code = ''import time'' @ nl @ ''while True:'' @ nl @ '' print('' @ quoted ''tick'' @ '', flush=True); time.sleep(0.3)''"

definition streaming_script :: "'c kube \<Rightarrow> nat \<Rightarrow> ('c pool, (bool \<times> int option \<times> bool) \<times> bool) py" where
  "streaming_script kb n =
     andThen (read_stream kb n token_code 30) (\<lambda>(cs1, r1).
     andThen (read_stream kb n tick_code 1) (\<lambda>(cs2, r2).
     ret ((ok r1, exit_code r1, timed_out r1), timed_out r2)))"

definition probe_defaults :: "'c kube \<Rightarrow> ('c pool, string list \<times> bool) py" where
  "probe_defaults kb =
     andThen (plain_run kb (''import os; print('' @ quoted ''uid'' @ '', os.getuid())'')) (\<lambda>r1.
     andThen (plain_run kb (''open('' @ quoted ''/etc/pwned'' @ '', '' @ quoted ''w'' @ '').write('' @ quoted ''x'' @ '')'')) (\<lambda>r2.
     andThen (plain_run kb (''open('' @ quoted ''ok.txt'' @ '', '' @ quoted ''w'' @ '').write('' @ quoted ''x'' @ ''); print('' @ quoted ''scratch writable'' @ '')'')) (\<lambda>r3.
     andThen (plain_run kb (''import os; p='' @ quoted ''/var/run/secrets/kubernetes.io/serviceaccount/token'' @ ''; print('' @ quoted ''token mounted'' @
       '' if os.path.exists(p) else '' @ quoted ''no SA token'' @ '')'')) (\<lambda>r4.
     ret (map out_of [r1, r3, r4], ok r2)))))"

section \<open>They use the pool by its steps and leave nothing behind\<close>

lemma in_steps_plain [py_intros]: "in_steps kb (plain_run kb code)"
  unfolding plain_run_def by (intro py_intros)

lemma in_steps_orThrow [py_intros]: "in_steps kb (orThrow v)"
  unfolding orThrow_def by (cases v) (auto intro: py_intros)

lemma in_steps_read [py_intros]: "in_steps kb (read_stream kb n code t)"
  unfolding in_steps_def
proof (intro allI)
  fix p h d
  let ?s = "streamed_run kb n (interpreter (cfg p) @ [code]) (Some t) CollectNone None [] p"
  have "snd (read_stream kb n code t p) = snd ?s"
    by (auto simp: read_stream_def split: prod.split option.split)
  then show "\<exists>d'. (pool_step kb)\<^sup>*\<^sup>* (p, h, d) (snd (read_stream kb n code t p), h, d')"
    using streamed_steps [of kb p h d n "interpreter (cfg p) @ [code]" "Some t" CollectNone None "[]"] by simp
qed

definition silent :: "('s, 'a) py \<Rightarrow> ('s, unit) py" where
  "silent m = andThen m (\<lambda>_. ret ())"

definition example_scripts :: "'c kube \<Rightarrow> host option \<Rightarrow> string \<Rightarrow> nat \<Rightarrow> ('c pool, unit) py list" where
  "example_scripts kb proj chart_code n = [silent (quickstart kb), silent (env_vars_script kb), silent (input_files_script kb),
     silent (output_files_script kb), silent (run_project_script kb proj), silent (round_trip_script kb), silent (chart_script kb chart_code),
     silent (streaming_script kb n), silent (probe_defaults kb)]"

lemma scripts_in_steps: "\<forall>m \<in> set (example_scripts kb proj chart_code n). in_steps kb m"
proof -
  have "in_steps kb (quickstart kb)" "in_steps kb (env_vars_script kb)" "in_steps kb (input_files_script kb)"
    "in_steps kb (output_files_script kb)" "in_steps kb (round_trip_script kb)" "in_steps kb (probe_defaults kb)"
    "in_steps kb (run_project_script kb proj)" "in_steps kb (chart_script kb chart_code)" "in_steps kb (streaming_script kb n)"
    unfolding quickstart_def env_vars_script_def input_files_script_def output_files_script_def round_trip_script_def probe_defaults_def
      run_project_script_def chart_script_def streaming_script_def Let_def
    by (intro py_intros; auto split: sum.split prod.split intro!: py_intros)+
  then show ?thesis unfolding example_scripts_def silent_def by (auto intro!: py_intros)
qed

text \<open>
  Every one of these scripts, in its \<^verbatim>\<open>with\<close> block, only takes steps of the pool, so that all invariants hold at its end with
  nothing held, and on a cluster that keeps the contract of the API it leaves no pod, whether it ends or raises.
\<close>

lemma scripts_leave_nothing:
  assumes "m \<in> set (example_scripts kb proj chart_code n)"
  shows "(\<exists>d'. (pool_step kb)\<^sup>*\<^sup>* (p, h, d) (snd (with_pool kb m p), h, d')) \<and>
    (pod_contract kb pods \<and> api_up kb \<and> honest_clock kb \<and> pool_enter kb p = (Inr (), q) \<longrightarrow>
      fst (with_pool kb m p) = fst (m q) \<and> pods (cluster (snd (with_pool kb m p))) = {})"
proof (intro conjI impI)
  show "\<exists>d'. (pool_step kb)\<^sup>*\<^sup>* (p, h, d) (snd (with_pool kb m p), h, d')"
    using in_steps_with_pool assms scripts_in_steps unfolding in_steps_def by blast
next
  assume "pod_contract kb pods \<and> api_up kb \<and> honest_clock kb \<and> pool_enter kb p = (Inr (), q)"
  then obtain p' where "with_pool kb m p = (fst (m q), p')" "pods (cluster p') = {}"
    using with_pool_closes [of kb pods p q m] by blast
  then show "fst (with_pool kb m p) = fst (m q)" "pods (cluster (snd (with_pool kb m p))) = {}" by simp_all
qed

lemma scripts_leave_nothing_example:
  "(\<exists>d'. (pool_step calm_kube)\<^sup>*\<^sup>* (toy_pool, [], {}) (snd (with_pool calm_kube (silent (env_vars_script calm_kube)) toy_pool), [], d')) \<and>
    live (cluster (snd (with_pool calm_kube (silent (env_vars_script calm_kube)) toy_pool))) = []"
proof -
  have "fst (pool_enter calm_kube toy_pool) = Inr ()" by code_simp
  then have "pool_enter calm_kube toy_pool = (Inr (), snd (pool_enter calm_kube toy_pool))" by (metis prod.collapse)
  moreover have "silent (env_vars_script calm_kube) \<in> set (example_scripts calm_kube None [] 9)" by (simp add: example_scripts_def)
  ultimately show ?thesis
    using scripts_leave_nothing [of _ calm_kube None "[]" 9 toy_pool "[]" "{}" "\<lambda>c. set (live c)"] calm_contract calm_up calm_clock by simp
qed

end
